(* ===== verification/Prelude.thy ===== *)
theory Prelude
  imports Main "HOL-Library.Word"
begin

section \<open>Shared types, error results and library lemmas\<close>

text \<open>
  What every component theory uses: the machine integer types of the C++ code, the
  results of operations that can abort or throw, the ASCII codes of the characters the
  protocols use, and the list and word lemmas shared by the component proofs.
\<close>

unbundle bit_operations_syntax

type_synonym byte = "8 word"
type_synonym u32 = "32 word"
type_synonym u64 = "64 word"
type_synonym bytebuf = "byte list"

subsection \<open>Collections of facts\<close>

named_theorems word_bits \<open>bit-level facts about the word operations of the code\<close>
named_theorems msg_simps \<open>selector and accessor equations of messages\<close>
named_theorems effect_simps \<open>frame equations: which fields an operation leaves alone\<close>

subsection \<open>Failures\<close>

text \<open>
  An \<open>assert\<close> that fails aborts the process, a \<open>std::logic_error\<close> or a
  \<open>boost::system::system_error\<close> that nobody catches before \<open>main\<close> ends it, and a write past the
  end of a vector is undefined behaviour: each is the left side of a sum.
\<close>

datatype failure = Assertion_failed | Logic_error | System_error | Out_of_bounds

definition ebind :: "'e + 'a \<Rightarrow> ('a \<Rightarrow> 'e + 'b) \<Rightarrow> 'e + 'b" where
  "ebind r k = (case r of Inl e \<Rightarrow> Inl e | Inr x \<Rightarrow> k x)"

lemma ebind_simps [simp]:
  "ebind (Inl e) k = Inl e"
  "ebind (Inr x) k = k x"
  by (simp_all add: ebind_def)

lemma ebind_assoc: "ebind (ebind r k) h = ebind r (\<lambda>x. ebind (k x) h)"
  by (cases r) simp_all

lemma ebind_Inr_iff: "ebind r k = Inr y \<longleftrightarrow> (\<exists>x. r = Inr x \<and> k x = Inr y)"
  by (cases r) auto

lemma ebind_cong [fundef_cong]:
  "r = r' \<Longrightarrow> (\<And>x. r' = Inr x \<Longrightarrow> k x = k' x) \<Longrightarrow> ebind r k = ebind r' k'"
  by (cases r') auto

fun efold :: "('s \<Rightarrow> 'a \<Rightarrow> 'e + 's) \<Rightarrow> 's \<Rightarrow> 'a list \<Rightarrow> 'e + 's" where
  "efold f s [] = Inr s"
| "efold f s (x # xs) = ebind (f s x) (\<lambda>s'. efold f s' xs)"

lemma efold_append: "efold f s (xs @ ys) = ebind (efold f s xs) (\<lambda>s'. efold f s' ys)"
  by (induction xs arbitrary: s) (simp_all add: ebind_assoc)

lemma efold_invariant:
  assumes step: "\<And>s x s'. P s \<Longrightarrow> x \<in> set xs \<Longrightarrow> f s x = Inr s' \<Longrightarrow> P s'"
    and "P s" and "efold f s xs = Inr s'"
  shows "P s'"
  using assms
proof (induction xs arbitrary: s)
  case Nil
  then show ?case by simp
next
  case (Cons x xs)
  from Cons.prems(3) obtain t where "f s x = Inr t" and "efold f t xs = Inr s'"
    by (auto simp: ebind_Inr_iff)
  with Cons.prems(1,2) show ?case
    by (intro Cons.IH [of t]) (auto intro: Cons.prems(1) [of s x t])
qed

subsection \<open>Characters as bytes\<close>

definition ascii :: "char \<Rightarrow> byte" where
  "ascii c = of_char c"

lemma ascii_Char [simp]:
  "ascii (Char b0 b1 b2 b3 b4 b5 b6 b7) = horner_sum of_bool 2 [b0, b1, b2, b3, b4, b5, b6, b7]"
  by (simp add: ascii_def)

subsection \<open>Big-endian bytes\<close>

definition byte_at :: "nat \<Rightarrow> u64 \<Rightarrow> byte" where
  "byte_at k w = ucast (drop_bit k w AND 0xFF)"

lemma and_0xFF_64: "(w :: u64) AND 0xFF = take_bit 8 w"
  by (simp add: take_bit_eq_mask mask_eq_exp_minus_1)

lemma bit_byte_at [word_bits]: "bit (byte_at k w) n \<longleftrightarrow> n < 8 \<and> bit w (k + n)"
  by (auto simp: byte_at_def and_0xFF_64 bit_simps)

lemma word_xor_eq_0: "(a :: 'a::len word) XOR b = 0 \<longleftrightarrow> a = b"
  by (auto simp: bit_eq_iff bit_xor_iff)

subsection \<open>List lemmas\<close>

lemma length_3E:
  assumes "length xs = 3"
  obtains p q r where "xs = [p, q, r]"
proof -
  have "\<exists>p q r. xs = [p, q, r]"
    using assms by (simp add: numeral_3_eq_3 length_Suc_conv) blast
  then show ?thesis using that by blast
qed

lemma last_three_bytesE:
  assumes "3 < length xs"
  obtains ys p q r where "xs = ys @ [p, q, r]" and "ys \<noteq> []"
proof -
  have "length (drop (length xs - 3) xs) = 3" using assms by simp
  then obtain p q r where d: "drop (length xs - 3) xs = [p, q, r]"
    by (rule length_3E)
  have "xs = take (length xs - 3) xs @ drop (length xs - 3) xs" by simp
  moreover have "take (length xs - 3) xs \<noteq> []" using assms by auto
  ultimately show ?thesis using that d by metis
qed

end
