(* ===== verification/Crc.thy ===== *)
theory Crc
  imports Prelude "HOL-Library.AList"
begin

section \<open>The Mode S checksum and the error syndromes (crc.h, crc.cc)\<close>

text \<open>
  The compile-time table generator, the table-driven CRC loop, the message residual and
  the two lazily built syndrome tables of crc.h and crc.cc; then the bit-by-bit division
  that the table computes, and what the syndromes of single-bit errors are.
\<close>

subsection \<open>The code\<close>

definition crc_polynomial :: u32 where
  "crc_polynomial = 0xfff409"

text \<open>The template recursion \<open>crcgen<c, k>\<close>, counting \<open>k\<close> down to the specialisation at 0.\<close>

fun crcgen :: "u32 \<Rightarrow> nat \<Rightarrow> u32" where
  "crcgen c 0 = c AND 0x00FFFFFF"
| "crcgen c (Suc k) =
     crcgen ((if c AND 0x00800000 \<noteq> 0 then crc_polynomial else 0) XOR push_bit 1 c) k"

definition crc_table :: "u32 list" where
  "crc_table = map (\<lambda>n. crcgen (push_bit 16 (word_of_nat n)) 8) [0..<256]"

text \<open>
  One round of the loop of \<open>crc::crc\<close>: the byte is promoted to an \<open>int\<close> and combined with
  the third byte of the register to index the table. The register keeps junk above bit 23
  until the final mask.
\<close>

definition crc_update :: "u32 \<Rightarrow> byte \<Rightarrow> u32" where
  "crc_update c b =
     push_bit 8 c XOR crc_table ! unat (ucast b XOR drop_bit 16 (c AND 0xff0000) :: u32)"

definition crc :: "bytebuf \<Rightarrow> u32" where
  "crc bs = foldl crc_update 0 bs AND 0x00FFFFFF"

definition message_residual :: "bytebuf \<Rightarrow> u32" where
  "message_residual message =
     (let len = length message in
      if len \<le> 3 then 0
      else crc (take (len - 3) message)
             XOR push_bit 16 (ucast (message ! (len - 3)))
             XOR push_bit 8 (ucast (message ! (len - 2)))
             XOR ucast (message ! (len - 1)))"

text \<open>
  The global syndrome maps. \<open>std::map\<close> is an association list with distinct keys:
  \<open>AList.update\<close> is assignment through \<open>operator[]\<close>, \<open>map_of\<close> is \<open>find\<close>, and the empty
  list is the empty map.
\<close>

record crc_globals =
  syndromes_short :: "(u32 \<times> nat) list"
  syndromes_long :: "(u32 \<times> nat) list"

definition flip_bit_at :: "nat \<Rightarrow> bytebuf \<Rightarrow> bytebuf" where
  "flip_bit_at i m = m[i div 8 := (m ! (i div 8)) XOR push_bit (7 - i mod 8) 1]"

text \<open>The body of both loops of \<open>init_syndromes\<close>: flip, record the syndrome, flip back.\<close>

definition syndrome_round ::
  "bytebuf \<times> (u32 \<times> nat) list \<Rightarrow> nat \<Rightarrow> bytebuf \<times> (u32 \<times> nat) list" where
  "syndrome_round st i =
     (let (message, syndromes) = st;
          message = flip_bit_at i message;
          syndromes = AList.update (message_residual message) i syndromes
      in (flip_bit_at i message, syndromes))"

definition syndromes_for :: "nat \<Rightarrow> (u32 \<times> nat) list" where
  "syndromes_for bits =
     snd (foldl syndrome_round (replicate (bits div 8) 0, []) [5..<bits])"

definition init_syndromes :: "crc_globals \<Rightarrow> crc_globals" where
  "init_syndromes g =
     g\<lparr>syndromes_short := syndromes_for 56, syndromes_long := syndromes_for 112\<rparr>"

definition correction_of :: "(u32 \<times> nat) list \<Rightarrow> u32 \<Rightarrow> int" where
  "correction_of syndromes syndrome =
     (case map_of syndromes syndrome of Some i \<Rightarrow> int i | None \<Rightarrow> -1)"

definition correctable_bit_short :: "crc_globals \<Rightarrow> u32 \<Rightarrow> int \<times> crc_globals" where
  "correctable_bit_short g syndrome =
     (let g = (if syndromes_short g = [] then init_syndromes g else g)
      in (correction_of (syndromes_short g) syndrome, g))"

definition correctable_bit_long :: "crc_globals \<Rightarrow> u32 \<Rightarrow> int \<times> crc_globals" where
  "correctable_bit_long g syndrome =
     (let g = (if syndromes_long g = [] then init_syndromes g else g)
      in (correction_of (syndromes_long g) syndrome, g))"

subsection \<open>The reference: division by the generator, one bit at a time\<close>

text \<open>
  \<open>lfsr\<close> multiplies a 24-bit remainder by \<open>x\<close> modulo the generator polynomial (whose
  leading \<open>x ^ 24\<close> is implicit); \<open>poly_rem\<close> divides a bit string, most significant bit
  first.
\<close>

definition lfsr :: "u32 \<Rightarrow> u32" where
  "lfsr c = take_bit 24 ((if bit c 23 then crc_polynomial else 0) XOR push_bit 1 c)"

definition poly_rem :: "bool list \<Rightarrow> u32" where
  "poly_rem bits = foldl (\<lambda>r b. lfsr r XOR of_bool b) 0 bits"

definition byte_bits :: "byte \<Rightarrow> bool list" where
  "byte_bits b = map (bit b) [7, 6, 5, 4, 3, 2, 1, 0]"

definition message_bits :: "bytebuf \<Rightarrow> bool list" where
  "message_bits bs = concat (map byte_bits bs)"

subsection \<open>The shift register is linear\<close>

lemma mask_facts [word_bits]:
  "c AND 0x00FFFFFF = take_bit 24 (c :: u32)"
  "(c AND 0x00800000 \<noteq> 0) = bit (c :: u32) 23"
  "drop_bit 16 (c AND 0xff0000) = take_bit 8 (drop_bit 16 (c :: u32))"
proof -
  show "c AND 0x00FFFFFF = take_bit 24 c"
    by (simp add: take_bit_eq_mask mask_eq_exp_minus_1)
  have "c AND push_bit 23 1 = (if bit c 23 then push_bit 23 1 else 0)"
    by (rule bit_word_eqI) (auto simp: bit_simps simp del: push_bit_of_1)
  moreover have "(push_bit 23 1 :: u32) = 0x00800000" by simp
  ultimately have "c AND 0x00800000 = (if bit c 23 then 0x00800000 else 0)" by metis
  then show "(c AND 0x00800000 \<noteq> 0) = bit c 23" by simp
  have "drop_bit 16 (c AND push_bit 16 (mask 8)) = take_bit 8 (drop_bit 16 c)"
    by (rule bit_word_eqI)
       (simp only: bit_drop_bit_eq o_apply bit_and_iff bit_push_bit_iff bit_mask_iff bit_take_bit_iff, auto)
  moreover have "(push_bit 16 (mask 8) :: u32) = 0xff0000"
    by (simp add: mask_eq_exp_minus_1)
  ultimately show "drop_bit 16 (c AND 0xff0000) = take_bit 8 (drop_bit 16 c)"
    by metis
qed

lemma bit_lfsr [word_bits]:
  "bit (lfsr c) n \<longleftrightarrow>
     n < 24 \<and> (bit c 23 \<and> bit crc_polynomial n) \<noteq> (n \<noteq> 0 \<and> bit c (n - 1))"
proof -
  have "bit (lfsr c) n \<longleftrightarrow>
      n < 24 \<and> bit (if bit c 23 then crc_polynomial else 0) n \<noteq> bit (push_bit 1 c) n"
    by (simp only: lfsr_def bit_take_bit_iff bit_xor_iff)
  also have "bit (push_bit 1 c) n \<longleftrightarrow> n \<noteq> 0 \<and> n < 32 \<and> bit c (n - 1)"
    by (simp only: bit_push_bit_iff) (auto simp: bit_simps)
  finally show ?thesis by auto
qed

lemma lfsr_xor: "lfsr (a XOR b) = lfsr a XOR lfsr b"
  by (rule bit_word_eqI) (auto simp: word_bits bit_xor_iff)

lemma lfsr_0 [simp]: "lfsr 0 = 0"
  by (simp add: lfsr_def)

lemma lfsr_pow_xor: "(lfsr ^^ n) (a XOR b) = (lfsr ^^ n) a XOR (lfsr ^^ n) b"
  by (induction n) (simp_all add: lfsr_xor)

lemma lfsr_pow_0 [simp]: "(lfsr ^^ n) 0 = 0"
  by (induction n) simp_all

lemma lfsr_take [simp]: "lfsr (take_bit 24 c) = lfsr c"
  by (rule bit_word_eqI) (auto simp: word_bits bit_take_bit_iff)

lemma take_lfsr [simp]: "take_bit 24 (lfsr c) = lfsr c"
  by (simp add: lfsr_def)

lemma take_lfsr_pow: "take_bit 24 ((lfsr ^^ n) (take_bit 24 c)) = (lfsr ^^ n) (take_bit 24 c)"
  by (cases n) simp_all

lemma lfsr_pow_small:
  "take_bit (24 - k) c = c \<Longrightarrow> k \<le> 24 \<Longrightarrow> (lfsr ^^ k) c = push_bit k c"
proof (induction k)
  case 0
  then show ?case by simp
next
  case (Suc k)
  have c: "bit c n \<Longrightarrow> n < 24 - Suc k" for n
    using Suc.prems(1) by (metis bit_take_bit_iff)
  have "take_bit (24 - k) c = c"
    by (rule bit_word_eqI) (auto simp: bit_simps dest: c)
  then have "(lfsr ^^ k) c = push_bit k c" using Suc by simp
  moreover have "lfsr (push_bit k c) = push_bit (Suc k) c"
  proof -
    have "\<not> bit (push_bit k c) 23"
      using c [of "23 - k"] by (auto simp: bit_simps)
    then show ?thesis
      using Suc.prems(2)
      by (intro bit_word_eqI)
         (auto simp: word_bits bit_push_bit_iff simp del: push_bit_Suc dest: c)
  qed
  ultimately show ?case by simp
qed

subsection \<open>The table-driven loop computes the division\<close>

lemma crcgen_lfsr: "crcgen c k = (lfsr ^^ k) (take_bit 24 c)"
proof (induction k arbitrary: c)
  case 0
  then show ?case by (simp add: word_bits)
next
  case (Suc k)
  have "crcgen c (Suc k) = (lfsr ^^ k) (lfsr c)"
  proof -
    let ?c' = "(if c AND 0x00800000 \<noteq> 0 then crc_polynomial else 0) XOR push_bit 1 c"
    have "take_bit 24 ?c' = lfsr c"
      by (simp only: lfsr_def word_bits)
    then show ?thesis by (simp only: crcgen.simps Suc)
  qed
  also have "\<dots> = (lfsr ^^ Suc k) (take_bit 24 c)"
    by (simp add: funpow_swap1)
  finally show ?case .
qed

lemma crc_table_nth:
  "i < 256 \<Longrightarrow> crc_table ! i = (lfsr ^^ 8) (take_bit 24 (push_bit 16 (word_of_nat i)))"
  by (simp add: crc_table_def crcgen_lfsr)

lemma eval_256: "(256 :: nat) = 2 ^ 8"
  by simp

lemma crc_update_lfsr:
  "take_bit 24 (crc_update c b) = (lfsr ^^ 8) (take_bit 24 c XOR push_bit 16 (ucast b))"
proof -
  define idx :: u32 where "idx = ucast b XOR take_bit 8 (drop_bit 16 c)"
  have idx: "take_bit 8 idx = idx"
    by (rule bit_word_eqI) (auto simp: idx_def bit_simps dest: bit_imp_le_length)
  then have "unat idx < 256"
    using take_bit_nat_less_exp [of 8 "unat idx"] by (metis unsigned_take_bit_eq eval_256)
  then have "crc_table ! unat idx = (lfsr ^^ 8) (take_bit 24 (push_bit 16 idx))"
    by (simp add: crc_table_nth)
  moreover have "take_bit 24 (push_bit 16 idx) = push_bit 16 idx"
    using idx by (simp add: take_bit_push_bit)
  moreover have "(lfsr ^^ 8) (take_bit 16 c) = push_bit 8 (take_bit 16 c)"
    by (rule lfsr_pow_small) (simp_all add: take_bit_take_bit)
  moreover have "take_bit 24 (push_bit 8 c) = push_bit 8 (take_bit 16 c)"
    by (auto intro!: bit_word_eqI simp: bit_simps)
  moreover have "take_bit 24 c XOR push_bit 16 (ucast b) = take_bit 16 c XOR push_bit 16 idx"
    by (rule bit_word_eqI) (auto simp: bit_simps idx_def dest: bit_imp_le_length)
  moreover have "crc_update c b = push_bit 8 c XOR crc_table ! unat idx"
    by (simp only: crc_update_def mask_facts idx_def)
  moreover have "take_bit 24 ((lfsr ^^ 8) (push_bit 16 idx)) = (lfsr ^^ 8) (push_bit 16 idx)"
    using take_lfsr_pow [of 8 "push_bit 16 idx"] calculation(2) by simp
  ultimately show ?thesis
    by (simp add: take_bit_xor lfsr_pow_xor)
qed

definition rem_byte :: "u32 \<Rightarrow> byte \<Rightarrow> u32" where
  "rem_byte r b = (lfsr ^^ 8) r XOR ucast b"

abbreviation rem_bytes :: "bytebuf \<Rightarrow> u32" where
  "rem_bytes bs \<equiv> foldl rem_byte 0 bs"

lemma take_ucast_byte [simp]: "take_bit 24 (ucast (b :: byte)) = (ucast b :: u32)"
  by (rule bit_word_eqI) (auto simp: bit_simps dest: bit_imp_le_length)

lemma take_rem_bytes [simp]: "take_bit 24 (rem_bytes bs) = rem_bytes bs"
proof (cases bs rule: rev_cases)
  case (snoc ys b)
  have "take_bit 24 ((lfsr ^^ Suc n) c) = (lfsr ^^ Suc n) c" for n c
    by (simp only: funpow.simps o_apply take_lfsr)
  from this [of 7] have "take_bit 24 ((lfsr ^^ 8) c) = (lfsr ^^ 8) c" for c
    by (simp only: Suc_numeral semiring_norm)
  then show ?thesis
    by (simp add: snoc rem_byte_def take_bit_xor)
qed simp

lemma lfsr_pow_add: "(lfsr ^^ m) ((lfsr ^^ n) c) = (lfsr ^^ (m + n)) c"
  by (simp add: funpow_add)

lemma lfsr_pow_byte:
  assumes "k \<le> 16"
  shows "(lfsr ^^ k) (ucast (b :: byte)) = push_bit k (ucast b)"
proof (rule lfsr_pow_small)
  show "take_bit (24 - k) (ucast b) = (ucast b :: u32)"
    using assms by (intro bit_word_eqI) (auto simp: bit_simps dest: bit_imp_le_length)
qed (use assms in simp)

lemma crc_fold: "take_bit 24 (foldl crc_update 0 bs) = (lfsr ^^ 24) (rem_bytes bs)"
proof (induction bs rule: rev_induct)
  case Nil
  then show ?case by simp
next
  case (snoc b bs)
  have "take_bit 24 (foldl crc_update 0 (bs @ [b]))
      = (lfsr ^^ 8) ((lfsr ^^ 24) (rem_bytes bs) XOR (lfsr ^^ 16) (ucast b))"
    by (simp add: crc_update_lfsr snoc lfsr_pow_byte)
  also have "\<dots> = (lfsr ^^ 24) (rem_bytes (bs @ [b]))"
    by (simp add: rem_byte_def lfsr_pow_xor lfsr_pow_add)
  finally show ?case .
qed

lemma rem_bytes_trailer:
  "rem_bytes (bs @ [p, q, r]) =
     crc bs XOR push_bit 16 (ucast p) XOR push_bit 8 (ucast q) XOR ucast r"
proof -
  have "rem_bytes (bs @ [p, q, r]) =
      (lfsr ^^ 24) (rem_bytes bs) XOR (lfsr ^^ 16) (ucast p) XOR (lfsr ^^ 8) (ucast q)
        XOR ucast r"
    by (simp add: rem_byte_def lfsr_pow_xor lfsr_pow_add xor.assoc)
  then show ?thesis
    by (simp add: lfsr_pow_byte crc_def word_bits crc_fold)
qed

lemma message_residual_rem:
  assumes "3 < length m"
  shows "message_residual m = rem_bytes m"
proof -
  obtain ys p q r where m: "m = ys @ [p, q, r]" and "ys \<noteq> []"
    using assms by (rule last_three_bytesE)
  then have "message_residual m =
      crc ys XOR push_bit 16 (ucast p) XOR push_bit 8 (ucast q) XOR ucast r"
    by (simp add: message_residual_def nth_append numeral_3_eq_3 numeral_2_eq_2)
  then show ?thesis by (simp only: m rem_bytes_trailer)
qed

subsection \<open>Bit strings\<close>

lemma lfsr_pow_bit:
  assumes "k \<le> 16"
  shows "(lfsr ^^ k) (of_bool x) = push_bit k (of_bool x)"
proof (cases x)
  case True
  have "take_bit (24 - k) (1 :: u32) = 1"
    using assms by (intro bit_word_eqI) (auto simp: bit_simps bit_1_iff)
  with True assms show ?thesis by (simp add: lfsr_pow_small)
qed simp

lemma ucast_byte_bits:
  "(ucast (b :: byte) :: u32) =
     push_bit 7 (of_bool (bit b 7)) XOR push_bit 6 (of_bool (bit b 6))
       XOR push_bit 5 (of_bool (bit b 5)) XOR push_bit 4 (of_bool (bit b 4))
       XOR push_bit 3 (of_bool (bit b 3)) XOR push_bit 2 (of_bool (bit b 2))
       XOR push_bit 1 (of_bool (bit b 1)) XOR push_bit 0 (of_bool (bit b 0))"
    (is "_ = ?r")
proof (rule bit_word_eqI)
  fix n assume "n < LENGTH(32)"
  then have n32: "n < 32" by simp
  have pb: "bit (push_bit k (of_bool x) :: u32) n \<longleftrightarrow> n = k \<and> x" for k x
    using n32 by (auto simp: bit_push_bit_iff bit_of_bool_iff)
  have "bit ?r n \<longleftrightarrow> n < 8 \<and> bit b n"
  proof (cases "n < 8")
    case True
    then have "n = 0 \<or> n = 1 \<or> n = 2 \<or> n = 3 \<or> n = 4 \<or> n = 5 \<or> n = 6 \<or> n = 7"
      by arith
    then show ?thesis
      by (simp only: bit_xor_iff pb) (elim disjE; simp)
  next
    case False
    then have "n \<noteq> 0 \<and> n \<noteq> 1 \<and> n \<noteq> 2 \<and> n \<noteq> 3 \<and> n \<noteq> 4 \<and> n \<noteq> 5 \<and> n \<noteq> 6 \<and> n \<noteq> 7"
      by arith
    with False show ?thesis
      by (simp only: bit_xor_iff pb) simp
  qed
  moreover have "bit (ucast b :: u32) n \<longleftrightarrow> n < 8 \<and> bit b n"
    using n32 by (auto simp: bit_unsigned_iff dest: bit_imp_le_length)
  ultimately show "bit (ucast b :: u32) n = bit ?r n" by simp
qed

lemma rem_byte_bits: "foldl (\<lambda>r b. lfsr r XOR of_bool b) r (byte_bits b) = rem_byte r b"
proof -
  have "foldl (\<lambda>r b. lfsr r XOR of_bool b) r (byte_bits b) =
      (lfsr ^^ 8) r XOR (lfsr ^^ 7) (of_bool (bit b 7)) XOR (lfsr ^^ 6) (of_bool (bit b 6))
        XOR (lfsr ^^ 5) (of_bool (bit b 5)) XOR (lfsr ^^ 4) (of_bool (bit b 4))
        XOR (lfsr ^^ 3) (of_bool (bit b 3)) XOR (lfsr ^^ 2) (of_bool (bit b 2))
        XOR (lfsr ^^ 1) (of_bool (bit b 1)) XOR (lfsr ^^ 0) (of_bool (bit b 0))"
    by (simp add: byte_bits_def lfsr_xor eval_nat_numeral xor.assoc)
  then show ?thesis
    by (simp only: rem_byte_def ucast_byte_bits lfsr_pow_bit)
qed

lemma poly_rem_bytes: "poly_rem (message_bits bs) = rem_bytes bs"
proof -
  have "foldl (\<lambda>r b. lfsr r XOR of_bool b) c (message_bits bs) = foldl rem_byte c bs" for c
    by (induction bs arbitrary: c) (simp_all add: message_bits_def rem_byte_bits)
  then show ?thesis by (simp add: poly_rem_def)
qed

subsection \<open>Single-bit errors\<close>

lemma length_flip_bit_at [simp]: "length (flip_bit_at i m) = length m"
  by (simp add: flip_bit_at_def)

lemma flip_flip [simp]: "flip_bit_at i (flip_bit_at i m) = m"
proof (cases "i div 8 < length m")
  case True
  then show ?thesis
    by (simp add: flip_bit_at_def xor.assoc)
next
  case False
  then show ?thesis
    by (simp add: flip_bit_at_def list_update_beyond)
qed

lemma foldl_rem_byte_xor:
  "foldl rem_byte (r XOR d) bs = foldl rem_byte r bs XOR (lfsr ^^ (8 * length bs)) d"
proof (induction bs arbitrary: r d)
  case Nil
  then show ?case by simp
next
  case (Cons b bs)
  have "rem_byte (r XOR d) b = rem_byte r b XOR (lfsr ^^ 8) d"
    by (simp add: rem_byte_def lfsr_pow_xor xor.assoc xor.commute xor.left_commute)
  then show ?case by (simp add: Cons lfsr_pow_add add.commute)
qed

lemma rem_bytes_flip:
  assumes "i < 8 * length m"
  shows "rem_bytes (flip_bit_at i m) = rem_bytes m XOR (lfsr ^^ (8 * length m - 1 - i)) 1"
proof -
  define j k where "j = i div 8" and "k = 7 - i mod 8"
  have j: "j < length m" and k: "k < 8" using assms by (auto simp: j_def k_def)
  have e: "(ucast (push_bit k 1 :: byte) :: u32) = (lfsr ^^ k) 1"
  proof -
    have "(ucast (push_bit k 1 :: byte) :: u32) = push_bit k 1"
      using k by (intro bit_word_eqI) (auto simp: bit_simps bit_1_iff)
    then show ?thesis using k lfsr_pow_bit [of k True] by simp
  qed
  have m: "m = take j m @ m ! j # drop (Suc j) m" using j by (rule id_take_nth_drop)
  have f: "flip_bit_at i m = take j m @ (m ! j XOR push_bit k 1) # drop (Suc j) m"
    using j by (simp add: flip_bit_at_def upd_conv_take_nth_drop flip: j_def k_def)
  have step: "rem_byte r (b XOR push_bit k 1) = rem_byte r b XOR (lfsr ^^ k) 1" for r b
    by (simp only: rem_byte_def unsigned_xor_eq e xor.assoc)
  have n: "8 * (length m - Suc j) + k = 8 * length m - 1 - i"
  proof -
    have "i = 8 * j + (7 - k)" by (simp add: j_def k_def)
    then show ?thesis using j k by arith
  qed
  have "rem_bytes (flip_bit_at i m) =
      foldl rem_byte (rem_byte (rem_bytes (take j m)) (m ! j) XOR (lfsr ^^ k) 1) (drop (Suc j) m)"
    by (simp only: f foldl_append foldl.simps step)
  also have "\<dots> = rem_bytes (take j m @ m ! j # drop (Suc j) m) XOR (lfsr ^^ (8 * length m - 1 - i)) 1"
    by (simp add: foldl_rem_byte_xor lfsr_pow_add n)
  finally show ?thesis by (simp only: m [symmetric])
qed

subsection \<open>Distinct syndromes\<close>

lemma lfsr_eq_0:
  assumes "lfsr c = 0"
  shows "take_bit 24 c = 0"
proof -
  have z: "\<not> bit (lfsr c) n" for n using assms by simp
  have "bit crc_polynomial 0" by (simp add: crc_polynomial_def bit_0)
  with z [of 0] have top: "\<not> bit c 23" by (simp add: word_bits)
  have "\<not> bit c n" if "n < 24" for n
    using z [of "Suc n"] top that by (cases "n = 23") (auto simp: word_bits)
  then show ?thesis by (intro bit_word_eqI) (auto simp: bit_simps)
qed

lemma lfsr_pow_eq_0: "(lfsr ^^ n) (take_bit 24 c) = 0 \<Longrightarrow> take_bit 24 c = 0"
proof (induction n)
  case 0
  then show ?case by simp
next
  case (Suc n)
  then have "take_bit 24 ((lfsr ^^ n) (take_bit 24 c)) = 0"
    by (intro lfsr_eq_0) simp
  then show ?case using Suc.IH by (simp add: take_lfsr_pow)
qed

text \<open>The powers of \<open>x\<close> up to the length of a long message never return to 1.\<close>

primrec orbit_all :: "(u32 \<Rightarrow> bool) \<Rightarrow> nat \<Rightarrow> u32 \<Rightarrow> bool" where
  "orbit_all P 0 c = True"
| "orbit_all P (Suc n) c = (P c \<and> orbit_all P n (lfsr c))"

lemma orbit_allD: "orbit_all P n c \<Longrightarrow> k < n \<Longrightarrow> P ((lfsr ^^ k) c)"
proof (induction n arbitrary: c k)
  case (Suc n)
  then show ?case
    by (cases k) (auto simp: funpow_swap1)
qed simp

lemma orbit_avoids_one: "orbit_all (\<lambda>c. c \<noteq> 1) 111 (lfsr 1)"
  by code_simp

lemma take_lfsr_pow_1 [simp]: "take_bit 24 ((lfsr ^^ n) 1) = (lfsr ^^ n) 1"
  using take_lfsr_pow [of n 1] by (simp add: take_bit_of_1)

lemma lfsr_pow_neq_1: "0 < k \<Longrightarrow> k \<le> 111 \<Longrightarrow> (lfsr ^^ k) 1 \<noteq> 1"
  using orbit_allD [OF orbit_avoids_one, of "k - 1"]
  by (cases k) (auto simp: funpow_swap1)

lemma lfsr_pow_inj_less:
  assumes "i < j" and "j \<le> 111"
  shows "(lfsr ^^ i) 1 \<noteq> (lfsr ^^ j) 1"
proof
  assume "(lfsr ^^ i) 1 = (lfsr ^^ j) 1"
  moreover have "(lfsr ^^ j) 1 = (lfsr ^^ i) ((lfsr ^^ (j - i)) 1)"
    using assms by (simp add: lfsr_pow_add)
  ultimately have "(lfsr ^^ i) (1 XOR (lfsr ^^ (j - i)) 1) = 0"
    by (simp add: lfsr_pow_xor)
  moreover have t: "take_bit 24 (1 XOR (lfsr ^^ (j - i)) 1) = 1 XOR (lfsr ^^ (j - i)) 1"
    by (simp add: take_bit_xor take_bit_of_1)
  ultimately have "1 XOR (lfsr ^^ (j - i)) 1 = 0"
    using lfsr_pow_eq_0 [of i "1 XOR (lfsr ^^ (j - i)) 1"] by simp
  then have "(lfsr ^^ (j - i)) 1 = 1"
    by (simp add: word_xor_eq_0)
  moreover have "(lfsr ^^ (j - i)) 1 \<noteq> 1"
    using assms by (intro lfsr_pow_neq_1) auto
  ultimately show False by simp
qed

lemma lfsr_pow_inj: "i \<le> 111 \<Longrightarrow> j \<le> 111 \<Longrightarrow> (lfsr ^^ i) 1 = (lfsr ^^ j) 1 \<longleftrightarrow> i = j"
  using lfsr_pow_inj_less [of i j] lfsr_pow_inj_less [of j i]
  by (cases i j rule: linorder_cases) auto

lemma lfsr_pow_1_neq_0 [simp]: "(lfsr ^^ n) 1 \<noteq> 0"
  using lfsr_pow_eq_0 [of n 1] by (auto simp: take_bit_of_1)

subsection \<open>The syndrome tables\<close>

definition syndrome_of :: "nat \<Rightarrow> nat \<Rightarrow> u32" where
  "syndrome_of bits i = (lfsr ^^ (bits - 1 - i)) 1"

lemma rem_bytes_zero [simp]: "rem_bytes (replicate n 0) = 0"
  by (induction n) (simp_all add: rem_byte_def)

lemma syndrome_round_zero:
  assumes "i < 8 * n" and "3 < n"
  shows "syndrome_round (replicate n 0, al) i =
    (replicate n 0, AList.update (syndrome_of (8 * n) i) i al)"
  using assms
  by (simp add: syndrome_round_def Let_def message_residual_rem rem_bytes_flip syndrome_of_def)

lemma syndrome_rounds:
  assumes "\<And>i. i \<in> set is \<Longrightarrow> i < 8 * n" and "3 < n"
  shows "foldl syndrome_round (replicate n 0, al) is =
    (replicate n 0, foldl (\<lambda>al i. AList.update (syndrome_of (8 * n) i) i al) al is)"
  using assms by (induction "is" arbitrary: al) (simp_all add: syndrome_round_zero)

lemma map_of_updates:
  assumes "inj_on f (set is)" and "distinct is"
  shows "map_of (foldl (\<lambda>al i. AList.update (f i) i al) al is) s =
    (if s \<in> f ` set is then Some (the_inv_into (set is) f s) else map_of al s)"
  using assms
proof (induction "is" arbitrary: al)
  case (Cons i "is")
  have inj: "inj_on f (set is)" using Cons.prems(1) by simp
  have "map_of (foldl (\<lambda>al i. AList.update (f i) i al) al (i # is)) s =
      (if s \<in> f ` set is then Some (the_inv_into (set is) f s)
       else map_of (AList.update (f i) i al) s)"
    using Cons.IH [OF inj] Cons.prems(2) by simp
  also have "\<dots> = (if s \<in> f ` set (i # is) then Some (the_inv_into (set (i # is)) f s)
      else map_of al s)"
    using Cons.prems(1)
    by (auto simp: update_conv the_inv_into_f_eq the_inv_into_f_f inj the_inv_into_into
        intro!: the_inv_into_f_eq [symmetric])
  finally show ?case .
qed simp

lemma inj_syndrome_of: "bits \<le> 112 \<Longrightarrow> inj_on (syndrome_of bits) {5..<bits}"
  by (rule inj_onI) (auto simp: syndrome_of_def lfsr_pow_inj)

lemma map_of_syndromes_for:
  assumes "bits = 8 * n" and "3 < n" and "bits \<le> 112"
  shows "map_of (syndromes_for bits) s = Some i \<longleftrightarrow> 5 \<le> i \<and> i < bits \<and> s = syndrome_of bits i"
proof -
  have inj: "inj_on (syndrome_of bits) (set [5..<bits])"
    using inj_syndrome_of assms(3) by simp
  have "syndromes_for bits = foldl (\<lambda>al i. AList.update (syndrome_of bits i) i al) [] [5..<bits]"
    using assms syndrome_rounds [of "[5..<bits]" n "[]"] by (simp add: syndromes_for_def)
  then have "map_of (syndromes_for bits) s =
      (if s \<in> syndrome_of bits ` set [5..<bits]
       then Some (the_inv_into (set [5..<bits]) (syndrome_of bits) s) else None)"
    by (simp add: map_of_updates [OF inj])
  also have "\<dots> = Some i \<longleftrightarrow> 5 \<le> i \<and> i < bits \<and> s = syndrome_of bits i"
    using inj by (auto simp: the_inv_into_f_f)
  finally show ?thesis .
qed

text \<open>What the tables decide, as one function of the message length in bits.\<close>

definition single_bit_error :: "nat \<Rightarrow> u32 \<Rightarrow> int" where
  "single_bit_error bits s = correction_of (syndromes_for bits) s"

lemma single_bit_error_eq_iff:
  assumes "bits = 8 * n" and "3 < n" and "bits \<le> 112"
  shows "single_bit_error bits s = int i \<longleftrightarrow> 5 \<le> i \<and> i < bits \<and> s = syndrome_of bits i"
  using map_of_syndromes_for [OF assms, of s i]
  by (auto simp: single_bit_error_def correction_of_def split: option.splits)

lemma single_bit_error_range: "single_bit_error bits s = -1 \<or> 0 \<le> single_bit_error bits s"
  by (auto simp: single_bit_error_def correction_of_def split: option.splits)

lemma message_residual_flip:
  assumes "3 < length m" and "i < 8 * length m"
  shows "message_residual (flip_bit_at i m) =
    message_residual m XOR syndrome_of (8 * length m) i"
  using assms by (simp add: message_residual_rem rem_bytes_flip syndrome_of_def)

definition crc_globals_ok :: "crc_globals \<Rightarrow> bool" where
  "crc_globals_ok g \<longleftrightarrow>
     (syndromes_short g = [] \<or> syndromes_short g = syndromes_for 56) \<and>
     (syndromes_long g = [] \<or> syndromes_long g = syndromes_for 112)"

lemma correctable_bit_lazy:
  assumes "crc_globals_ok g"
  shows "fst (correctable_bit_short g s) = single_bit_error 56 s"
    and "fst (correctable_bit_long g s) = single_bit_error 112 s"
    and "crc_globals_ok (snd (correctable_bit_short g s))"
    and "crc_globals_ok (snd (correctable_bit_long g s))"
  using assms
  by (auto simp: correctable_bit_short_def correctable_bit_long_def crc_globals_ok_def
      single_bit_error_def init_syndromes_def Let_def)

text \<open>Evaluating residuals of concrete messages in the simplifier.\<close>

lemma lfsr_pow_8: "(lfsr ^^ 8) r = lfsr (lfsr (lfsr (lfsr (lfsr (lfsr (lfsr (lfsr r)))))))"
  by (simp add: eval_nat_numeral)

lemmas crc_eval = rem_byte_def lfsr_pow_8 lfsr_def crc_polynomial_def

subsection \<open>Properties\<close>

text \<open>
  C12: the table-driven loop of \<open>crc::message_residual\<close> computes, for every byte string, the
  remainder of the whole message, read as a polynomial over GF(2), modulo the Mode S
  generator; strings of at most three bytes have residual 0.
\<close>

theorem message_residual_is_division:
  "message_residual m = (if length m \<le> 3 then 0 else poly_rem (message_bits m))"
  by (simp add: message_residual_rem poly_rem_bytes) (simp add: message_residual_def)

text \<open>
  C20: the lazily built tables are right: \<open>correctable_bit_long\<close> (and \<open>_short\<close>) called on the
  global maps in any state the program can leave them in returns bit \<open>i\<close> exactly when the
  syndrome is the residual of a message with the single bit \<open>i\<close> set, for the positions 5
  and up that lie outside the DF field, and every other syndrome gives -1.
\<close>

theorem correctable_bit_iff:
  assumes "crc_globals_ok g"
  shows "(fst (correctable_bit_long g s) = int i \<longleftrightarrow>
      5 \<le> i \<and> i < 112 \<and> s = message_residual (flip_bit_at i (replicate 14 0)))
    \<and> (fst (correctable_bit_short g s) = int i \<longleftrightarrow>
      5 \<le> i \<and> i < 56 \<and> s = message_residual (flip_bit_at i (replicate 7 0)))
    \<and> (fst (correctable_bit_long g s) < 0 \<longrightarrow> fst (correctable_bit_long g s) = -1)"
proof -
  have z: "message_residual (flip_bit_at i (replicate n 0)) = syndrome_of (8 * n) i"
    if "i < 8 * n" and "3 < n" for n
    using that by (simp add: message_residual_rem rem_bytes_flip syndrome_of_def)
  show ?thesis
    using z [of 14] z [of 7] single_bit_error_range [of 112 s]
    by (auto simp: correctable_bit_lazy [OF assms]
        single_bit_error_eq_iff [where n = 14] single_bit_error_eq_iff [where n = 7])
qed

theorem correctable_bit_iff_witness:
  "fst (correctable_bit_long \<lparr>syndromes_short = [], syndromes_long = []\<rparr>
     (message_residual (flip_bit_at 20 (replicate 14 0)))) = int 20"
proof -
  have "crc_globals_ok \<lparr>syndromes_short = [], syndromes_long = []\<rparr>"
    by (simp add: crc_globals_ok_def)
  from correctable_bit_iff [OF this, of "message_residual (flip_bit_at 20 (replicate 14 0))" 20]
  show ?thesis by simp
qed

end
