(* ===== verification/ModesMessage.thy ===== *)
theory ModesMessage
  imports Crc
begin

section \<open>Messages and their error correction (modes_message.h)\<close>

text \<open>
  The class \<open>Message\<close> with its three \<open>mutable\<close> caches. The member functions are
  \<open>const\<close> in C++ but write the caches and the global syndrome tables, so here they take
  and return both. The uncached accessors \<open>msg_crc_bad\<close>, \<open>msg_correctable\<close> and
  \<open>msg_corrected_data\<close> are what the cached ones are proved to return; the other theories use
  them.
\<close>

subsection \<open>Types, sizes and constructors\<close>

datatype message_type = INVALID | MODE_AC | MODE_S_SHORT | MODE_S_LONG | STATUS | POSITION

datatype timestamp_type = UNKNOWN_TIMESTAMP | TWELVEMEG | GPS

fun message_size :: "message_type \<Rightarrow> nat" where
  "message_size MODE_AC = 2"
| "message_size MODE_S_SHORT = 7"
| "message_size MODE_S_LONG = 14"
| "message_size STATUS = 14"
| "message_size POSITION = 14"
| "message_size INVALID = 0"

record message =
  m_type :: message_type
  m_timestamp_type :: timestamp_type
  m_timestamp :: u64
  m_signal :: byte
  m_data :: bytebuf
  m_residual :: u32
  m_correctable_bit :: int
  m_corrected_data :: bytebuf

definition default_message :: message where
  "default_message =
     \<lparr>m_type = INVALID, m_timestamp_type = UNKNOWN_TIMESTAMP, m_timestamp = 0, m_signal = 0,
      m_data = [], m_residual = 0xFFFFFFFF, m_correctable_bit = -2, m_corrected_data = []\<rparr>"

text \<open>Both data constructors, with their \<open>assert\<close> on the size of the data.\<close>

definition make_message ::
  "message_type \<Rightarrow> timestamp_type \<Rightarrow> u64 \<Rightarrow> byte \<Rightarrow> bytebuf \<Rightarrow> failure + message" where
  "make_message type timestamp_type timestamp sig data =
     (if length data = message_size type
      then Inr \<lparr>m_type = type, m_timestamp_type = timestamp_type, m_timestamp = timestamp,
        m_signal = sig, m_data = data, m_residual = 0xFFFFFFFF, m_correctable_bit = -2,
        m_corrected_data = []\<rparr>
      else Inl Assertion_failed)"

definition df :: "message \<Rightarrow> int" where
  "df m = (case m_type m of
      MODE_S_SHORT \<Rightarrow> uint (drop_bit 3 (m_data m ! 0) AND 31)
    | MODE_S_LONG \<Rightarrow> uint (drop_bit 3 (m_data m ! 0) AND 31)
    | _ \<Rightarrow> -1)"

subsection \<open>The cached accessors\<close>

definition crc_residual :: "message \<Rightarrow> u32 \<times> message" where
  "crc_residual m =
     (let m = (if m_residual m = 0xFFFFFFFF
               then m\<lparr>m_residual := message_residual (m_data m)\<rparr> else m)
      in (m_residual m, m))"

definition crc_bad :: "message \<Rightarrow> bool \<times> message" where
  "crc_bad m =
     (if df m = 11 then (let (r, m) = crc_residual m in (r AND 0xFFFF80 \<noteq> 0, m))
      else if df m = 17 \<or> df m = 18 then (let (r, m) = crc_residual m in (r \<noteq> 0, m))
      else (False, m))"

definition crc_correctable_bit ::
  "crc_globals \<Rightarrow> message \<Rightarrow> int \<times> crc_globals \<times> message" where
  "crc_correctable_bit g m =
     (if m_correctable_bit m = -2 then
        (if df m = 11 then
           (let (r, m) = crc_residual m; (b, g) = correctable_bit_short g r
            in (b, g, m\<lparr>m_correctable_bit := b\<rparr>))
         else if df m = 17 \<or> df m = 18 then
           (let (r, m) = crc_residual m; (b, g) = correctable_bit_long g r
            in (b, g, m\<lparr>m_correctable_bit := b\<rparr>))
         else (-1, g, m\<lparr>m_correctable_bit := -1\<rparr>))
      else (m_correctable_bit m, g, m))"

definition crc_correctable ::
  "crc_globals \<Rightarrow> message \<Rightarrow> bool \<times> crc_globals \<times> message" where
  "crc_correctable g m = (let (b, g, m) = crc_correctable_bit g m in (0 \<le> b, g, m))"

text \<open>
  \<open>m_corrected_data[bit / 8] ^= (1 << (7 - (bit & 7)))\<close> is \<open>flip_bit_at bit\<close> where the
  index is inside the vector; outside it the write is undefined behaviour.
\<close>

definition corrected_data ::
  "crc_globals \<Rightarrow> message \<Rightarrow> failure + bytebuf \<times> crc_globals \<times> message" where
  "corrected_data g m =
     (let (bad, m) = crc_bad m in
      if \<not> bad then Inr (m_data m, g, m)
      else if length (m_corrected_data m) \<noteq> 0 then Inr (m_corrected_data m, g, m)
      else let (b, g, m) = crc_correctable_bit g m in
        if b < 0 then Inr (m_corrected_data m, g, m)
        else if length (m_data m) \<le> nat b div 8 then Inl Out_of_bounds
        else let m = m\<lparr>m_corrected_data := flip_bit_at (nat b) (m_data m)\<rparr>
             in Inr (m_corrected_data m, g, m))"

subsection \<open>The uncached accessors\<close>

definition wf_message :: "message \<Rightarrow> bool" where
  "wf_message m \<longleftrightarrow> length (m_data m) = message_size (m_type m)"

definition msg_crc_bad :: "message \<Rightarrow> bool" where
  "msg_crc_bad m \<longleftrightarrow>
     (if df m = 11 then message_residual (m_data m) AND 0xFFFF80 \<noteq> 0
      else (df m = 17 \<or> df m = 18) \<and> message_residual (m_data m) \<noteq> 0)"

definition msg_correctable_bit :: "message \<Rightarrow> int" where
  "msg_correctable_bit m =
     (if df m = 11 then single_bit_error 56 (message_residual (m_data m))
      else if df m = 17 \<or> df m = 18 then single_bit_error 112 (message_residual (m_data m))
      else -1)"

definition msg_correctable :: "message \<Rightarrow> bool" where
  "msg_correctable m \<longleftrightarrow> 0 \<le> msg_correctable_bit m"

definition msg_corrected_data :: "message \<Rightarrow> failure + bytebuf" where
  "msg_corrected_data m =
     (if \<not> msg_crc_bad m then Inr (m_data m)
      else if \<not> msg_correctable m then Inr []
      else if length (m_data m) \<le> nat (msg_correctable_bit m) div 8 then Inl Out_of_bounds
      else Inr (flip_bit_at (nat (msg_correctable_bit m)) (m_data m)))"

text \<open>The cache invariant: every cache holds its sentinel or the uncached value.\<close>

definition caches_ok :: "message \<Rightarrow> bool" where
  "caches_ok m \<longleftrightarrow>
     m_residual m \<in> {0xFFFFFFFF, message_residual (m_data m)} \<and>
     m_correctable_bit m \<in> {-2, msg_correctable_bit m} \<and>
     (m_corrected_data m = [] \<or>
      msg_crc_bad m \<and> msg_corrected_data m = Inr (m_corrected_data m))"

definition same_message :: "message \<Rightarrow> message \<Rightarrow> bool" where
  "same_message m m' \<longleftrightarrow>
     m_type m' = m_type m \<and> m_timestamp_type m' = m_timestamp_type m \<and>
     m_timestamp m' = m_timestamp m \<and> m_signal m' = m_signal m \<and> m_data m' = m_data m"

lemma same_message_refl [simp]: "same_message m m"
  by (simp add: same_message_def)

lemma same_message_trans: "same_message a b \<Longrightarrow> same_message b c \<Longrightarrow> same_message a c"
  by (simp add: same_message_def)

lemma df_update [msg_simps]:
  "df (m\<lparr>m_residual := r\<rparr>) = df m"
  "df (m\<lparr>m_correctable_bit := b\<rparr>) = df m"
  "df (m\<lparr>m_corrected_data := d\<rparr>) = df m"
  by (simp_all add: df_def split: message_type.split)

lemma uncached_update [msg_simps]:
  "msg_crc_bad (m\<lparr>m_residual := r\<rparr>) = msg_crc_bad m"
  "msg_crc_bad (m\<lparr>m_correctable_bit := b\<rparr>) = msg_crc_bad m"
  "msg_crc_bad (m\<lparr>m_corrected_data := d\<rparr>) = msg_crc_bad m"
  "msg_correctable_bit (m\<lparr>m_residual := r\<rparr>) = msg_correctable_bit m"
  "msg_correctable_bit (m\<lparr>m_correctable_bit := b\<rparr>) = msg_correctable_bit m"
  "msg_correctable_bit (m\<lparr>m_corrected_data := d\<rparr>) = msg_correctable_bit m"
  by (simp_all add: msg_crc_bad_def msg_correctable_bit_def df_update)

lemma uncached_update_more [msg_simps]:
  "msg_correctable (m\<lparr>m_residual := r\<rparr>) = msg_correctable m"
  "msg_correctable (m\<lparr>m_correctable_bit := b\<rparr>) = msg_correctable m"
  "msg_correctable (m\<lparr>m_corrected_data := d\<rparr>) = msg_correctable m"
  "msg_corrected_data (m\<lparr>m_residual := r\<rparr>) = msg_corrected_data m"
  "msg_corrected_data (m\<lparr>m_correctable_bit := b\<rparr>) = msg_corrected_data m"
  "msg_corrected_data (m\<lparr>m_corrected_data := d\<rparr>) = msg_corrected_data m"
  by (simp_all add: msg_correctable_def msg_corrected_data_def uncached_update)

subsection \<open>The caches are transparent\<close>

lemma make_message_ok:
  assumes "make_message type tt ts sig data = Inr m"
  shows "wf_message m" "caches_ok m" "m_type m = type" "m_timestamp_type m = tt"
    "m_timestamp m = ts" "m_signal m = sig" "m_data m = data"
  using assms by (auto simp: make_message_def wf_message_def caches_ok_def split: if_splits)

lemma crc_residual_ok:
  assumes "caches_ok m"
  shows "fst (crc_residual m) = message_residual (m_data m)"
    and "caches_ok (snd (crc_residual m))" and "same_message m (snd (crc_residual m))"
    and "m_correctable_bit (snd (crc_residual m)) = m_correctable_bit m"
    and "m_corrected_data (snd (crc_residual m)) = m_corrected_data m"
  using assms
  by (auto simp: crc_residual_def caches_ok_def same_message_def Let_def msg_simps)

lemma same_message_uncached [msg_simps]:
  assumes "same_message m m'"
  shows "df m' = df m" "msg_crc_bad m' = msg_crc_bad m"
    "msg_correctable_bit m' = msg_correctable_bit m" "msg_correctable m' = msg_correctable m"
    "msg_corrected_data m' = msg_corrected_data m" "wf_message m' = wf_message m"
proof -
  from assms show d: "df m' = df m"
    by (auto simp: same_message_def df_def split: message_type.split)
  from assms show "msg_crc_bad m' = msg_crc_bad m"
    "msg_correctable_bit m' = msg_correctable_bit m" "msg_correctable m' = msg_correctable m"
    "msg_corrected_data m' = msg_corrected_data m" "wf_message m' = wf_message m"
    by (simp_all add: d same_message_def msg_crc_bad_def msg_correctable_bit_def
        msg_correctable_def msg_corrected_data_def wf_message_def)
qed

lemma crc_bad_ok:
  assumes "caches_ok m"
  shows "fst (crc_bad m) = msg_crc_bad m"
    and "caches_ok (snd (crc_bad m))" and "same_message m (snd (crc_bad m))"
  using crc_residual_ok [OF assms] assms
  by (auto simp: crc_bad_def msg_crc_bad_def split: prod.splits)

lemma correctable_bit_update_ok:
  "caches_ok m \<Longrightarrow> b = msg_correctable_bit m \<Longrightarrow> caches_ok (m\<lparr>m_correctable_bit := b\<rparr>)"
  by (auto simp: caches_ok_def msg_simps)

lemma crc_correctable_bit_ok:
  assumes "caches_ok m" and "crc_globals_ok g"
    and "crc_correctable_bit g m = (b, g', m')"
  shows "b = msg_correctable_bit m \<and> crc_globals_ok g' \<and> caches_ok m' \<and> same_message m m' \<and>
    m_corrected_data m' = m_corrected_data m"
proof (cases "m_correctable_bit m = -2")
  case False
  with assms show ?thesis
    by (auto simp: crc_correctable_bit_def caches_ok_def)
next
  case True
  note res = crc_residual_ok [OF assms(1)] and lazy = correctable_bit_lazy [OF assms(2)]
  obtain m1 where m1: "crc_residual m = (message_residual (m_data m), m1)"
    using res(1) by (cases "crc_residual m") simp
  have ok: "caches_ok m1" "same_message m m1" "m_corrected_data m1 = m_corrected_data m"
    using res m1 by simp_all
  have same: "same_message m (m1\<lparr>m_correctable_bit := c\<rparr>)" for c
    using ok(2) by (simp add: same_message_def)
  have bit: "msg_correctable_bit m1 = msg_correctable_bit m"
    using same_message_uncached(3) [OF ok(2)] .
  consider "df m = 11" | "df m = 17 \<or> df m = 18" "df m \<noteq> 11"
    | "df m \<noteq> 11" "df m \<noteq> 17" "df m \<noteq> 18" by blast
  then show ?thesis
  proof cases
    case 1
    with True assms(3) m1 lazy [of "message_residual (m_data m)"] same ok bit
    show ?thesis
      by (auto simp: crc_correctable_bit_def msg_correctable_bit_def split: prod.splits
          intro!: correctable_bit_update_ok)
  next
    case 2
    with True assms(3) m1 lazy [of "message_residual (m_data m)"] same ok bit
    show ?thesis
      by (auto simp: crc_correctable_bit_def msg_correctable_bit_def split: prod.splits
          intro!: correctable_bit_update_ok)
  next
    case 3
    with True assms show ?thesis
      by (auto simp: crc_correctable_bit_def msg_correctable_bit_def same_message_def
          intro!: correctable_bit_update_ok)
  qed
qed

lemma crc_correctable_ok:
  assumes "caches_ok m" and "crc_globals_ok g" and "crc_correctable g m = (b, g', m')"
  shows "b = msg_correctable m \<and> crc_globals_ok g' \<and> caches_ok m' \<and> same_message m m'"
  using crc_correctable_bit_ok [OF assms(1,2)] assms(3)
  by (auto simp: crc_correctable_def msg_correctable_def split: prod.splits)

lemma corrected_data_update_ok:
  "caches_ok m \<Longrightarrow> msg_crc_bad m \<Longrightarrow> msg_corrected_data m = Inr d \<Longrightarrow>
    caches_ok (m\<lparr>m_corrected_data := d\<rparr>)"
  by (auto simp: caches_ok_def msg_simps)

definition corrected_result ::
  "message \<Rightarrow> failure + bytebuf \<times> crc_globals \<times> message \<Rightarrow> bool" where
  "corrected_result m r \<longleftrightarrow>
     (case r of Inl e \<Rightarrow> msg_corrected_data m = Inl e
      | Inr (d, g', m') \<Rightarrow> msg_corrected_data m = Inr d \<and> crc_globals_ok g' \<and> caches_ok m' \<and>
          same_message m m')"

lemma corrected_data_ok:
  assumes "caches_ok m" and "crc_globals_ok g"
  shows "corrected_result m (corrected_data g m)"
proof -
  obtain m1 where m1: "crc_bad m = (msg_crc_bad m, m1)" and ok: "caches_ok m1" "same_message m m1"
    using crc_bad_ok [OF assms(1)] by (cases "crc_bad m") auto
  note unc = same_message_uncached [OF ok(2)]
  show ?thesis
  proof (cases "msg_crc_bad m \<and> m_corrected_data m1 = []")
    case False
    have "m_data m1 = m_data m" using ok(2) by (simp add: same_message_def)
    moreover have "msg_crc_bad m \<Longrightarrow> msg_corrected_data m = Inr (m_corrected_data m1)"
      using False ok(1) unc by (simp add: caches_ok_def)
    moreover have "corrected_data g m =
        Inr (if msg_crc_bad m then m_corrected_data m1 else m_data m1, g, m1)"
      using False by (auto simp: corrected_data_def m1)
    ultimately show ?thesis
      using ok assms(2) by (simp add: corrected_result_def msg_corrected_data_def)
  next
    case True
    obtain b g1 m2 where c: "crc_correctable_bit g m1 = (b, g1, m2)"
      by (cases "crc_correctable_bit g m1") auto
    from crc_correctable_bit_ok [OF ok(1) assms(2) c] True unc
    have b: "b = msg_correctable_bit m" "crc_globals_ok g1" "caches_ok m2" "same_message m1 m2"
      "m_corrected_data m2 = []" by auto
    have s2: "same_message m m2" using same_message_trans [OF ok(2) b(4)] .
    then have data: "m_data m2 = m_data m" by (simp add: same_message_def)
    note unc2 = same_message_uncached [OF s2]
    let ?d = "flip_bit_at (nat b) (m_data m)"
    have eq: "corrected_data g m =
        (if b < 0 then Inr ([], g1, m2)
         else if length (m_data m) \<le> nat b div 8 then Inl Out_of_bounds
         else Inr (?d, g1, m2\<lparr>m_corrected_data := ?d\<rparr>))"
      using True b(5) data by (simp add: corrected_data_def m1 c)
    have "caches_ok (m2\<lparr>m_corrected_data := ?d\<rparr>)"
      if "0 \<le> b" "\<not> length (m_data m) \<le> nat b div 8"
      using that True unc2 b(1,3)
      by (intro corrected_data_update_ok) (auto simp: msg_corrected_data_def msg_correctable_def)
    moreover have "same_message m (m2\<lparr>m_corrected_data := ?d\<rparr>)"
      using s2 by (simp add: same_message_def)
    ultimately show ?thesis
      using True b s2
      by (auto simp: eq corrected_result_def msg_corrected_data_def msg_correctable_def)
  qed
qed

subsection \<open>What a single-bit error does\<close>

lemma drop_flip_first_byte:
  assumes "5 \<le> i" and "0 < length d"
  shows "drop_bit 3 (flip_bit_at i d ! 0) = drop_bit 3 (d ! 0)"
proof (cases "i div 8 = 0")
  case True
  then have k: "7 - i mod 8 < 3" using assms by (simp add: div_eq_0_iff)
  have "flip_bit_at i d ! 0 = d ! 0 XOR push_bit (7 - i mod 8) 1"
    using True assms(2) by (simp add: flip_bit_at_def)
  then show ?thesis
    using k by (intro bit_word_eqI) (auto simp: bit_simps bit_1_iff)
next
  case False
  then show ?thesis by (simp add: flip_bit_at_def)
qed

lemma df_flip:
  assumes "m_type m' = m_type m" and "m_data m' = flip_bit_at i (m_data m)" and "5 \<le> i"
    and "wf_message m"
  shows "df m' = df m"
proof (cases "m_type m = MODE_S_SHORT \<or> m_type m = MODE_S_LONG")
  case True
  then have "0 < length (m_data m)" using assms(4) by (auto simp: wf_message_def)
  with assms show ?thesis
    by (auto simp: df_def drop_flip_first_byte split: message_type.split)
next
  case False
  then show ?thesis using assms(1) by (auto simp: df_def split: message_type.split)
qed

text \<open>The low 7 bits of a DF11 residual carry the interrogator: bits 49 to 55 of the message.\<close>

lemma orbit_low_bits:
  "orbit_all (\<lambda>c. c AND 0xFFFF80 = 0) 7 1"
  "orbit_all (\<lambda>c. c AND 0xFFFF80 \<noteq> 0) 49 ((lfsr ^^ 7) 1)"
  by code_simp+

lemma short_low_bits:
  assumes "i < 56"
  shows "(syndrome_of 56 i AND 0xFFFF80 = 0) \<longleftrightarrow> 49 \<le> i"
proof (cases "49 \<le> i")
  case True
  then show ?thesis
    using orbit_allD [OF orbit_low_bits(1), of "55 - i"] by (simp add: syndrome_of_def)
next
  case False
  then have "(lfsr ^^ (55 - i)) 1 = (lfsr ^^ (48 - i)) ((lfsr ^^ 7) 1)"
    by (simp add: lfsr_pow_add)
  with False show ?thesis
    using orbit_allD [OF orbit_low_bits(2), of "48 - i"] by (simp add: syndrome_of_def)
qed

lemma flip_residual:
  assumes "length d = n" and "3 < n" and "i < 8 * n" and "message_residual d = 0"
  shows "message_residual (flip_bit_at i d) = syndrome_of (8 * n) i"
  using assms by (simp add: message_residual_flip)

lemma syndrome_of_neq_0: "syndrome_of bits i \<noteq> 0"
  by (simp add: syndrome_of_def)

lemma single_bit_error_syndrome:
  "5 \<le> i \<Longrightarrow> i < 112 \<Longrightarrow> single_bit_error 112 (syndrome_of 112 i) = int i"
  "5 \<le> i \<Longrightarrow> i < 56 \<Longrightarrow> single_bit_error 56 (syndrome_of 56 i) = int i"
  by (simp_all add: single_bit_error_eq_iff [where n = 14] single_bit_error_eq_iff [where n = 7])

lemma single_bit_long:
  assumes "wf_message m" and "df m = 17 \<or> df m = 18" and "m_type m = MODE_S_LONG"
    and "message_residual (m_data m) = 0" and "5 \<le> i" and "i < 112"
    and "m_type m' = MODE_S_LONG" and "m_data m' = flip_bit_at i (m_data m)"
  shows "msg_crc_bad m' \<and> msg_correctable m' \<and> msg_corrected_data m' = Inr (m_data m)"
proof -
  have len: "length (m_data m) = 14" using assms by (simp add: wf_message_def)
  have "df m' = df m" using assms by (intro df_flip) auto
  moreover have "message_residual (m_data m') = syndrome_of 112 i"
    using flip_residual [OF len] assms by simp
  ultimately show ?thesis
    using assms len
    by (auto simp: msg_crc_bad_def msg_correctable_def msg_correctable_bit_def
        msg_corrected_data_def syndrome_of_neq_0 single_bit_error_syndrome)
qed

lemma single_bit_short:
  assumes "wf_message m" and "df m = 11" and "m_type m = MODE_S_SHORT"
    and "message_residual (m_data m) = 0" and "5 \<le> i" and "i < 56"
    and "m_type m' = MODE_S_SHORT" and "m_data m' = flip_bit_at i (m_data m)"
  shows "msg_crc_bad m' = (i < 49) \<and>
    (i < 49 \<longrightarrow> msg_correctable m' \<and> msg_corrected_data m' = Inr (m_data m))"
proof -
  have len: "length (m_data m) = 7" using assms by (simp add: wf_message_def)
  have "df m' = df m" using assms by (intro df_flip) auto
  moreover have "message_residual (m_data m') = syndrome_of 56 i"
    using flip_residual [OF len] assms by simp
  ultimately show ?thesis
    using assms len short_low_bits [of i]
    by (auto simp: msg_crc_bad_def msg_correctable_def msg_correctable_bit_def
        msg_corrected_data_def single_bit_error_syndrome)
qed

subsection \<open>Properties\<close>

text \<open>
  C21: the mutable caches are invisible. On a message whose caches are consistent (every
  constructed message is) and global tables in any reachable state, \<open>crc_bad\<close>,
  \<open>crc_correctable\<close> and \<open>corrected_data\<close> return what they would compute from the data alone,
  leave the message's contents as they were and keep caches and tables consistent.
\<close>

theorem cached_accessors:
  assumes "caches_ok m" and "crc_globals_ok g"
    and "crc_bad m = (bad, m1)" and "crc_correctable g m = (correctable, g2, m2)"
  shows "bad = msg_crc_bad m \<and> correctable = msg_correctable m \<and>
    same_message m m1 \<and> same_message m m2 \<and> caches_ok m1 \<and> caches_ok m2 \<and>
    crc_globals_ok g2 \<and>
    (case corrected_data g m of
       Inl e \<Rightarrow> msg_corrected_data m = Inl e
     | Inr (data, g3, m3) \<Rightarrow> msg_corrected_data m = Inr data \<and> same_message m m3 \<and>
         caches_ok m3 \<and> crc_globals_ok g3)"
  using crc_bad_ok [OF assms(1)] crc_correctable_ok [OF assms(1,2,4)]
    corrected_data_ok [OF assms(1,2)] assms(3)
  by (auto simp: corrected_result_def split: sum.splits)

text \<open>
  C5: forward error correction of extended squitters. Take any 14-byte DF17 or DF18 message
  whose checksum is right and let any one bit from position 5 on arrive inverted: the
  message built from the damaged bytes is reported bad and correctable, and
  \<open>corrected_data\<close> is the original.
\<close>

theorem fec_corrects_long:
  assumes "length d = 14" and "uint (drop_bit 3 (d ! 0) AND 31) \<in> {17, 18}"
    and "message_residual d = 0" and "5 \<le> i" and "i < 112" and "crc_globals_ok g"
    and "make_message MODE_S_LONG tt ts sig (flip_bit_at i d) = Inr m"
  shows "fst (crc_bad m) \<and> fst (crc_correctable g m) \<and>
    (\<exists>g' m'. corrected_data g m = Inr (d, g', m'))"
proof -
  obtain m0 where m0: "make_message MODE_S_LONG tt ts sig d = Inr m0"
    using assms(1) by (simp add: make_message_def)
  note ok0 = make_message_ok [OF m0] and ok = make_message_ok [OF assms(7)]
  have "df m0 = 17 \<or> df m0 = 18" using assms(2) ok0 by (simp add: df_def)
  then have u: "msg_crc_bad m" "msg_correctable m" "msg_corrected_data m = Inr d"
    using single_bit_long [of m0 i m] ok0 ok assms by auto
  have "fst (crc_correctable g m)"
    using u crc_correctable_ok [OF ok(2) assms(6)] by (metis prod.collapse)
  then show ?thesis
    using u crc_bad_ok(1) [OF ok(2)] corrected_data_ok [OF ok(2) assms(6)]
    by (auto simp: corrected_result_def split: sum.splits)
qed

definition sample_squitter :: bytebuf where
  "sample_squitter =
     [0x8D, 0x48, 0x40, 0xD6, 0x20, 0x2C, 0xC3, 0x71, 0xC3, 0x2C, 0xE0, 0x57, 0x60, 0x98]"

lemma sample_squitter_ok:
  "length sample_squitter = 14" "uint (drop_bit 3 (sample_squitter ! 0) AND 31) \<in> {17, 18}"
  "message_residual sample_squitter = 0"
proof -
  have "rem_bytes sample_squitter = 0" by (simp add: crc_eval sample_squitter_def)
  then show "message_residual sample_squitter = 0"
    by (simp add: message_residual_rem sample_squitter_def)
qed (simp_all add: sample_squitter_def)

abbreviation fresh_globals :: crc_globals where
  "fresh_globals \<equiv> \<lparr>syndromes_short = [], syndromes_long = []\<rparr>"

lemma fresh_globals_ok: "crc_globals_ok fresh_globals"
  by (simp add: crc_globals_ok_def)

definition damaged_squitter :: message where
  "damaged_squitter =
     projr (make_message MODE_S_LONG TWELVEMEG 0 0 (flip_bit_at 40 sample_squitter))"

lemma damaged_squitter_make:
  "make_message MODE_S_LONG TWELVEMEG 0 0 (flip_bit_at 40 sample_squitter) = Inr damaged_squitter"
  by (simp add: make_message_def damaged_squitter_def sample_squitter_ok)

lemma damaged_squitter_accessors:
  "msg_crc_bad damaged_squitter" "msg_correctable damaged_squitter"
  "msg_corrected_data damaged_squitter = Inr sample_squitter"
proof -
  obtain m0 where m0: "make_message MODE_S_LONG TWELVEMEG 0 0 sample_squitter = Inr m0"
    by (simp add: make_message_def sample_squitter_ok)
  note ok0 = make_message_ok [OF m0] and ok = make_message_ok [OF damaged_squitter_make]
  have "df m0 = 17 \<or> df m0 = 18" using sample_squitter_ok(2) ok0 by (simp add: df_def)
  then have "msg_crc_bad damaged_squitter \<and> msg_correctable damaged_squitter \<and>
      msg_corrected_data damaged_squitter = Inr (m_data m0)"
    using single_bit_long [of m0 40 damaged_squitter] ok ok0 sample_squitter_ok by simp
  then show "msg_crc_bad damaged_squitter" "msg_correctable damaged_squitter"
    "msg_corrected_data damaged_squitter = Inr sample_squitter"
    using ok0 by auto
qed

theorem fec_corrects_long_witness:
  "\<exists>g' m'. corrected_data fresh_globals damaged_squitter = Inr (sample_squitter, g', m')"
  using fec_corrects_long [OF sample_squitter_ok _ _ fresh_globals_ok damaged_squitter_make]
  by simp

theorem cached_accessors_witness:
  "fst (crc_bad damaged_squitter) = msg_crc_bad damaged_squitter"
  using cached_accessors [OF make_message_ok(2) [OF damaged_squitter_make] fresh_globals_ok]
  by (cases "crc_bad damaged_squitter"; cases "crc_correctable fresh_globals damaged_squitter")
     auto

text \<open>
  C25: error correction of all-call replies. In a 7-byte DF11 message with interrogator 0 whose
  checksum is right, a single inverted bit at positions 5 to 48 is reported bad and corrected
  back; inverted in the last seven bits, where the interrogator is overlaid, it is not
  reported at all.
\<close>

theorem fec_corrects_all_call:
  assumes "length d = 7" and "uint (drop_bit 3 (d ! 0) AND 31) = 11"
    and "message_residual d = 0" and "5 \<le> i" and "i < 56" and "crc_globals_ok g"
    and "make_message MODE_S_SHORT tt ts sig (flip_bit_at i d) = Inr m"
  shows "fst (crc_bad m) = (i < 49) \<and>
    (i < 49 \<longrightarrow> fst (crc_correctable g m) \<and> (\<exists>g' m'. corrected_data g m = Inr (d, g', m')))"
proof -
  obtain m0 where m0: "make_message MODE_S_SHORT tt ts sig d = Inr m0"
    using assms(1) by (simp add: make_message_def)
  note ok0 = make_message_ok [OF m0] and ok = make_message_ok [OF assms(7)]
  have "df m0 = 11" using assms(2) ok0 by (simp add: df_def)
  then have u: "msg_crc_bad m = (i < 49)"
    "i < 49 \<Longrightarrow> msg_correctable m \<and> msg_corrected_data m = Inr d"
    using single_bit_short [of m0 i m] ok0 ok assms by auto
  have "fst (crc_correctable g m) = msg_correctable m"
    using crc_correctable_ok [OF ok(2) assms(6)] by (metis prod.collapse)
  then show ?thesis
    using u crc_bad_ok(1) [OF ok(2)] corrected_data_ok [OF ok(2) assms(6)]
    by (auto simp: corrected_result_def split: sum.splits)
qed

definition sample_all_call :: bytebuf where
  "sample_all_call = [0x5D, 0x48, 0x40, 0xD6, 0xF8, 0x74, 0x0F]"

theorem fec_corrects_all_call_witness:
  "let m = projr (make_message MODE_S_SHORT TWELVEMEG 0 0 (flip_bit_at 20 sample_all_call))
   in fst (crc_bad m) \<and> fst (crc_correctable fresh_globals m)"
proof -
  let ?d = "flip_bit_at 20 sample_all_call"
  obtain m where m: "make_message MODE_S_SHORT TWELVEMEG 0 0 ?d = Inr m"
    by (simp add: make_message_def sample_all_call_def)
  have "rem_bytes sample_all_call = 0" by (simp add: crc_eval sample_all_call_def)
  then have r: "message_residual sample_all_call = 0"
    by (simp add: message_residual_rem sample_all_call_def)
  have "length sample_all_call = 7" "uint (drop_bit 3 (sample_all_call ! 0) AND 31) = 11"
    by (simp_all add: sample_all_call_def)
  from fec_corrects_all_call [OF this r _ _ fresh_globals_ok m] m show ?thesis by simp
qed

lemma residual_after_correction:
  assumes "length d = n" and "3 < n" and "i < 8 * n" and "message_residual d = syndrome_of (8 * n) i"
  shows "message_residual (flip_bit_at i d) = 0"
  using assms by (simp add: message_residual_flip)

lemma correctable_bit_cases:
  assumes "msg_crc_bad m" and "msg_correctable m"
  obtains i where "df m = 11" "msg_correctable_bit m = int i" "5 \<le> i" "i < 56"
      "message_residual (m_data m) = syndrome_of 56 i"
  | i where "df m = 17 \<or> df m = 18" "msg_correctable_bit m = int i" "5 \<le> i" "i < 112"
      "message_residual (m_data m) = syndrome_of 112 i"
proof -
  obtain i where i: "msg_correctable_bit m = int i"
    using assms(2) nonneg_int_cases by (auto simp: msg_correctable_def)
  from assms(1) consider "df m = 11" | "df m = 17 \<or> df m = 18" "df m \<noteq> 11"
    by (auto simp: msg_crc_bad_def split: if_splits)
  then show ?thesis
  proof cases
    case 1
    with i have "single_bit_error 56 (message_residual (m_data m)) = int i"
      by (simp add: msg_correctable_bit_def)
    then show ?thesis
      using that(1) [OF 1 i] single_bit_error_eq_iff [of 56 7] by simp
  next
    case 2
    with i have "single_bit_error 112 (message_residual (m_data m)) = int i"
      by (auto simp: msg_correctable_bit_def)
    then show ?thesis
      using that(2) [OF 2(1) i] single_bit_error_eq_iff [of 112 14] by simp
  qed
qed

lemma single_bit_error_0: "single_bit_error 112 0 = -1"
proof (rule ccontr)
  assume "single_bit_error 112 0 \<noteq> -1"
  then obtain i where "single_bit_error 112 0 = int i"
    using single_bit_error_range [of 112 0] nonneg_int_cases by metis
  then show False
    using single_bit_error_eq_iff [of 112 14 0 i] syndrome_of_neq_0 [of 112 i] by simp
qed

lemma df_type: "df m \<noteq> -1 \<Longrightarrow> m_type m = MODE_S_SHORT \<or> m_type m = MODE_S_LONG"
  by (cases "m_type m") (simp_all add: df_def)

lemma wf_data_length:
  "wf_message m \<Longrightarrow> m_type m = MODE_S_SHORT \<Longrightarrow> length (m_data m) = 7"
  "wf_message m \<Longrightarrow> m_type m = MODE_S_LONG \<Longrightarrow> length (m_data m) = 14"
  by (simp_all add: wf_message_def)

lemma corrected_data_out_of_bounds_lemma:
  assumes "wf_message m" and "caches_ok m" and "crc_globals_ok g"
  shows "corrected_data g m = Inl Out_of_bounds \<longleftrightarrow>
    m_type m = MODE_S_SHORT \<and> df m \<in> {17, 18} \<and> 56 \<le> msg_correctable_bit m"
proof -
  have "corrected_data g m = Inl Out_of_bounds \<longleftrightarrow> msg_corrected_data m = Inl Out_of_bounds"
    using corrected_data_ok [OF assms(2,3)]
    by (auto simp: corrected_result_def split: sum.splits)
  also have "\<dots> \<longleftrightarrow> msg_crc_bad m \<and> msg_correctable m \<and>
      length (m_data m) \<le> nat (msg_correctable_bit m) div 8"
    by (simp add: msg_corrected_data_def)
  also have "\<dots> \<longleftrightarrow>
      m_type m = MODE_S_SHORT \<and> df m \<in> {17, 18} \<and> 56 \<le> msg_correctable_bit m"
    (is "?l = ?r")
  proof
    assume l: ?l
    then show ?r
      by (elim conjE correctable_bit_cases)
         (use df_type [of m] wf_data_length [OF assms(1)] in auto)
  next
    assume r: ?r
    then have c: "msg_correctable m" by (simp add: msg_correctable_def)
    have "msg_correctable_bit m = single_bit_error 112 (message_residual (m_data m))"
      using r by (auto simp: msg_correctable_bit_def)
    then have "message_residual (m_data m) \<noteq> 0"
      using r single_bit_error_0 by auto
    then have "msg_crc_bad m" using r by (auto simp: msg_crc_bad_def)
    with c r wf_data_length(1) [OF assms(1)] show ?l by auto
  qed
  finally show ?thesis .
qed

text \<open>
  C33: where error correction writes outside the message. For a well-formed message
  \<open>corrected_data\<close> goes out of bounds exactly when a short (7-byte) message carries an
  extended-squitter DF17 or DF18 and its residual is the long-message syndrome of a bit at
  position 56 or later; long messages and DF11 never do. The DF is taken from the data and
  the length from the frame type, and the two are not checked against each other.
\<close>

theorem corrected_data_out_of_bounds_iff:
  assumes "wf_message m" and "caches_ok m" and "crc_globals_ok g"
  shows "corrected_data g m = Inl Out_of_bounds \<longleftrightarrow>
    m_type m = MODE_S_SHORT \<and> df m \<in> {17, 18} \<and> 56 \<le> msg_correctable_bit m"
  using assms by (rule corrected_data_out_of_bounds_lemma)

text \<open>A short frame with DF17 data whose last bit arrived inverted.\<close>

definition short_squitter :: bytebuf where
  "short_squitter = [0x88, 0, 0, 0, 0xA1, 0x9B, 0xF6]"

lemma short_squitter_ok:
  "length short_squitter = 7" "uint (drop_bit 3 (short_squitter ! 0) AND 31) = 17"
  "message_residual short_squitter = 0"
proof -
  have "rem_bytes short_squitter = 0" by (simp add: crc_eval short_squitter_def)
  then show "message_residual short_squitter = 0"
    by (simp add: message_residual_rem short_squitter_def)
qed (simp_all add: short_squitter_def)

text \<open>
  The write really happens. In a 7-byte message with DF17 or DF18 and a right checksum,
  every single inverted bit from position 5 on is looked up in the long table, is found there
  56 positions too far, and correcting it writes past the 7 bytes.
\<close>

theorem short_squitter_out_of_bounds:
  assumes "length d = 7" and "uint (drop_bit 3 (d ! 0) AND 31) \<in> {17, 18}"
    and "message_residual d = 0" and "5 \<le> i" and "i < 56" and "crc_globals_ok g"
    and "make_message MODE_S_SHORT tt ts sig (flip_bit_at i d) = Inr m"
  shows "fst (crc_correctable g m) \<and> corrected_data g m = Inl Out_of_bounds"
proof -
  obtain m0 where m0: "make_message MODE_S_SHORT tt ts sig d = Inr m0"
    using assms(1) by (simp add: make_message_def)
  note ok0 = make_message_ok [OF m0] and ok = make_message_ok [OF assms(7)]
  have "df m0 = 17 \<or> df m0 = 18" using assms(2) ok0 by (simp add: df_def)
  moreover have "df m = df m0" using ok0 ok assms(4) by (intro df_flip) auto
  ultimately have df: "df m = 17 \<or> df m = 18" by simp
  have "message_residual (m_data m) = syndrome_of 56 i"
    using flip_residual [OF assms(1)] assms ok by simp
  also have "\<dots> = syndrome_of 112 (56 + i)" using assms(5) by (simp add: syndrome_of_def)
  finally have bit: "msg_correctable_bit m = int (56 + i)"
    using df single_bit_error_syndrome(1) [of "56 + i"] assms(4,5)
    by (auto simp: msg_correctable_bit_def)
  then have "corrected_data g m = Inl Out_of_bounds"
    using corrected_data_out_of_bounds_lemma [OF ok(1,2) assms(6)] ok(3) df by auto
  moreover have "fst (crc_correctable g m)"
    using bit crc_correctable_ok [OF ok(2) assms(6)]
    by (cases "crc_correctable g m") (auto simp: msg_correctable_def)
  ultimately show ?thesis by simp
qed

theorem short_squitter_out_of_bounds_witness:
  "corrected_data fresh_globals
     (projr (make_message MODE_S_SHORT TWELVEMEG 0 0 (flip_bit_at 55 short_squitter))) =
   Inl Out_of_bounds"
proof -
  obtain m where m: "make_message MODE_S_SHORT TWELVEMEG 0 0 (flip_bit_at 55 short_squitter) = Inr m"
    by (simp add: make_message_def short_squitter_ok)
  have "uint (drop_bit 3 (short_squitter ! 0) AND 31) \<in> {17, 18}"
    by (simp add: short_squitter_ok)
  from short_squitter_out_of_bounds [OF short_squitter_ok(1) this short_squitter_ok(3) _ _
      fresh_globals_ok m] m
  show ?thesis by simp
qed

theorem corrected_data_out_of_bounds_iff_witness:
  "corrected_data fresh_globals damaged_squitter \<noteq> Inl Out_of_bounds"
  using corrected_data_out_of_bounds_iff [OF make_message_ok(1,2) [OF damaged_squitter_make]
      fresh_globals_ok] make_message_ok(3) [OF damaged_squitter_make]
  by simp

lemma msg_corrected_data_valid:
  assumes "wf_message m" and "msg_crc_bad m" and "msg_correctable m"
    and "msg_corrected_data m = Inr d"
  shows "length d = message_size (m_type m)"
    and "m_type m = (if df m = 11 then MODE_S_SHORT else MODE_S_LONG) \<Longrightarrow>
      message_residual d = 0 \<and> drop_bit 3 (d ! 0) = drop_bit 3 (m_data m ! 0)"
proof -
  have d: "d = flip_bit_at (nat (msg_correctable_bit m)) (m_data m)"
    using assms by (auto simp: msg_corrected_data_def split: if_splits)
  have len: "length (m_data m) = message_size (m_type m)"
    using assms(1) by (simp add: wf_message_def)
  then show "length d = message_size (m_type m)" by (simp add: d flip_bit_at_def)
  assume ty: "m_type m = (if df m = 11 then MODE_S_SHORT else MODE_S_LONG)"
  from assms(2,3) have "5 \<le> nat (msg_correctable_bit m) \<and> message_residual d = 0"
  proof (cases rule: correctable_bit_cases)
    case (1 i)
    then show ?thesis
      using residual_after_correction [of "m_data m" 7 i] len ty d by simp
  next
    case (2 i)
    then have "df m \<noteq> 11" by auto
    with 2 show ?thesis
      using residual_after_correction [of "m_data m" 14 i] len ty d by simp
  qed
  moreover have "m_data m \<noteq> []" using len ty by (auto split: if_splits)
  ultimately show "message_residual d = 0 \<and> drop_bit 3 (d ! 0) = drop_bit 3 (m_data m ! 0)"
    using d len drop_flip_first_byte by simp
qed

text \<open>
  C32: a correction that succeeds is a real one: where the frame type fits the DF (short for
  DF11, long for DF17 and DF18), the bytes \<open>corrected_data\<close> returns for a message that is
  bad and correctable have the message's length and DF field and residual 0.
\<close>

theorem corrected_data_is_valid:
  assumes "wf_message m" and "caches_ok m" and "crc_globals_ok g"
    and "m_type m = (if df m = 11 then MODE_S_SHORT else MODE_S_LONG)"
    and "fst (crc_bad m)" and "fst (crc_correctable g m)"
    and "corrected_data g m = Inr (d, g', m')"
  shows "length d = message_size (m_type m) \<and> message_residual d = 0 \<and>
    drop_bit 3 (d ! 0) = drop_bit 3 (m_data m ! 0)"
proof -
  have "msg_crc_bad m" "msg_correctable m"
    using assms(5,6) crc_bad_ok(1) [OF assms(2)] crc_correctable_ok [OF assms(2,3)]
    by (auto, metis prod.collapse)
  moreover have "msg_corrected_data m = Inr d"
    using corrected_data_ok [OF assms(2,3)] assms(7) by (simp add: corrected_result_def)
  ultimately show ?thesis
    using msg_corrected_data_valid [of m d] assms(1,4) by simp
qed

theorem corrected_data_is_valid_witness:
  "\<exists>g' m'. corrected_data fresh_globals damaged_squitter = Inr (sample_squitter, g', m') \<and>
    message_residual sample_squitter = 0"
proof -
  note ok = make_message_ok [OF damaged_squitter_make]
  have "uint (drop_bit 3 (flip_bit_at 40 sample_squitter ! 0) AND 31) = 17"
    by (simp add: flip_bit_at_def sample_squitter_def)
  then have ty: "m_type damaged_squitter =
      (if df damaged_squitter = 11 then MODE_S_SHORT else MODE_S_LONG)"
    by (simp add: df_def ok)
  note b = damaged_squitter_accessors
  obtain g' m' where c: "corrected_data fresh_globals damaged_squitter = Inr (sample_squitter, g', m')"
    using corrected_data_ok [OF ok(2) fresh_globals_ok] b(3)
    by (auto simp: corrected_result_def split: sum.splits)
  have "fst (crc_bad damaged_squitter)" "fst (crc_correctable fresh_globals damaged_squitter)"
    using b crc_bad_ok(1) [OF ok(2)] crc_correctable_ok [OF ok(2) fresh_globals_ok]
    by (auto, metis prod.collapse)
  from corrected_data_is_valid [OF ok(1,2) fresh_globals_ok ty this c] c show ?thesis by simp
qed

end
