(* ===== verification/ModesFilter.thy ===== *)
theory ModesFilter
  imports ModesMessage
begin

section \<open>Message filters (modes_filter.h, modes_filter.cc)\<close>

text \<open>
  The struct \<open>Filter\<close>, the test \<open>operator()\<close> of a message against it and the combination of
  filters. The interface the distributor needs of filters is the locale \<open>filter_algebra\<close>: a
  semilattice whose combination never loses a message.
\<close>

subsection \<open>The interface: filters that can be merged\<close>

locale filter_algebra =
  fixes carrier :: "'f \<Rightarrow> bool"
    and combine :: "'f \<Rightarrow> 'f \<Rightarrow> 'f"
    and neutral :: "'f"
    and acc :: "'f \<Rightarrow> 'm \<Rightarrow> bool"
  assumes carrier_neutral: "carrier neutral"
    and carrier_combine: "carrier f \<Longrightarrow> carrier g \<Longrightarrow> carrier (combine f g)"
    and combine_assoc: "carrier f \<Longrightarrow> carrier g \<Longrightarrow> carrier h \<Longrightarrow>
      combine (combine f g) h = combine f (combine g h)"
    and combine_comm: "carrier f \<Longrightarrow> carrier g \<Longrightarrow> combine f g = combine g f"
    and combine_idem: "carrier f \<Longrightarrow> combine f f = f"
    and combine_neutral: "carrier f \<Longrightarrow> combine neutral f = f"
    and acc_combine: "carrier f \<Longrightarrow> carrier g \<Longrightarrow> acc f m \<Longrightarrow> acc (combine f g) m"
begin

lemma fold_carrier:
  "carrier a \<Longrightarrow> (\<And>f. f \<in> set fs \<Longrightarrow> carrier f) \<Longrightarrow> carrier (foldl combine a fs)"
  by (induction fs arbitrary: a) (auto intro: carrier_combine)

lemma fold_shift:
  "carrier a \<Longrightarrow> (\<And>f. f \<in> set fs \<Longrightarrow> carrier f) \<Longrightarrow>
    foldl combine a fs = combine a (foldl combine neutral fs)"
proof (induction fs arbitrary: a)
  case Nil
  then show ?case by (metis carrier_neutral combine_comm combine_neutral foldl_Nil)
next
  case (Cons f fs)
  have f: "carrier f" and fs: "\<And>f. f \<in> set fs \<Longrightarrow> carrier f" using Cons.prems(2) by simp_all
  have "foldl combine a (f # fs) = combine (combine a f) (foldl combine neutral fs)"
    using Cons.IH [of "combine a f"] Cons.prems(1) f fs carrier_combine by simp
  also have "\<dots> = combine a (combine f (foldl combine neutral fs))"
    using Cons.prems(1) f fs by (intro combine_assoc fold_carrier carrier_neutral)
  also have "combine f (foldl combine neutral fs) = foldl combine neutral (f # fs)"
    using Cons.IH [of f] f fs combine_neutral by simp
  finally show ?case .
qed

lemma fold_accepts:
  assumes "\<And>f. f \<in> set fs \<Longrightarrow> carrier f" and "f \<in> set fs" and "acc f m"
  shows "acc (foldl combine neutral fs) m"
proof -
  obtain xs ys where fs: "fs = xs @ f # ys" using assms(2) by (meson split_list)
  have c: "carrier f" "carrier (foldl combine neutral xs)" "carrier (foldl combine neutral ys)"
    using assms(1) fs by (auto intro!: fold_carrier carrier_neutral)
  have "foldl combine neutral fs =
      combine (combine (foldl combine neutral xs) f) (foldl combine neutral ys)"
    using fold_shift [of "combine (foldl combine neutral xs) f" ys] assms(1) fs c
    by (simp add: carrier_combine)
  also have "\<dots> = combine f (combine (foldl combine neutral xs) (foldl combine neutral ys))"
    using c by (metis carrier_combine combine_assoc combine_comm)
  finally show ?thesis
    using c assms(3) by (simp add: acc_combine carrier_combine)
qed

lemma fold_above:
  assumes "\<And>f. f \<in> set fs \<Longrightarrow> carrier f" and "f \<in> set fs"
  shows "combine f (foldl combine neutral fs) = foldl combine neutral fs"
  using assms
proof (induction fs)
  case (Cons g gs)
  have c: "carrier g" "carrier (foldl combine neutral gs)" "carrier f"
    using Cons.prems by (auto intro!: fold_carrier carrier_neutral)
  have s: "foldl combine neutral (g # gs) = combine g (foldl combine neutral gs)"
    using fold_shift [of g gs] Cons.prems(1) c combine_neutral by simp
  show ?case
  proof (cases "f = g")
    case True
    then show ?thesis using s c by (metis combine_assoc combine_idem)
  next
    case False
    then have "combine f (foldl combine neutral gs) = foldl combine neutral gs"
      using Cons by simp
    then show ?thesis using s c by (metis combine_assoc combine_comm)
  qed
qed simp

lemma fold_least:
  assumes "\<And>f. f \<in> set fs \<Longrightarrow> carrier f" and "carrier h"
    and "\<And>f. f \<in> set fs \<Longrightarrow> combine f h = h"
  shows "combine (foldl combine neutral fs) h = h"
  using assms
proof (induction fs)
  case Nil
  then show ?case using combine_neutral by simp
next
  case (Cons g gs)
  have c: "carrier g" "carrier (foldl combine neutral gs)"
    using Cons.prems by (auto intro!: fold_carrier carrier_neutral)
  have "foldl combine neutral (g # gs) = combine g (foldl combine neutral gs)"
    using fold_shift [of g gs] Cons.prems(1) c combine_neutral by simp
  with Cons c show ?case by (simp add: combine_assoc)
qed

lemma fold_set_cong:
  assumes "\<And>f. f \<in> set fs \<Longrightarrow> carrier f" and "set fs = set gs"
  shows "foldl combine neutral fs = foldl combine neutral gs"
proof -
  let ?F = "foldl combine neutral fs" and ?G = "foldl combine neutral gs"
  have c: "carrier ?F" "carrier ?G"
    using assms by (auto intro!: fold_carrier carrier_neutral)
  have "combine ?F ?G = ?G"
    using assms c fold_above [of gs] by (intro fold_least) auto
  moreover have "combine ?G ?F = ?F"
    using assms c fold_above [of fs] by (intro fold_least) auto
  ultimately show ?thesis using combine_comm c by metis
qed

end

subsection \<open>The code\<close>

text \<open>\<open>std::array<bool, 32>\<close> is a list; \<open>wf_filter\<close> says that its length is 32.\<close>

record filter =
  receive_df :: "bool list"
  receive_modeac :: bool
  receive_bad_crc :: bool
  receive_fec :: bool
  receive_status :: bool
  receive_gps_timestamps :: bool
  receive_position :: bool
  receive_verbatim :: bool

definition wf_filter :: "filter \<Rightarrow> bool" where
  "wf_filter f \<longleftrightarrow> length (receive_df f) = 32"

definition default_filter :: filter where
  "default_filter =
     \<lparr>receive_df = replicate 32 False, receive_modeac = False, receive_bad_crc = False,
      receive_fec = False, receive_status = False, receive_gps_timestamps = False,
      receive_position = False, receive_verbatim = False\<rparr>"

fun combine_df :: "bool list \<Rightarrow> bool list \<Rightarrow> nat \<Rightarrow> nat \<Rightarrow> bool list" where
  "combine_df one two i 0 = one"
| "combine_df one two i (Suc n) = combine_df (one[i := one ! i \<or> two ! i]) two (Suc i) n"

definition inplace_combine :: "filter \<Rightarrow> filter \<Rightarrow> filter" where
  "inplace_combine one two =
     \<lparr>receive_df = combine_df (receive_df one) (receive_df two) 0 (length (receive_df one)),
      receive_modeac = (receive_modeac one \<or> receive_modeac two),
      receive_bad_crc = (receive_bad_crc one \<or> receive_bad_crc two),
      receive_fec = (receive_fec one \<or> receive_fec two),
      receive_status = (receive_status one \<or> receive_status two),
      receive_gps_timestamps = (receive_gps_timestamps one \<or> receive_gps_timestamps two),
      receive_position = (receive_position one \<or> receive_position two),
      receive_verbatim = (receive_verbatim one \<or> receive_verbatim two)\<rparr>"

definition filter_combine :: "filter \<Rightarrow> filter \<Rightarrow> filter" where
  "filter_combine one two = inplace_combine one two"

definition filter_eq :: "filter \<Rightarrow> filter \<Rightarrow> bool" where
  "filter_eq one other \<longleftrightarrow>
     receive_modeac one = receive_modeac other \<and> receive_bad_crc one = receive_bad_crc other \<and>
     receive_fec one = receive_fec other \<and> receive_status one = receive_status other \<and>
     receive_gps_timestamps one = receive_gps_timestamps other \<and>
     receive_position one = receive_position other \<and>
     receive_verbatim one = receive_verbatim other \<and> receive_df one = receive_df other"

text \<open>A filter is below another one if it asks for nothing that the other one does not ask for.\<close>

instantiation filter_ext :: (order) order
begin

definition less_eq_filter_ext :: "'a filter_scheme \<Rightarrow> 'a filter_scheme \<Rightarrow> bool" where
  "f \<le> g \<longleftrightarrow>
     list_all2 (\<le>) (receive_df f) (receive_df g) \<and> receive_modeac f \<le> receive_modeac g \<and>
     receive_bad_crc f \<le> receive_bad_crc g \<and> receive_fec f \<le> receive_fec g \<and>
     receive_status f \<le> receive_status g \<and>
     receive_gps_timestamps f \<le> receive_gps_timestamps g \<and>
     receive_position f \<le> receive_position g \<and> receive_verbatim f \<le> receive_verbatim g \<and>
     filter.more f \<le> filter.more g"

definition less_filter_ext :: "'a filter_scheme \<Rightarrow> 'a filter_scheme \<Rightarrow> bool" where
  "f < g \<longleftrightarrow> f \<le> g \<and> \<not> g \<le> f" for f g :: "'a filter_scheme"

instance
proof
  fix f g h :: "'a filter_scheme"
  show "f < g \<longleftrightarrow> f \<le> g \<and> \<not> g \<le> f" by (rule less_filter_ext_def)
  show "f \<le> f" by (simp add: less_eq_filter_ext_def list.rel_refl)
  show "f \<le> h" if "f \<le> g" "g \<le> h"
    using that list_all2_trans [of "(\<le>)" "(\<le>)" "(\<le>)" "receive_df f" "receive_df g" "receive_df h"]
    by (simp add: less_eq_filter_ext_def) (blast intro: order_trans)
  show "f = g" if "f \<le> g" "g \<le> f"
    using that list_all2_antisym [of "(\<le>)" "(\<le>)" "receive_df f" "receive_df g"]
    by (intro filter.equality) (auto simp: less_eq_filter_ext_def intro: antisym)
qed

end

text \<open>\<open>operator()\<close>, with the caches of the message and the syndrome tables it may fill.\<close>

definition filter_call ::
  "crc_globals \<Rightarrow> filter \<Rightarrow> message \<Rightarrow> bool \<times> crc_globals \<times> message" where
  "filter_call g f m =
     (case m_type m of
        MODE_AC \<Rightarrow> (receive_modeac f, g, m)
      | STATUS \<Rightarrow> (receive_status f, g, m)
      | POSITION \<Rightarrow> (receive_position f, g, m)
      | INVALID \<Rightarrow> (False, g, m)
      | _ \<Rightarrow>
          if \<not> receive_df f ! nat (df m) then (False, g, m)
          else if \<not> receive_bad_crc f \<and> \<not> receive_verbatim f then
            (let (bad, m) = crc_bad m in
             if \<not> bad then (True, g, m)
             else if \<not> receive_fec f then (False, g, m)
             else let (correctable, g, m) = crc_correctable g m in (correctable, g, m))
          else (True, g, m))"

subsection \<open>The uncached test\<close>

definition accepts :: "filter \<Rightarrow> message \<Rightarrow> bool" where
  "accepts f m =
     (case m_type m of
        MODE_AC \<Rightarrow> receive_modeac f
      | STATUS \<Rightarrow> receive_status f
      | POSITION \<Rightarrow> receive_position f
      | INVALID \<Rightarrow> False
      | _ \<Rightarrow> receive_df f ! nat (df m) \<and>
          (receive_bad_crc f \<or> receive_verbatim f \<or> \<not> msg_crc_bad m \<or>
           receive_fec f \<and> msg_correctable m))"

lemma df_range: "m_type m = MODE_S_SHORT \<or> m_type m = MODE_S_LONG \<Longrightarrow> 0 \<le> df m \<and> df m < 32"
proof -
  have "uint (w AND 31) < 32" for w :: byte
  proof -
    have "w AND 31 = take_bit 5 w" by (simp add: take_bit_eq_mask mask_eq_exp_minus_1)
    then show ?thesis
      using take_bit_int_less_exp [of 5 "uint w"] by (simp add: unsigned_take_bit_eq)
  qed
  then show "m_type m = MODE_S_SHORT \<or> m_type m = MODE_S_LONG \<Longrightarrow> ?thesis"
    by (auto simp: df_def)
qed

lemma filter_call_ok:
  assumes "caches_ok m" and "crc_globals_ok g" and "filter_call g f m = (b, g', m')"
  shows "b = accepts f m \<and> crc_globals_ok g' \<and> caches_ok m' \<and> same_message m m'"
proof -
  obtain m1 where m1: "crc_bad m = (msg_crc_bad m, m1)" and ok: "caches_ok m1" "same_message m m1"
    using crc_bad_ok [OF assms(1)] by (cases "crc_bad m") auto
  obtain c g2 m2 where m2: "crc_correctable g m1 = (c, g2, m2)"
    by (cases "crc_correctable g m1") auto
  note ok2 = crc_correctable_ok [OF ok(1) assms(2) m2]
  have "c = msg_correctable m" using ok2 same_message_uncached(4) [OF ok(2)] by simp
  moreover have "same_message m m2" using ok2 same_message_trans ok(2) by blast
  ultimately show ?thesis
    using assms ok ok2
    by (auto simp: filter_call_def accepts_def m1 m2 split: message_type.splits if_splits)
qed

lemma combine_df_nth:
  "j < length one \<Longrightarrow> i + n \<le> length one \<Longrightarrow>
    combine_df one two i n ! j = (one ! j \<or> i \<le> j \<and> j < i + n \<and> two ! j)"
proof (induction n arbitrary: one i)
  case (Suc n)
  then show ?case by (auto simp: nth_list_update)
qed auto

lemma length_combine_df [simp]: "length (combine_df one two i n) = length one"
  by (induction n arbitrary: one i) simp_all

lemma combine_receive_df:
  "wf_filter f \<Longrightarrow> j < 32 \<Longrightarrow>
    receive_df (filter_combine f g) ! j = (receive_df f ! j \<or> receive_df g ! j)"
  by (simp add: filter_combine_def inplace_combine_def wf_filter_def combine_df_nth)

lemma combine_flags [simp]:
  "receive_modeac (filter_combine f g) = (receive_modeac f \<or> receive_modeac g)"
  "receive_bad_crc (filter_combine f g) = (receive_bad_crc f \<or> receive_bad_crc g)"
  "receive_fec (filter_combine f g) = (receive_fec f \<or> receive_fec g)"
  "receive_status (filter_combine f g) = (receive_status f \<or> receive_status g)"
  "receive_gps_timestamps (filter_combine f g) =
     (receive_gps_timestamps f \<or> receive_gps_timestamps g)"
  "receive_position (filter_combine f g) = (receive_position f \<or> receive_position g)"
  "receive_verbatim (filter_combine f g) = (receive_verbatim f \<or> receive_verbatim g)"
  by (simp_all add: filter_combine_def inplace_combine_def)

lemma df_index: "m_type m = MODE_S_SHORT \<or> m_type m = MODE_S_LONG \<Longrightarrow> nat (df m) < 32"
  using df_range [of m] by linarith

lemma accepts_combine:
  assumes "wf_filter f" and "accepts f m"
  shows "accepts (filter_combine f g) m"
  using assms df_index [of m] combine_receive_df [OF assms(1), of "nat (df m)" g]
  by (cases "m_type m") (auto simp: accepts_def)

interpretation mf: filter_algebra wf_filter filter_combine default_filter accepts
proof unfold_locales
  fix f g h :: filter
  assume wf: "wf_filter f" "wf_filter g" "wf_filter h"
  note defs = wf_filter_def filter_combine_def inplace_combine_def combine_df_nth
  show "filter_combine (filter_combine f g) h = filter_combine f (filter_combine g h)"
    using wf by (auto simp: defs intro!: nth_equalityI)
next
  fix f g :: filter and m
  assume "wf_filter f" and "accepts f m"
  then show "accepts (filter_combine f g) m" by (rule accepts_combine)
qed (auto simp: wf_filter_def filter_combine_def inplace_combine_def combine_df_nth
    default_filter_def intro!: filter.equality nth_equalityI)

lemma filter_eq_iff: "filter_eq f g \<longleftrightarrow> f = g"
proof
  assume "filter_eq f g"
  then show "f = g" by (intro filter.equality) (simp_all add: filter_eq_def)
qed (simp add: filter_eq_def)

text \<open>Combining is the join of the order, and the test is monotone in it.\<close>

lemma combine_absorb_iff:
  assumes "wf_filter f" and "wf_filter g"
  shows "filter_combine f g = g \<longleftrightarrow> f \<le> g"
proof -
  have df: "receive_df (filter_combine f g) = receive_df g \<longleftrightarrow> list_all2 (\<le>) (receive_df f) (receive_df g)"
  proof -
    have len: "length (receive_df (filter_combine f g)) = 32" "length (receive_df f) = 32" "length (receive_df g) = 32"
      using assms by (simp_all add: wf_filter_def filter_combine_def inplace_combine_def)
    have "(receive_df f ! i \<or> receive_df g ! i) = receive_df g ! i \<longleftrightarrow> receive_df f ! i \<le> receive_df g ! i" for i
      by auto
    then show ?thesis
      using combine_receive_df [OF assms(1), of _ g] unfolding list_eq_iff_nth_eq list_all2_conv_all_nth len by simp
  qed
  have "filter_combine f g = g \<longleftrightarrow> filter_eq (filter_combine f g) g" by (simp only: filter_eq_iff)
  also have "\<dots> \<longleftrightarrow> f \<le> g"
    unfolding filter_eq_def less_eq_filter_ext_def combine_flags df le_bool_def by blast
  finally show ?thesis .
qed

lemma accepts_mono:
  assumes "f \<le> g" and "wf_filter f" and "accepts f m"
  shows "accepts g m"
proof -
  have "receive_df f ! i \<longrightarrow> receive_df g ! i" if "i < 32" for i
    using assms(1,2) that by (simp add: less_eq_filter_ext_def wf_filter_def list_all2_conv_all_nth)
  then show ?thesis
    using assms df_index [of m]
    by (cases "m_type m") (auto simp: accepts_def less_eq_filter_ext_def)
qed

subsection \<open>Properties\<close>

text \<open>
  C26: the filter test: \<open>Filter::operator()\<close> on a message with consistent caches decides by
  the frame type alone for Mode A/C, status and position messages, and for Mode S messages by
  the DF, and then, unless bad checksums or verbatim messages are wanted, by the checksum:
  a bad message passes only if FEC is wanted and it is correctable. Testing does not change
  the message's contents.
\<close>

theorem filter_call_decides:
  assumes "caches_ok m" and "crc_globals_ok g" and "filter_call g f m = (b, g', m')"
  shows "same_message m m' \<and> caches_ok m' \<and> crc_globals_ok g' \<and>
    b = (case m_type m of
           INVALID \<Rightarrow> False | MODE_AC \<Rightarrow> receive_modeac f | STATUS \<Rightarrow> receive_status f
         | POSITION \<Rightarrow> receive_position f
         | _ \<Rightarrow> receive_df f ! nat (df m) \<and>
             (receive_bad_crc f \<or> receive_verbatim f \<or> \<not> msg_crc_bad m \<or>
              receive_fec f \<and> msg_correctable m))"
  using filter_call_ok [OF assms] by (simp add: accepts_def)

theorem filter_call_decides_witness:
  "fst (filter_call fresh_globals
     \<lparr>receive_df = replicate 32 True, receive_modeac = False, receive_bad_crc = False,
      receive_fec = True, receive_status = False, receive_gps_timestamps = False,
      receive_position = False, receive_verbatim = False\<rparr> damaged_squitter)"
proof -
  let ?f = "\<lparr>receive_df = replicate 32 True, receive_modeac = False, receive_bad_crc = False,
      receive_fec = True, receive_status = False, receive_gps_timestamps = False,
      receive_position = False, receive_verbatim = False\<rparr>"
  note ok = make_message_ok [OF damaged_squitter_make]
  obtain b g' m' where c: "filter_call fresh_globals ?f damaged_squitter = (b, g', m')"
    by (cases "filter_call fresh_globals ?f damaged_squitter") auto
  have "nat (df damaged_squitter) < 32" by (rule df_index) (simp add: ok)
  then have "receive_df ?f ! nat (df damaged_squitter)" by simp
  with filter_call_decides [OF ok(2) fresh_globals_ok c] show ?thesis
    by (simp add: c ok damaged_squitter_accessors)
qed

text \<open>
  C16: combining filters never loses a message: whatever one of two filters lets through,
  their combination lets through.
\<close>

theorem combine_loses_nothing:
  assumes "wf_filter f" and "wf_filter g" and "accepts f m \<or> accepts g m"
  shows "accepts (filter_combine f g) m"
  using assms mf.acc_combine mf.combine_comm by metis

theorem combine_loses_nothing_witness:
  "accepts (filter_combine default_filter (default_filter\<lparr>receive_modeac := True\<rparr>))
     (projr (make_message MODE_AC TWELVEMEG 0 0 [0x12, 0x34]))"
  by (rule combine_loses_nothing)
     (simp_all add: wf_filter_def default_filter_def accepts_def make_message_def)

end
