(* ===== verification/StdMap.thy ===== *)
theory StdMap
  imports Prelude
begin

section \<open>Ordered maps (std::map)\<close>

text \<open>
  \<open>std::map\<close> as the list of its entries in key order: \<open>map_put\<close> is \<open>m[k] = v\<close>, \<open>map_of\<close> is
  \<open>find\<close>, \<open>map_erase\<close> is \<open>erase\<close>, \<open>first_key\<close> is \<open>begin\<close> and \<open>next_key\<close> the increment of an
  iterator that stands on a key.
\<close>

fun map_put :: "'k::linorder \<Rightarrow> 'v \<Rightarrow> ('k \<times> 'v) list \<Rightarrow> ('k \<times> 'v) list" where
  "map_put k v [] = [(k, v)]"
| "map_put k v ((k', v') # xs) =
     (if k < k' then (k, v) # (k', v') # xs
      else if k = k' then (k, v) # xs
      else (k', v') # map_put k v xs)"

definition map_erase :: "'k \<Rightarrow> ('k \<times> 'v) list \<Rightarrow> ('k \<times> 'v) list" where
  "map_erase k xs = filter (\<lambda>e. fst e \<noteq> k) xs"

definition first_key :: "('k \<times> 'v) list \<Rightarrow> 'k option" where
  "first_key xs = (case xs of [] \<Rightarrow> None | e # _ \<Rightarrow> Some (fst e))"

definition next_key :: "'k::linorder \<Rightarrow> ('k \<times> 'v) list \<Rightarrow> 'k option" where
  "next_key k xs = first_key (filter (\<lambda>e. k < fst e) xs)"

abbreviation map_ordered :: "('k::linorder \<times> 'v) list \<Rightarrow> bool" where
  "map_ordered xs \<equiv> sorted_wrt (<) (map fst xs)"

lemma map_of_put [simp]: "map_of (map_put k v xs) = (map_of xs)(k \<mapsto> v)"
  by (induction k v xs rule: map_put.induct) (auto simp: fun_eq_iff)

lemma keys_put: "set (map fst (map_put k v xs)) = insert k (set (map fst xs))"
  by (induction k v xs rule: map_put.induct) auto

lemma ordered_put: "map_ordered xs \<Longrightarrow> map_ordered (map_put k v xs)"
proof (induction k v xs rule: map_put.induct)
  case (2 k v k' v' xs)
  then show ?case using keys_put [of k v xs] by (auto dest: less_trans)
qed simp

lemma set_put: "set (map_put k v xs) \<subseteq> insert (k, v) (set xs)"
  by (induction k v xs rule: map_put.induct) auto

lemma ordered_distinct: "map_ordered xs \<Longrightarrow> distinct (map fst xs)"
  by (induction xs) auto

lemma ordered_filter: "map_ordered xs \<Longrightarrow> map_ordered (filter P xs)"
  by (induction xs) auto

lemma ordered_erase: "map_ordered xs \<Longrightarrow> map_ordered (map_erase k xs)"
  by (simp add: map_erase_def ordered_filter)

lemma ordered_middle:
  assumes "map_ordered (pre @ (k, c) # suf)"
  shows "e \<in> set pre \<Longrightarrow> fst e < k" and "e \<in> set suf \<Longrightarrow> k < fst e"
  using assms by (auto simp: sorted_wrt_append)

lemma next_key_split:
  assumes "map_ordered (pre @ (k, c) # suf)"
  shows "next_key k (pre @ (k, c) # suf) = first_key suf"
proof -
  have "filter (\<lambda>e. k < fst e) pre = []"
    using ordered_middle(1) [OF assms] by (simp add: filter_empty_conv) (metis less_asym)
  moreover have "filter (\<lambda>e. k < fst e) suf = suf"
    using ordered_middle(2) [OF assms] by (simp add: filter_id_conv)
  ultimately show ?thesis by (simp add: next_key_def)
qed

lemma erase_split:
  assumes "map_ordered (pre @ (k, c) # suf)"
  shows "map_erase k (pre @ (k, c) # suf) = pre @ suf"
proof -
  have "filter (\<lambda>e. fst e \<noteq> k) pre = pre"
    using ordered_middle(1) [OF assms] by (simp add: filter_id_conv) blast
  moreover have "filter (\<lambda>e. fst e \<noteq> k) suf = suf"
    using ordered_middle(2) [OF assms] by (simp add: filter_id_conv) blast
  ultimately show ?thesis by (simp add: map_erase_def)
qed

lemma map_of_split: "map_ordered (pre @ (k, c) # suf) \<Longrightarrow> map_of (pre @ (k, c) # suf) k = Some c"
  using ordered_distinct [of "pre @ (k, c) # suf"]
  by (intro map_of_is_SomeI) auto

lemma map_of_splitE:
  assumes "map_of xs k = Some c"
  obtains pre suf where "xs = pre @ (k, c) # suf"
  using assms by (meson map_of_SomeD split_list)

end
