(* ===== verification/Distributor.thy ===== *)
theory Distributor
  imports ModesFilter StdMap
begin

section \<open>The filter distributor (modes_filter.h, modes_filter.cc)\<close>

text \<open>
  \<open>FilterDistributor\<close>: the table of clients, the filter that is reported upstream after each
  change and the broadcast loop, which calls the clients' notifiers and reaps the clients
  marked as deleted. A notifier is a value of type \<open>'n\<close>; what calling it does is an argument
  of \<open>broadcast\<close> that may change the distributor itself (the loop is written to survive
  clients that come and go while it runs) and everything else, of type \<open>'s\<close>.
\<close>

subsection \<open>State and operations\<close>

type_synonym handle = u32

record 'n client =
  notifier :: 'n
  cfilter :: filter
  deleted :: bool

record 'n distributor =
  next_handle :: handle
  has_filter_notifier :: bool
  clients :: "(handle \<times> 'n client) list"

definition new_distributor :: "'n distributor" where
  "new_distributor = \<lparr>next_handle = 0, has_filter_notifier = False, clients = []\<rparr>"

definition set_filter_notifier :: "'n distributor \<Rightarrow> 'n distributor" where
  "set_filter_notifier d = d\<lparr>has_filter_notifier := True\<rparr>"

text \<open>The second component is the argument of the call of \<open>filter_notifier\<close>, if it is made.\<close>

definition update_upstream_filter :: "'n distributor \<Rightarrow> 'n distributor \<times> filter option" where
  "update_upstream_filter d =
     (if \<not> has_filter_notifier d then (d, None)
      else (d, Some (foldl (\<lambda>f i. if deleted (snd i) then f else inplace_combine f (cfilter (snd i)))
                       default_filter (clients d))))"

definition add_client ::
  "'n \<Rightarrow> filter \<Rightarrow> 'n distributor \<Rightarrow> handle \<times> 'n distributor \<times> filter option" where
  "add_client message_notifier initial_filter d =
     (let h = next_handle d;
          d = d\<lparr>next_handle := h + 1\<rparr>;
          d = d\<lparr>clients := map_put h
                 \<lparr>notifier = message_notifier, cfilter = initial_filter, deleted = False\<rparr>
                 (clients d)\<rparr>
      in (h, update_upstream_filter d))"

definition update_client_filter ::
  "handle \<Rightarrow> filter \<Rightarrow> 'n distributor \<Rightarrow> 'n distributor \<times> filter option" where
  "update_client_filter h new_filter d =
     (case map_of (clients d) h of
        None \<Rightarrow> (d, None)
      | Some c \<Rightarrow>
          if deleted c then (d, None)
          else if filter_eq (cfilter c) new_filter then (d, None)
          else update_upstream_filter
            (d\<lparr>clients := map_put h (c\<lparr>cfilter := new_filter\<rparr>) (clients d)\<rparr>))"

definition remove_client :: "handle \<Rightarrow> 'n distributor \<Rightarrow> 'n distributor \<times> filter option" where
  "remove_client h d =
     (case map_of (clients d) h of
        None \<Rightarrow> (d, None)
      | Some c \<Rightarrow>
          if deleted c then (d, None)
          else update_upstream_filter
            (d\<lparr>clients := map_put h (c\<lparr>deleted := True\<rparr>) (clients d)\<rparr>))"

text \<open>
  The loop of \<open>broadcast\<close> from the iterator \<open>i\<close>, a key or the end. \<open>None\<close> is a loop that does
  not end (a notifier that keeps adding clients) or an iterator whose entry has been erased
  under the loop.
\<close>

type_synonym ('n, 's) callback =
  "'n \<Rightarrow> message \<Rightarrow> 'n distributor \<times> 's \<Rightarrow> 'n distributor \<times> 's"

partial_function (option) broadcast_from ::
  "('n, 's) callback \<Rightarrow> message \<Rightarrow> handle option \<Rightarrow> 'n distributor \<times> 's \<Rightarrow>
    ('n distributor \<times> 's) option" where
  "broadcast_from cb m i ds =
     (case i of
        None \<Rightarrow> Some ds
      | Some h \<Rightarrow>
          (case map_of (clients (fst ds)) h of
             None \<Rightarrow> None
           | Some c \<Rightarrow>
               (let ds = (if \<not> deleted c \<and> accepts (cfilter c) m then cb (notifier c) m ds else ds)
                in case map_of (clients (fst ds)) h of
                     None \<Rightarrow> None
                   | Some c \<Rightarrow>
                       broadcast_from cb m (next_key h (clients (fst ds)))
                         (if deleted c
                          then ((fst ds)\<lparr>clients := map_erase h (clients (fst ds))\<rparr>, snd ds)
                          else ds))))"

definition broadcast ::
  "('n, 's) callback \<Rightarrow> message \<Rightarrow> 'n distributor \<times> 's \<Rightarrow> ('n distributor \<times> 's) option" where
  "broadcast cb m ds = broadcast_from cb m (first_key (clients (fst ds))) ds"

subsection \<open>What the distributor keeps\<close>

definition distributor_ok :: "'n distributor \<Rightarrow> bool" where
  "distributor_ok d \<longleftrightarrow>
     map_ordered (clients d) \<and> (\<forall>e \<in> set (clients d). wf_filter (cfilter (snd e)))"

definition live_filters :: "'n distributor \<Rightarrow> filter list" where
  "live_filters d = map (\<lambda>e. cfilter (snd e)) (filter (\<lambda>e. \<not> deleted (snd e)) (clients d))"

definition upstream_filter :: "'n distributor \<Rightarrow> filter" where
  "upstream_filter d = foldl filter_combine default_filter (live_filters d)"

lemma update_upstream_filter_eq:
  "update_upstream_filter d =
     (d, if has_filter_notifier d then Some (upstream_filter d) else None)"
proof -
  have "foldl (\<lambda>f i. if deleted (snd i) then f else inplace_combine f (cfilter (snd i))) a xs =
      foldl filter_combine a (map (\<lambda>e. cfilter (snd e)) (filter (\<lambda>e. \<not> deleted (snd e)) xs))"
    for a and xs :: "(handle \<times> 'a client) list"
    by (induction xs arbitrary: a) (simp_all add: filter_combine_def)
  then show ?thesis
    by (simp add: update_upstream_filter_def upstream_filter_def live_filters_def)
qed

lemma wf_live_filters: "distributor_ok d \<Longrightarrow> f \<in> set (live_filters d) \<Longrightarrow> wf_filter f"
  by (auto simp: distributor_ok_def live_filters_def)

lemma wf_upstream_filter: "distributor_ok d \<Longrightarrow> wf_filter (upstream_filter d)"
  unfolding upstream_filter_def
  by (intro mf.fold_carrier mf.carrier_neutral) (auto dest: wf_live_filters)

lemma upstream_filter_accepts:
  "distributor_ok d \<Longrightarrow> f \<in> set (live_filters d) \<Longrightarrow> accepts f m \<Longrightarrow> accepts (upstream_filter d) m"
  unfolding upstream_filter_def
  by (rule mf.fold_accepts) (auto dest: wf_live_filters)

text \<open>No smaller filter would do.\<close>

lemma upstream_filter_least:
  assumes "distributor_ok d" and "wf_filter h"
  shows "upstream_filter d \<le> h \<longleftrightarrow> (\<forall>f \<in> set (live_filters d). f \<le> h)"
proof
  have wf: "wf_filter f" if "f \<in> set (live_filters d)" for f using assms(1) that by (rule wf_live_filters)
  note up = wf_upstream_filter [OF assms(1)]
  show "\<forall>f \<in> set (live_filters d). f \<le> h" if "upstream_filter d \<le> h"
  proof
    fix f assume f: "f \<in> set (live_filters d)"
    have "filter_combine f (upstream_filter d) = upstream_filter d"
      unfolding upstream_filter_def using wf f by (rule mf.fold_above)
    then have "f \<le> upstream_filter d" by (simp add: combine_absorb_iff wf [OF f] up)
    then show "f \<le> h" using that by (rule order_trans)
  qed
  show "upstream_filter d \<le> h" if "\<forall>f \<in> set (live_filters d). f \<le> h"
    using that mf.fold_least [of "live_filters d" h] wf up assms(2)
    by (simp add: upstream_filter_def flip: combine_absorb_iff)
qed

text \<open>
  What every operation promises: the table stays in order and well-formed, and the filter
  reported is the combination of the live clients' filters; where nothing is reported that
  combination has not changed.
\<close>

definition reports :: "'n distributor \<Rightarrow> 'n distributor \<times> filter option \<Rightarrow> bool" where
  "reports d r \<longleftrightarrow>
     distributor_ok (fst r) \<and> has_filter_notifier (fst r) = has_filter_notifier d \<and>
     (case snd r of
        Some u \<Rightarrow> u = upstream_filter (fst r)
      | None \<Rightarrow> has_filter_notifier d \<longrightarrow> upstream_filter (fst r) = upstream_filter d)"

lemma distributor_ok_put:
  assumes "distributor_ok d" and "wf_filter (cfilter c)"
  shows "distributor_ok (d\<lparr>clients := map_put h c (clients d)\<rparr>)"
  using assms set_put [of h c "clients d"]
  by (auto simp: distributor_ok_def ordered_put)

lemma reports_update:
  "distributor_ok d' \<Longrightarrow> has_filter_notifier d' = has_filter_notifier d \<Longrightarrow>
    reports d (update_upstream_filter d')"
  by (simp add: reports_def update_upstream_filter_eq)

lemma reports_same: "distributor_ok d \<Longrightarrow> reports d (d, None)"
  by (simp add: reports_def)

lemma add_client_reports:
  assumes "distributor_ok d" and "wf_filter f"
  shows "reports d (snd (add_client n f d))"
proof -
  have "distributor_ok (d\<lparr>next_handle := k\<rparr>)" for k
    using assms(1) by (simp add: distributor_ok_def)
  from distributor_ok_put [OF this] assms(2) show ?thesis
    by (auto simp: add_client_def Let_def intro!: reports_update)
qed

lemma wf_client: "distributor_ok d \<Longrightarrow> map_of (clients d) h = Some c \<Longrightarrow> wf_filter (cfilter c)"
  by (auto simp: distributor_ok_def dest!: map_of_SomeD)

lemma update_client_filter_reports:
  assumes "distributor_ok d" and "wf_filter f"
  shows "reports d (update_client_filter h f d)"
  using assms
  by (auto simp: update_client_filter_def reports_same split: option.split
      intro!: reports_update distributor_ok_put)

lemma remove_client_reports:
  assumes "distributor_ok d"
  shows "reports d (remove_client h d)"
  using assms wf_client [OF assms]
  by (auto simp: remove_client_def reports_same split: option.split
      intro!: reports_update distributor_ok_put)

subsection \<open>Broadcasting: the contracts of notifiers\<close>

text \<open>
  A steady callback neither inserts nor erases entries (it may mark clients as deleted or
  change their filters, as the clients' own close and settings handlers do): the broadcast
  ends. A quiet callback leaves the distributor alone altogether, which is what the notifiers
  of the program do: the broadcast then delivers the message to exactly the live clients
  whose filter accepts it, in handle order.
\<close>

locale steady_notifiers =
  fixes cb :: "('n, 's) callback"
  assumes same_handles: "map fst (clients (fst (cb n m ds))) = map fst (clients (fst ds))"
begin

lemma broadcast_from_terminates:
  assumes "map_ordered (clients (fst ds))" and "map fst (clients (fst ds)) = pre @ hs"
    and "i = (case hs of [] \<Rightarrow> None | h # _ \<Rightarrow> Some h)"
  shows "\<exists>r. broadcast_from cb m i ds = Some r"
  using assms
proof (induction hs arbitrary: i ds pre)
  case Nil
  then show ?case by (simp add: broadcast_from.simps)
next
  case (Cons h hs)
  have i: "i = Some h" using Cons.prems(3) by simp
  have h: "h \<in> fst ` set (clients (fst ds))"
    using Cons.prems(2) by (metis in_set_conv_decomp list.set_map)
  then obtain c where c: "map_of (clients (fst ds)) h = Some c"
    by (metis map_of_eq_None_iff not_None_eq)
  define ds1 where "ds1 = (if \<not> deleted c \<and> accepts (cfilter c) m then cb (notifier c) m ds else ds)"
  have k1: "map fst (clients (fst ds1)) = pre @ h # hs"
    using Cons.prems(2) by (simp add: ds1_def same_handles)
  have o1: "map_ordered (clients (fst ds1))" using Cons.prems(1,2) k1 by simp
  have "h \<in> fst ` set (clients (fst ds1))" using k1 by (metis in_set_conv_decomp list.set_map)
  then obtain c1 where c1: "map_of (clients (fst ds1)) h = Some c1"
    by (metis map_of_eq_None_iff not_None_eq)
  obtain p s where ps: "clients (fst ds1) = p @ (h, c1) # s"
    using c1 by (rule map_of_splitE)
  have "map fst p @ h # map fst s = pre @ h # hs" using k1 ps by simp
  moreover have "h \<notin> set (map fst p)" "h \<notin> set (map fst s)"
    using ordered_distinct [OF o1] ps by auto
  ultimately have pre: "map fst p = pre" and s: "map fst s = hs"
    using append_Cons_eq_iff [of h "map fst p" "map fst s" pre hs] by simp_all
  have n: "next_key h (clients (fst ds1)) = (case hs of [] \<Rightarrow> None | h # _ \<Rightarrow> Some h)"
    using o1 s by (simp add: ps next_key_split first_key_def split: list.splits) auto
  let ?ds2 = "if deleted c1 then ((fst ds1)\<lparr>clients := map_erase h (clients (fst ds1))\<rparr>, snd ds1) else ds1"
  have "\<exists>r. broadcast_from cb m (next_key h (clients (fst ds1))) ?ds2 = Some r"
  proof (rule Cons.IH [OF _ _ n])
    show "map_ordered (clients (fst ?ds2))" using o1 by (simp add: ordered_erase)
    show "map fst (clients (fst ?ds2)) = (if deleted c1 then pre else pre @ [h]) @ hs"
      using k1 o1 ps pre s by (auto simp: erase_split)
  qed
  then show ?case
    by (subst broadcast_from.simps) (simp add: i c c1 Let_def flip: ds1_def)
qed

lemma broadcast_terminates:
  assumes "map_ordered (clients (fst ds))"
  shows "\<exists>r. broadcast cb m ds = Some r"
  unfolding broadcast_def
  by (rule broadcast_from_terminates
        [where pre = "[]" and hs = "map fst (clients (fst ds))", OF assms])
     (auto simp: first_key_def split: list.split)

end

locale quiet_notifiers =
  fixes cb :: "('n, 's) callback"
    and deliver :: "'n \<Rightarrow> message \<Rightarrow> 's \<Rightarrow> 's"
  assumes quiet: "cb n m ds = (fst ds, deliver n m (snd ds))"
begin

sublocale steady_notifiers cb
  by unfold_locales (simp add: quiet)

lemma broadcast_from_delivers:
  assumes "map_ordered (pre @ suf)"
  shows "broadcast_from cb m (first_key suf) (d\<lparr>clients := pre @ suf\<rparr>, s) =
    Some (d\<lparr>clients := pre @ filter (\<lambda>e. \<not> deleted (snd e)) suf\<rparr>,
      foldl (\<lambda>s e. deliver (notifier (snd e)) m s) s
        (filter (\<lambda>e. \<not> deleted (snd e) \<and> accepts (cfilter (snd e)) m) suf))"
  using assms
proof (induction suf arbitrary: pre s)
  case Nil
  then show ?case by (simp add: broadcast_from.simps first_key_def)
next
  case (Cons e suf)
  obtain h c where e: "e = (h, c)" by (cases e)
  let ?cs = "pre @ (h, c) # suf"
  let ?acc = "\<not> deleted c \<and> accepts (cfilter c) m"
  define s1 where "s1 = (if ?acc then deliver (notifier c) m s else s)"
  let ?pre1 = "if deleted c then pre else pre @ [(h, c)]"
  have ord: "map_ordered ?cs" using Cons.prems e by simp
  have find: "map_of ?cs h = Some c" using ord by (rule map_of_split)
  have ord1: "map_ordered (?pre1 @ suf)"
    using ordered_erase [OF ord, of h] ord erase_split [OF ord] by auto
  have "broadcast_from cb m (first_key (e # suf)) (d\<lparr>clients := ?cs\<rparr>, s) =
      broadcast_from cb m (first_key suf) (d\<lparr>clients := ?pre1 @ suf\<rparr>, s1)"
    using find next_key_split [OF ord] erase_split [OF ord]
    by (subst broadcast_from.simps) (auto simp: first_key_def e s1_def quiet)
  then show ?case
    using Cons.IH [OF ord1, of s1] by (auto simp: e s1_def)
qed

lemma broadcast_delivers:
  assumes "map_ordered (clients d)"
  shows "broadcast cb m (d, s) =
    Some (d\<lparr>clients := filter (\<lambda>e. \<not> deleted (snd e)) (clients d)\<rparr>,
      foldl (\<lambda>s e. deliver (notifier (snd e)) m s) s
        (filter (\<lambda>e. \<not> deleted (snd e) \<and> accepts (cfilter (snd e)) m) (clients d)))"
  using broadcast_from_delivers [of "[]" "clients d" m d s] assms by (simp add: broadcast_def)

end

text \<open>Recording which notifiers are called, and with what, is a quiet callback.\<close>

definition record_call :: "('n, ('n \<times> message) list) callback" where
  "record_call n m ds = (fst ds, snd ds @ [(n, m)])"

interpretation rc: quiet_notifiers record_call "\<lambda>n m log. log @ [(n, m)]"
  by unfold_locales (simp add: record_call_def)

subsection \<open>Runs\<close>

text \<open>
  A run of the distributor together with the rest of the program \<open>'s\<close> and the filter the
  input was last told: clients are added, changed and removed, and messages broadcast, in
  any order.
\<close>

type_synonym ('n, 's) dist_state = "'n distributor \<times> 's \<times> filter"

definition told :: "filter \<Rightarrow> filter option \<Rightarrow> filter" where
  "told l up = (case up of None \<Rightarrow> l | Some u \<Rightarrow> u)"

inductive dist_step ::
  "('n, 's) callback \<Rightarrow> ('n, 's) dist_state \<Rightarrow> ('n, 's) dist_state \<Rightarrow> bool" for cb where
  add: "wf_filter f \<Longrightarrow> add_client n f d = (h, d', up) \<Longrightarrow> dist_step cb (d, s, l) (d', s', told l up)"
| update: "wf_filter f \<Longrightarrow> update_client_filter h f d = (d', up) \<Longrightarrow>
    dist_step cb (d, s, l) (d', s', told l up)"
| remove: "remove_client h d = (d', up) \<Longrightarrow> dist_step cb (d, s, l) (d', s', told l up)"
| message: "broadcast cb m (d, s) = Some (d', s') \<Longrightarrow> dist_step cb (d, s, l) (d', s', l)"

inductive dist_reachable :: "('n, 's) callback \<Rightarrow> ('n, 's) dist_state \<Rightarrow> bool" for cb where
  start: "dist_reachable cb (set_filter_notifier new_distributor, s, default_filter)"
| step: "dist_reachable cb x \<Longrightarrow> dist_step cb x y \<Longrightarrow> dist_reachable cb y"

inductive_cases dist_stepE: "dist_step cb (d, s, l) y"

definition in_sync :: "('n, 's) dist_state \<Rightarrow> bool" where
  "in_sync x \<longleftrightarrow> (case x of (d, s, l) \<Rightarrow>
     distributor_ok d \<and> has_filter_notifier d \<and> l = upstream_filter d)"

lemma in_sync_reports: "in_sync (d, s, l) \<Longrightarrow> reports d (d', up) \<Longrightarrow> in_sync (d', s', told l up)"
  by (auto simp: in_sync_def reports_def told_def split: option.splits)

lemma live_filters_reap [simp]:
  "live_filters (d\<lparr>clients := filter (\<lambda>e. \<not> deleted (snd e)) (clients d)\<rparr>) = live_filters d"
  by (simp add: live_filters_def)

lemma dist_step_in_sync:
  assumes quiet: "quiet_notifiers cb deliver" and "in_sync x" and "dist_step cb x y"
  shows "in_sync y"
  using assms(3,2)
proof cases
  case (add f n d h d' up s l s')
  then have "in_sync (d, s, l)" using assms(2) by simp
  moreover have "reports d (d', up)"
    using calculation add add_client_reports [of d f n] by (auto simp: in_sync_def)
  ultimately show ?thesis using add in_sync_reports [of d s l d' up s'] by simp
next
  case (update f h d d' up s l s')
  then have "in_sync (d, s, l)" using assms(2) by simp
  moreover have "reports d (d', up)"
    using calculation update update_client_filter_reports [of d f h] by (auto simp: in_sync_def)
  ultimately show ?thesis using update in_sync_reports [of d s l d' up s'] by simp
next
  case (remove h d d' up s l s')
  then have "in_sync (d, s, l)" using assms(2) by simp
  moreover have "reports d (d', up)"
    using calculation remove remove_client_reports [of d h] by (auto simp: in_sync_def)
  ultimately show ?thesis using remove in_sync_reports [of d s l d' up s'] by simp
next
  case (message m d s d' s' l)
  then have "d' = d\<lparr>clients := filter (\<lambda>e. \<not> deleted (snd e)) (clients d)\<rparr>"
    using quiet_notifiers.broadcast_delivers [OF quiet, of d m s] assms(2)
    by (auto simp: in_sync_def distributor_ok_def)
  then show ?thesis
    using message assms(2) by (auto simp: in_sync_def distributor_ok_def ordered_filter
        upstream_filter_def)
qed

lemma in_sync_start: "in_sync (set_filter_notifier new_distributor, s, default_filter)"
  by (simp add: in_sync_def set_filter_notifier_def new_distributor_def distributor_ok_def
      upstream_filter_def live_filters_def)

lemma dist_reachable_in_sync:
  assumes "dist_reachable cb x" and "quiet_notifiers cb deliver"
  shows "in_sync x"
  using assms(1)
proof induction
  case (step x y)
  then show ?case using dist_step_in_sync [OF assms(2)] by blast
qed (rule in_sync_start)

subsection \<open>Properties\<close>

text \<open>
  C17: a broadcast calls the notifiers of exactly the clients that are not marked as deleted
  and whose filter accepts the message, once each, in the order of their handles, and drops
  the clients marked as deleted from the table, leaving the others as they were.
\<close>

theorem broadcast_calls:
  assumes "distributor_ok d"
  shows "broadcast record_call m (d, log) =
    Some (d\<lparr>clients := filter (\<lambda>e. \<not> deleted (snd e)) (clients d)\<rparr>,
      log @ map (\<lambda>e. (notifier (snd e), m))
        (filter (\<lambda>e. \<not> deleted (snd e) \<and> accepts (cfilter (snd e)) m) (clients d)))"
proof -
  have "foldl (\<lambda>s e. s @ [(notifier (snd e), m)]) log es = log @ map (\<lambda>e. (notifier (snd e), m)) es"
    for es :: "(handle \<times> 'a client) list"
    by (induction es arbitrary: log) simp_all
  then show ?thesis
    using rc.broadcast_delivers [of d m log] assms by (simp add: distributor_ok_def)
qed

text \<open>
  C22: a broadcast comes to an end whatever its notifiers do to the clients' filters and
  deletion marks, as long as none of them inserts or erases an entry.
\<close>

theorem broadcast_ends:
  assumes "\<And>n m ds. map fst (clients (fst (cb n m ds))) = map fst (clients (fst ds))"
    and "distributor_ok d"
  shows "\<exists>r. broadcast cb m (d, s) = Some r"
  using steady_notifiers.broadcast_terminates [OF steady_notifiers.intro, of cb "(d, s)" m] assms
  by (simp add: distributor_ok_def)

text \<open>
  C6: the input always has the right filter: after any sequence of clients joining, changing
  their filter and leaving, and of broadcasts, the filter last reported upstream is the
  combination of the filters of the clients that are not deleted: it accepts every message that
  any of them accepts, and it is the least filter above theirs, so the receiver is asked for
  nothing that no client wants.
\<close>

theorem upstream_in_sync:
  assumes "dist_reachable cb (d, s, l)" and "\<And>n m ds. cb n m ds = (fst ds, deliver n m (snd ds))"
  shows "l = foldl filter_combine default_filter (live_filters d) \<and>
    (\<forall>e m. e \<in> set (clients d) \<and> \<not> deleted (snd e) \<and> accepts (cfilter (snd e)) m \<longrightarrow> accepts l m) \<and>
    (\<forall>h. wf_filter h \<longrightarrow> (l \<le> h \<longleftrightarrow> (\<forall>e \<in> set (clients d). \<not> deleted (snd e) \<longrightarrow> cfilter (snd e) \<le> h)))"
proof -
  have sync: "in_sync (d, s, l)"
    using dist_reachable_in_sync [OF assms(1) quiet_notifiers.intro] assms(2) by blast
  then have l: "l = upstream_filter d" and ok: "distributor_ok d" by (simp_all add: in_sync_def)
  have "accepts l m" if "e \<in> set (clients d)" "\<not> deleted (snd e)" "accepts (cfilter (snd e)) m" for e m
    using upstream_filter_accepts [OF ok, of "cfilter (snd e)" m] that
    by (auto simp: l live_filters_def)
  moreover have "l \<le> h \<longleftrightarrow> (\<forall>e \<in> set (clients d). \<not> deleted (snd e) \<longrightarrow> cfilter (snd e) \<le> h)" if "wf_filter h" for h
    using upstream_filter_least [OF ok that] by (auto simp: l live_filters_def)
  ultimately show ?thesis by (auto simp: l upstream_filter_def)
qed

text \<open>A distributor with a live client that wants Mode A/C and one marked as deleted.\<close>

definition sample_distributor :: "nat distributor" where
  "sample_distributor =
     \<lparr>next_handle = 2, has_filter_notifier = True, clients =
       [(0, \<lparr>notifier = 10, cfilter = default_filter\<lparr>receive_modeac := True\<rparr>, deleted = False\<rparr>),
        (1, \<lparr>notifier = 11, cfilter = default_filter\<lparr>receive_modeac := True\<rparr>, deleted = True\<rparr>)]\<rparr>"

definition sample_modeac :: message where
  "sample_modeac = projr (make_message MODE_AC TWELVEMEG 0 0 [0x12, 0x34])"

lemma sample_distributor_ok: "distributor_ok sample_distributor"
  by (simp add: distributor_ok_def sample_distributor_def wf_filter_def default_filter_def)

lemma accepts_modeac: "accepts f sample_modeac = receive_modeac f"
  by (simp add: sample_modeac_def make_message_def accepts_def)

theorem broadcast_calls_witness:
  "\<exists>d. broadcast record_call sample_modeac (sample_distributor, []) = Some (d, [(10, sample_modeac)])
    \<and> map fst (clients d) = [0]"
  using broadcast_calls [OF sample_distributor_ok, of sample_modeac "[]"]
  by (simp add: accepts_modeac sample_distributor_def)

theorem broadcast_ends_witness:
  "\<exists>r. broadcast (\<lambda>n m ds. (fst ds, snd ds + n)) sample_modeac (sample_distributor, 0) = Some r"
  by (rule broadcast_ends) (simp_all add: sample_distributor_ok)

theorem upstream_in_sync_witness:
  "\<exists>d s l. dist_reachable (record_call :: (nat, (nat \<times> message) list) callback) (d, s, l) \<and> live_filters d \<noteq> [] \<and> accepts l sample_modeac"
proof -
  let ?f = "default_filter\<lparr>receive_modeac := True\<rparr>" and ?d0 = "set_filter_notifier new_distributor"
  have wf: "wf_filter ?f" by (simp add: wf_filter_def default_filter_def)
  obtain h d up where a: "add_client (0 :: nat) ?f ?d0 = (h, d, up)"
    by (cases "add_client (0 :: nat) ?f ?d0") auto
  have r: "dist_reachable record_call (d, [], told default_filter up)"
    by (rule dist_reachable.step [OF dist_reachable.start dist_step.add [OF wf a]])
  have d: "clients d = [(0, \<lparr>notifier = 0, cfilter = ?f, deleted = False\<rparr>)]"
    using a by (auto simp: add_client_def Let_def update_upstream_filter_eq
        set_filter_notifier_def new_distributor_def)
  have "\<forall>e m. e \<in> set (clients d) \<and> \<not> deleted (snd e) \<and> accepts (cfilter (snd e)) m \<longrightarrow>
      accepts (told default_filter up) m"
    by (rule upstream_in_sync [THEN conjunct2, THEN conjunct1, OF r, of "\<lambda>n m log. log @ [(n, m)]"])
       (simp add: record_call_def)
  then have "accepts ?f sample_modeac \<longrightarrow> accepts (told default_filter up) sample_modeac"
    by (simp add: d)
  then have "accepts (told default_filter up) sample_modeac" by (simp add: accepts_modeac)
  moreover have "live_filters d \<noteq> []" by (simp add: live_filters_def d)
  ultimately show ?thesis using r by blast
qed

text \<open>
  Removal is final: after \<open>remove_client\<close> the client is marked as deleted or gone, so no
  broadcast calls it, and changing its filter or removing it again does nothing and reports
  nothing.
\<close>

theorem removed_client_is_silent:
  assumes "remove_client h d = (d', up)"
  shows "(\<forall>c. map_of (clients d') h = Some c \<longrightarrow> deleted c) \<and>
    update_client_filter h f d' = (d', None) \<and> remove_client h d' = (d', None)"
proof -
  have "\<forall>c. map_of (clients d') h = Some c \<longrightarrow> deleted c"
    using assms
    by (auto simp: remove_client_def update_upstream_filter_eq split: option.splits if_splits)
  then show ?thesis
    by (auto simp: update_client_filter_def remove_client_def split: option.split)
qed

theorem removed_client_is_silent_witness:
  "\<exists>d up. remove_client 0 sample_distributor = (d, up) \<and> remove_client 0 d = (d, None)"
  using removed_client_is_silent [of 0 sample_distributor
      "fst (remove_client 0 sample_distributor)" "snd (remove_client 0 sample_distributor)"]
  by (metis prod.collapse)

text \<open>
  Handles are not reused: while fewer than \<open>2 ^ 32\<close> clients have joined, a new client
  gets a handle that no client in the table has, its entry is the given notifier and filter,
  and no other entry changes.
\<close>

theorem add_client_fresh:
  assumes "\<forall>e \<in> set (clients d). fst e < next_handle d" and "next_handle d \<noteq> 0xFFFFFFFF"
    and "add_client n f d = (h, d', up)"
  shows "map_of (clients d) h = None \<and>
    map_of (clients d') = (map_of (clients d))(h \<mapsto> \<lparr>notifier = n, cfilter = f, deleted = False\<rparr>) \<and>
    (\<forall>e \<in> set (clients d'). fst e < next_handle d')"
proof -
  have h: "h = next_handle d" and d': "next_handle d' = next_handle d + 1"
    "clients d' = map_put h \<lparr>notifier = n, cfilter = f, deleted = False\<rparr> (clients d)"
    using assms(3) by (auto simp: add_client_def Let_def update_upstream_filter_eq)
  have "next_handle d < next_handle d + 1"
  proof -
    have "(0xFFFFFFFF :: u32) = -1" by simp
    then have "next_handle d \<noteq> -1" using assms(2) by metis
    then show ?thesis using inc_less_eq_self_iff_eq [of "next_handle d"] by (simp add: not_le [symmetric])
  qed
  moreover have "map_of (clients d) h = None"
    using assms(1) by (auto simp: h map_of_eq_None_iff)
  ultimately show ?thesis
    using assms(1) set_put [of h _ "clients d"] by (fastforce simp: d' h)
qed

theorem add_client_fresh_witness:
  "\<exists>d' up. add_client (12 :: nat) default_filter sample_distributor = (2, d', up) \<and>
    map_of (clients sample_distributor) 2 = None"
proof -
  obtain h d' up where a: "add_client (12 :: nat) default_filter sample_distributor = (h, d', up)"
    by (cases "add_client (12 :: nat) default_filter sample_distributor") auto
  have "h = 2" using a by (auto simp: add_client_def Let_def sample_distributor_def)
  with add_client_fresh [OF _ _ a] a show ?thesis by (auto simp: sample_distributor_def)
qed

end
