(* ===== verification/BeastSettings.thy ===== *)
theory BeastSettings
  imports ModesFilter
begin

section \<open>Receiver settings (beast_settings.h, beast_settings.cc)\<close>

text \<open>
  Three-valued settings, the struct \<open>Settings\<close> with its constructors from a status byte, a
  filter and a string, and its conversions to a status byte, a filter, a command message and
  text.
\<close>

subsection \<open>Three-valued settings\<close>

text \<open>
  The private \<open>int state\<close> of \<open>tristate\<close> is only ever -1, 0 or 1; the template parameters
  \<open>D\<close>, \<open>OFF\<close> and \<open>ON\<close> are arguments of the operations that read them.
\<close>

datatype tristate = OFF | DONTCARE | ON

definition ts_of_bool :: "bool \<Rightarrow> tristate" where
  "ts_of_bool b = (if b then ON else OFF)"

definition ts_bool :: "bool \<Rightarrow> tristate \<Rightarrow> bool" where
  "ts_bool D t = (if t = DONTCARE then D else t = ON)"

definition ts_plus :: "tristate \<Rightarrow> tristate \<Rightarrow> tristate" where
  "ts_plus t other =
     (if t = DONTCARE then other else if other = DONTCARE then t
      else if t = other then t else DONTCARE)"

definition ts_plus_assign :: "tristate \<Rightarrow> tristate \<Rightarrow> tristate" where
  "ts_plus_assign t other =
     (if t = DONTCARE then other else if other \<noteq> DONTCARE \<and> t \<noteq> other then DONTCARE else t)"

definition ts_or :: "tristate \<Rightarrow> tristate \<Rightarrow> tristate" where
  "ts_or t other = (if t = DONTCARE then other else t)"

definition ts_print :: "char \<Rightarrow> char \<Rightarrow> tristate \<Rightarrow> string" where
  "ts_print off on t = (if t = ON then [on] else if t = OFF then [off] else [])"

subsection \<open>The struct and its constructors\<close>

record settings =
  radarcape :: tristate
  binary_format :: tristate
  filter_11_17_18 :: tristate
  avrmlat :: tristate
  crc_disable :: tristate
  gps_timestamps :: tristate
  rts_handshake :: tristate
  fec_disable :: tristate
  modeac_enable :: tristate
  filter_0_4_5 :: tristate
  position_enable :: tristate
  verbatim :: tristate

definition default_settings :: settings where
  "default_settings =
     \<lparr>radarcape = DONTCARE, binary_format = DONTCARE, filter_11_17_18 = DONTCARE,
      avrmlat = DONTCARE, crc_disable = DONTCARE, gps_timestamps = DONTCARE,
      rts_handshake = DONTCARE, fec_disable = DONTCARE, modeac_enable = DONTCARE,
      filter_0_4_5 = DONTCARE, position_enable = DONTCARE, verbatim = DONTCARE\<rparr>"

definition settings_of_byte :: "byte \<Rightarrow> settings" where
  "settings_of_byte b = default_settings
     \<lparr>radarcape := ON,
      binary_format := ts_of_bool (b AND 0x01 \<noteq> 0),
      filter_11_17_18 := ts_of_bool (b AND 0x02 \<noteq> 0),
      avrmlat := ts_of_bool (b AND 0x04 \<noteq> 0),
      crc_disable := ts_of_bool (b AND 0x08 \<noteq> 0),
      gps_timestamps := ts_of_bool (b AND 0x10 \<noteq> 0),
      rts_handshake := ts_of_bool (b AND 0x20 \<noteq> 0),
      fec_disable := ts_of_bool (b AND 0x40 \<noteq> 0),
      modeac_enable := ts_of_bool (b AND 0x80 \<noteq> 0)\<rparr>"

text \<open>The constructor from a filter; the test of \<open>receive_df[5]\<close> has no negation in the code.\<close>

definition settings_of_filter :: "filter \<Rightarrow> settings" where
  "settings_of_filter f = default_settings
     \<lparr>filter_11_17_18 :=
        (if list_ex (\<lambda>i. receive_df f ! i \<and> i \<noteq> 11 \<and> i \<noteq> 17 \<and> i \<noteq> 18) [0..<32]
         then OFF else ON),
      crc_disable := ts_of_bool (receive_bad_crc f),
      gps_timestamps := ts_of_bool (receive_gps_timestamps f),
      fec_disable := ts_of_bool (\<not> receive_fec f),
      modeac_enable := ts_of_bool (receive_modeac f),
      filter_0_4_5 :=
        ts_of_bool (\<not> receive_df f ! 0 \<and> \<not> receive_df f ! 4 \<and> receive_df f ! 5),
      verbatim := (if receive_verbatim f then ON else DONTCARE)\<rparr>"

definition settings_char :: "settings \<Rightarrow> char \<Rightarrow> settings" where
  "settings_char s ch =
     (if ch = CHR ''B'' then s\<lparr>radarcape := OFF\<rparr>
      else if ch = CHR ''R'' then s\<lparr>radarcape := ON\<rparr>
      else if ch = CHR ''c'' then s\<lparr>binary_format := OFF\<rparr>
      else if ch = CHR ''C'' then s\<lparr>binary_format := ON\<rparr>
      else if ch = CHR ''d'' then s\<lparr>filter_11_17_18 := OFF\<rparr>
      else if ch = CHR ''D'' then s\<lparr>filter_11_17_18 := ON\<rparr>
      else if ch = CHR ''e'' then s\<lparr>avrmlat := OFF\<rparr>
      else if ch = CHR ''E'' then s\<lparr>avrmlat := ON\<rparr>
      else if ch = CHR ''f'' then s\<lparr>crc_disable := OFF\<rparr>
      else if ch = CHR ''F'' then s\<lparr>crc_disable := ON\<rparr>
      else if ch = CHR ''g'' then s\<lparr>gps_timestamps := OFF\<rparr>
      else if ch = CHR ''G'' then s\<lparr>gps_timestamps := ON\<rparr>
      else if ch = CHR ''h'' then s\<lparr>rts_handshake := OFF\<rparr>
      else if ch = CHR ''H'' then s\<lparr>rts_handshake := ON\<rparr>
      else if ch = CHR ''i'' then s\<lparr>fec_disable := OFF\<rparr>
      else if ch = CHR ''I'' then s\<lparr>fec_disable := ON\<rparr>
      else if ch = CHR ''j'' then s\<lparr>modeac_enable := OFF\<rparr>
      else if ch = CHR ''J'' then s\<lparr>modeac_enable := ON\<rparr>
      else if ch = CHR ''k'' then s\<lparr>filter_0_4_5 := OFF\<rparr>
      else if ch = CHR ''K'' then s\<lparr>filter_0_4_5 := ON\<rparr>
      else if ch = CHR ''v'' then s\<lparr>verbatim := OFF\<rparr>
      else if ch = CHR ''V'' then s\<lparr>verbatim := ON\<rparr>
      else s)"

definition settings_of_string :: "string \<Rightarrow> settings" where
  "settings_of_string str =
     (let s = foldl settings_char default_settings str in
      if radarcape s = OFF \<and> gps_timestamps s \<noteq> DONTCARE then s\<lparr>gps_timestamps := OFF\<rparr>
      else if radarcape s = ON \<and> filter_0_4_5 s \<noteq> DONTCARE then s\<lparr>filter_0_4_5 := OFF\<rparr>
      else s)"

subsection \<open>Conversions\<close>

definition settings_or :: "settings \<Rightarrow> settings \<Rightarrow> settings" where
  "settings_or s other = s
     \<lparr>binary_format := ts_or (binary_format s) (binary_format other),
      filter_11_17_18 := ts_or (filter_11_17_18 s) (filter_11_17_18 other),
      avrmlat := ts_or (avrmlat s) (avrmlat other),
      crc_disable := ts_or (crc_disable s) (crc_disable other),
      gps_timestamps := ts_or (gps_timestamps s) (gps_timestamps other),
      rts_handshake := ts_or (rts_handshake s) (rts_handshake other),
      fec_disable := ts_or (fec_disable s) (fec_disable other),
      modeac_enable := ts_or (modeac_enable s) (modeac_enable other),
      filter_0_4_5 := ts_or (filter_0_4_5 s) (filter_0_4_5 other),
      radarcape := ts_or (radarcape s) (radarcape other),
      verbatim := ts_or (verbatim s) (verbatim other)\<rparr>"

definition to_status_byte :: "settings \<Rightarrow> byte" where
  "to_status_byte s =
     (if \<not> ts_bool False (radarcape s) then 0
      else (if ts_bool True (binary_format s) then 0x01 else 0)
        OR (if ts_bool False (filter_11_17_18 s) then 0x02 else 0)
        OR (if ts_bool True (avrmlat s) then 0x04 else 0)
        OR (if ts_bool False (crc_disable s) then 0x08 else 0)
        OR (if ts_bool True (gps_timestamps s) then 0x10 else 0)
        OR (if ts_bool True (rts_handshake s) then 0x20 else 0)
        OR (if ts_bool False (fec_disable s) then 0x40 else 0)
        OR (if ts_bool False (modeac_enable s) then 0x80 else 0))"

definition to_filter :: "settings \<Rightarrow> filter" where
  "to_filter s =
     \<lparr>receive_df =
        (if ts_bool False (filter_11_17_18 s)
         then (replicate 32 False)[11 := True, 17 := True, 18 := True]
         else if ts_bool False (filter_0_4_5 s)
         then (replicate 32 True)[0 := False, 4 := False, 5 := False]
         else replicate 32 True),
      receive_modeac = ts_bool False (modeac_enable s),
      receive_bad_crc = ts_bool False (crc_disable s),
      receive_fec = (\<not> ts_bool False (fec_disable s)),
      receive_status = (radarcape s \<noteq> OFF),
      receive_gps_timestamps = (radarcape s \<noteq> OFF \<and> gps_timestamps s \<noteq> OFF),
      receive_position = ts_bool False (position_enable s),
      receive_verbatim = ts_bool False (verbatim s)\<rparr>"

definition add_setting :: "bytebuf \<Rightarrow> bool \<Rightarrow> char \<Rightarrow> char \<Rightarrow> bytebuf" where
  "add_setting msg onoff off on =
     msg @ [0x1A, ascii CHR ''1'', ascii (if onoff then on else off)]"

definition add_tristate :: "bool \<Rightarrow> char \<Rightarrow> char \<Rightarrow> bytebuf \<Rightarrow> tristate \<Rightarrow> bytebuf" where
  "add_tristate D off on msg t =
     (if t \<noteq> DONTCARE then add_setting msg (ts_bool D t) off on else msg)"

definition to_message :: "settings \<Rightarrow> failure + bytebuf" where
  "to_message s =
     (if radarcape s = DONTCARE then Inl Logic_error
      else let
        msg = add_tristate True CHR ''c'' CHR ''C'' [] (binary_format s);
        msg = add_tristate False CHR ''d'' CHR ''D'' msg (filter_11_17_18 s);
        msg = add_tristate True CHR ''e'' CHR ''E'' msg (avrmlat s);
        msg = add_tristate False CHR ''f'' CHR ''F'' msg (crc_disable s);
        msg =
          (if \<not> ts_bool False (radarcape s) \<and> filter_0_4_5 s \<noteq> DONTCARE
           then add_setting msg (ts_bool False (filter_0_4_5 s)) CHR ''g'' CHR ''G''
           else if ts_bool False (radarcape s) \<and> gps_timestamps s \<noteq> DONTCARE
           then add_setting msg (ts_bool True (gps_timestamps s)) CHR ''g'' CHR ''G''
           else msg);
        msg = add_tristate True CHR ''h'' CHR ''H'' msg (rts_handshake s);
        msg = add_tristate False CHR ''i'' CHR ''I'' msg (fec_disable s);
        msg = add_tristate False CHR ''j'' CHR ''J'' msg (modeac_enable s);
        msg = add_tristate False CHR ''v'' CHR ''V'' msg (verbatim s)
      in Inr msg)"

definition apply_defaults :: "settings \<Rightarrow> settings" where
  "apply_defaults s = default_settings
     \<lparr>binary_format := ts_of_bool (ts_bool True (binary_format s)),
      filter_11_17_18 := ts_of_bool (ts_bool False (filter_11_17_18 s)),
      avrmlat := ts_of_bool (ts_bool True (avrmlat s)),
      crc_disable := ts_of_bool (ts_bool False (crc_disable s)),
      gps_timestamps := ts_of_bool (ts_bool True (gps_timestamps s)),
      rts_handshake := ts_of_bool (ts_bool True (rts_handshake s)),
      fec_disable := ts_of_bool (ts_bool False (fec_disable s)),
      modeac_enable := ts_of_bool (ts_bool False (modeac_enable s)),
      radarcape := ts_of_bool (ts_bool False (radarcape s)),
      filter_0_4_5 := ts_of_bool (ts_bool False (filter_0_4_5 s)),
      verbatim := ts_of_bool (ts_bool False (verbatim s))\<rparr>"

definition settings_eq :: "settings \<Rightarrow> settings \<Rightarrow> bool" where
  "settings_eq s other \<longleftrightarrow>
     radarcape s = radarcape other \<and> binary_format s = binary_format other \<and>
     filter_11_17_18 s = filter_11_17_18 other \<and> avrmlat s = avrmlat other \<and>
     crc_disable s = crc_disable other \<and> gps_timestamps s = gps_timestamps other \<and>
     rts_handshake s = rts_handshake other \<and> fec_disable s = fec_disable other \<and>
     modeac_enable s = modeac_enable other \<and> filter_0_4_5 s = filter_0_4_5 other \<and>
     position_enable s = position_enable other \<and> verbatim s = verbatim other"

definition settings_print :: "settings \<Rightarrow> string" where
  "settings_print s =
     ts_print CHR ''B'' CHR ''R'' (radarcape s) @
     ts_print CHR ''c'' CHR ''C'' (binary_format s) @
     ts_print CHR ''d'' CHR ''D'' (filter_11_17_18 s) @
     ts_print CHR ''e'' CHR ''E'' (avrmlat s) @
     ts_print CHR ''f'' CHR ''F'' (crc_disable s) @
     ts_print CHR ''g'' CHR ''G'' (gps_timestamps s) @
     ts_print CHR ''h'' CHR ''H'' (rts_handshake s) @
     ts_print CHR ''i'' CHR ''I'' (fec_disable s) @
     ts_print CHR ''j'' CHR ''J'' (modeac_enable s) @
     ts_print CHR ''k'' CHR ''K'' (filter_0_4_5 s) @
     ts_print CHR ''v'' CHR ''V'' (verbatim s)"

lemma settings_eq_iff: "settings_eq s t \<longleftrightarrow> s = t"
  by (auto simp: settings_eq_def)

lemma ts_simps [simp]:
  "ts_of_bool True = ON" "ts_of_bool False = OFF"
  "ts_bool D ON" "\<not> ts_bool D OFF" "ts_bool D DONTCARE = D"
  "ts_or ON t = ON" "ts_or OFF t = OFF" "ts_or DONTCARE t = t" "ts_or t DONTCARE = t"
  "ts_of_bool b \<noteq> DONTCARE" "ts_bool D (ts_of_bool b) = b"
  "ts_of_bool b = ON \<longleftrightarrow> b" "ts_of_bool b = OFF \<longleftrightarrow> \<not> b"
  by (auto simp: ts_of_bool_def ts_bool_def ts_or_def)

lemma ts_plus_laws: "ts_plus s t = ts_plus t s" "ts_plus_assign s t = ts_plus s t" "ts_plus t t = t"
  by (auto simp: ts_plus_def ts_plus_assign_def)

lemma wf_to_filter [simp]: "wf_filter (to_filter s)"
  by (simp add: wf_filter_def to_filter_def)

subsection \<open>Text\<close>

lemma settings_char_print:
  "foldl settings_char s (ts_print CHR ''B'' CHR ''R'' t) =
     s\<lparr>radarcape := ts_or t (radarcape s)\<rparr>"
  "foldl settings_char s (ts_print CHR ''c'' CHR ''C'' t) =
     s\<lparr>binary_format := ts_or t (binary_format s)\<rparr>"
  "foldl settings_char s (ts_print CHR ''d'' CHR ''D'' t) =
     s\<lparr>filter_11_17_18 := ts_or t (filter_11_17_18 s)\<rparr>"
  "foldl settings_char s (ts_print CHR ''e'' CHR ''E'' t) =
     s\<lparr>avrmlat := ts_or t (avrmlat s)\<rparr>"
  "foldl settings_char s (ts_print CHR ''f'' CHR ''F'' t) =
     s\<lparr>crc_disable := ts_or t (crc_disable s)\<rparr>"
  "foldl settings_char s (ts_print CHR ''g'' CHR ''G'' t) =
     s\<lparr>gps_timestamps := ts_or t (gps_timestamps s)\<rparr>"
  "foldl settings_char s (ts_print CHR ''h'' CHR ''H'' t) =
     s\<lparr>rts_handshake := ts_or t (rts_handshake s)\<rparr>"
  "foldl settings_char s (ts_print CHR ''i'' CHR ''I'' t) =
     s\<lparr>fec_disable := ts_or t (fec_disable s)\<rparr>"
  "foldl settings_char s (ts_print CHR ''j'' CHR ''J'' t) =
     s\<lparr>modeac_enable := ts_or t (modeac_enable s)\<rparr>"
  "foldl settings_char s (ts_print CHR ''k'' CHR ''K'' t) =
     s\<lparr>filter_0_4_5 := ts_or t (filter_0_4_5 s)\<rparr>"
  "foldl settings_char s (ts_print CHR ''v'' CHR ''V'' t) =
     s\<lparr>verbatim := ts_or t (verbatim s)\<rparr>"
  by (cases t; simp add: ts_print_def settings_char_def ts_or_def)+

definition consistent_settings :: "settings \<Rightarrow> bool" where
  "consistent_settings s \<longleftrightarrow>
     (radarcape s = OFF \<longrightarrow> gps_timestamps s \<noteq> ON) \<and>
     (radarcape s = ON \<longrightarrow> filter_0_4_5 s \<noteq> ON) \<and> position_enable s = DONTCARE"

lemma position_settings_char [simp]: "position_enable (settings_char s ch) = position_enable s"
  by (simp add: settings_char_def)

lemma position_settings_chars [simp]:
  "position_enable (foldl settings_char s str) = position_enable s"
  by (induction str arbitrary: s) simp_all

lemma consistent_settings_of_string: "consistent_settings (settings_of_string str)"
  by (auto simp: consistent_settings_def settings_of_string_def Let_def default_settings_def)

lemma foldl_settings_print:
  "position_enable s = DONTCARE \<Longrightarrow> foldl settings_char default_settings (settings_print s) = s"
  by (cases s)
     (simp add: settings_print_def settings_char_print default_settings_def ts_or_def)

lemma settings_print_parse_consistent:
  "consistent_settings s \<Longrightarrow> settings_of_string (settings_print s) = s"
  by (cases "gps_timestamps s"; cases "filter_0_4_5 s")
     (auto simp: settings_of_string_def foldl_settings_print consistent_settings_def
        intro!: settings.equality)

subsection \<open>Status bytes\<close>

lemma bit_power2_byte: "k < 8 \<Longrightarrow> bit (2 ^ k :: byte) n \<longleftrightarrow> n = k"
  by (auto simp: bit_exp_iff)

lemma and_power2_bit:
  "((b :: byte) AND 0x01 \<noteq> 0) = bit b 0" "(b AND 0x02 \<noteq> 0) = bit b 1" "(b AND 0x04 \<noteq> 0) = bit b 2"
  "(b AND 0x08 \<noteq> 0) = bit b 3" "(b AND 0x10 \<noteq> 0) = bit b 4" "(b AND 0x20 \<noteq> 0) = bit b 5"
  "(b AND 0x40 \<noteq> 0) = bit b 6" "(b AND 0x80 \<noteq> 0) = bit b 7"
proof -
  have p: "(b AND push_bit n 1 \<noteq> 0) = bit b n" if "n < 8" for n
  proof -
    have "b AND push_bit n 1 = (if bit b n then push_bit n 1 else 0)"
      using that by (intro bit_word_eqI) (auto simp: bit_and_iff bit_power2_byte)
    moreover have "(push_bit n 1 :: byte) \<noteq> 0"
      using that by simp
    ultimately show ?thesis by simp
  qed
  show "(b AND 0x01 \<noteq> 0) = bit b 0" "(b AND 0x02 \<noteq> 0) = bit b 1" "(b AND 0x04 \<noteq> 0) = bit b 2"
    "(b AND 0x08 \<noteq> 0) = bit b 3" "(b AND 0x10 \<noteq> 0) = bit b 4" "(b AND 0x20 \<noteq> 0) = bit b 5"
    "(b AND 0x40 \<noteq> 0) = bit b 6" "(b AND 0x80 \<noteq> 0) = bit b 7"
    using p [of 0] p [of 1] p [of 2] p [of 3] p [of 4] p [of 5] p [of 6] p [of 7] by simp_all
qed

lemma bit_status_or:
  "bit ((if p0 then 0x01 else 0) OR (if p1 then 0x02 else 0) OR (if p2 then 0x04 else 0)
    OR (if p3 then 0x08 else 0) OR (if p4 then 0x10 else 0) OR (if p5 then 0x20 else 0)
    OR (if p6 then 0x40 else 0) OR (if p7 then 0x80 else 0) :: byte) n \<longleftrightarrow>
   n = 0 \<and> p0 \<or> n = 1 \<and> p1 \<or> n = 2 \<and> p2 \<or> n = 3 \<and> p3 \<or> n = 4 \<and> p4 \<or> n = 5 \<and> p5 \<or>
   n = 6 \<and> p6 \<or> n = 7 \<and> p7"
proof -
  have b: "bit (if p then k else (0 :: byte)) n = (p \<and> bit k n)" for p k by simp
  have k: "bit (0x01 :: byte) n = (n = 0)" "bit (0x02 :: byte) n = (n = 1)"
    "bit (0x04 :: byte) n = (n = 2)" "bit (0x08 :: byte) n = (n = 3)"
    "bit (0x10 :: byte) n = (n = 4)" "bit (0x20 :: byte) n = (n = 5)"
    "bit (0x40 :: byte) n = (n = 6)" "bit (0x80 :: byte) n = (n = 7)"
    using bit_power2_byte [of 0 n] bit_power2_byte [of 1 n] bit_power2_byte [of 2 n]
      bit_power2_byte [of 3 n] bit_power2_byte [of 4 n] bit_power2_byte [of 5 n]
      bit_power2_byte [of 6 n] bit_power2_byte [of 7 n]
    by simp_all
  show ?thesis by (simp only: bit_or_iff b k) blast
qed

lemma to_status_byte_bits:
  assumes "radarcape s = ON"
  shows "bit (to_status_byte s) n \<longleftrightarrow>
    n = 0 \<and> ts_bool True (binary_format s) \<or> n = 1 \<and> ts_bool False (filter_11_17_18 s) \<or>
    n = 2 \<and> ts_bool True (avrmlat s) \<or> n = 3 \<and> ts_bool False (crc_disable s) \<or>
    n = 4 \<and> ts_bool True (gps_timestamps s) \<or> n = 5 \<and> ts_bool True (rts_handshake s) \<or>
    n = 6 \<and> ts_bool False (fec_disable s) \<or> n = 7 \<and> ts_bool False (modeac_enable s)"
  using assms by (simp only: to_status_byte_def ts_simps not_True_eq_False if_False bit_status_or)

lemma settings_of_byte_fields:
  "radarcape (settings_of_byte b) = ON"
  "binary_format (settings_of_byte b) = ts_of_bool (bit b 0)"
  "filter_11_17_18 (settings_of_byte b) = ts_of_bool (bit b 1)"
  "avrmlat (settings_of_byte b) = ts_of_bool (bit b 2)"
  "crc_disable (settings_of_byte b) = ts_of_bool (bit b 3)"
  "gps_timestamps (settings_of_byte b) = ts_of_bool (bit b 4)"
  "rts_handshake (settings_of_byte b) = ts_of_bool (bit b 5)"
  "fec_disable (settings_of_byte b) = ts_of_bool (bit b 6)"
  "modeac_enable (settings_of_byte b) = ts_of_bool (bit b 7)"
  "position_enable (settings_of_byte b) = DONTCARE"
  "filter_0_4_5 (settings_of_byte b) = DONTCARE"
  "verbatim (settings_of_byte b) = DONTCARE"
  by (simp_all add: settings_of_byte_def and_power2_bit default_settings_def)

subsection \<open>Filters and settings\<close>

lemma to_filter_df:
  "j < 32 \<Longrightarrow> receive_df (to_filter s) ! j =
    (if ts_bool False (filter_11_17_18 s) then j \<in> {11, 17, 18}
     else \<not> (ts_bool False (filter_0_4_5 s) \<and> j \<in> {0, 4, 5}))"
  by (simp add: to_filter_def nth_list_update)

lemma to_filter_flags [simp]:
  "receive_modeac (to_filter s) = ts_bool False (modeac_enable s)"
  "receive_bad_crc (to_filter s) = ts_bool False (crc_disable s)"
  "receive_fec (to_filter s) = (\<not> ts_bool False (fec_disable s))"
  "receive_status (to_filter s) = (radarcape s \<noteq> OFF)"
  "receive_gps_timestamps (to_filter s) = (radarcape s \<noteq> OFF \<and> gps_timestamps s \<noteq> OFF)"
  "receive_position (to_filter s) = ts_bool False (position_enable s)"
  "receive_verbatim (to_filter s) = ts_bool False (verbatim s)"
  by (simp_all add: to_filter_def)

lemma settings_of_filter_fields [simp]:
  "radarcape (settings_of_filter f) = DONTCARE"
  "crc_disable (settings_of_filter f) = ts_of_bool (receive_bad_crc f)"
  "gps_timestamps (settings_of_filter f) = ts_of_bool (receive_gps_timestamps f)"
  "fec_disable (settings_of_filter f) = ts_of_bool (\<not> receive_fec f)"
  "modeac_enable (settings_of_filter f) = ts_of_bool (receive_modeac f)"
  "position_enable (settings_of_filter f) = DONTCARE"
  "verbatim (settings_of_filter f) = (if receive_verbatim f then ON else DONTCARE)"
  "filter_0_4_5 (settings_of_filter f) =
     ts_of_bool (\<not> receive_df f ! 0 \<and> \<not> receive_df f ! 4 \<and> receive_df f ! 5)"
  "binary_format (settings_of_filter f) = DONTCARE"
  "avrmlat (settings_of_filter f) = DONTCARE"
  "rts_handshake (settings_of_filter f) = DONTCARE"
  by (simp_all add: settings_of_filter_def default_settings_def)

lemma settings_of_filter_11_17_18:
  "filter_11_17_18 (settings_of_filter f) = ON \<longleftrightarrow>
    (\<forall>j<32. receive_df f ! j \<longrightarrow> j \<in> {11, 17, 18})"
  by (auto simp: settings_of_filter_def list_ex_iff)

lemma settings_of_filter_11_17_18_cases:
  "filter_11_17_18 (settings_of_filter f) = ON \<or> filter_11_17_18 (settings_of_filter f) = OFF"
  by (simp add: settings_of_filter_def)

text \<open>No filter a client can have wants DF5 without DF0 or DF4; unions keep that.\<close>

definition df5_with_df0_or_df4 :: "filter \<Rightarrow> bool" where
  "df5_with_df0_or_df4 f \<longleftrightarrow> receive_df f ! 5 \<longrightarrow> receive_df f ! 0 \<or> receive_df f ! 4"

lemma df5_to_filter: "df5_with_df0_or_df4 (to_filter s)"
  by (simp add: df5_with_df0_or_df4_def to_filter_df)

lemma settings_of_filter_covers:
  assumes "wf_filter f" and "df5_with_df0_or_df4 f" and "accepts f m" and "m_type m \<noteq> POSITION"
  shows "accepts (to_filter (settings_of_filter f)) m"
proof (cases "m_type m = MODE_S_SHORT \<or> m_type m = MODE_S_LONG")
  case True
  let ?j = "nat (df m)"
  have j: "?j < 32" using df_index [OF True] .
  have acc: "receive_df f ! ?j"
    "receive_bad_crc f \<or> receive_verbatim f \<or> \<not> msg_crc_bad m \<or> receive_fec f \<and> msg_correctable m"
    using assms(3) True by (auto simp: accepts_def)
  have "receive_df (to_filter (settings_of_filter f)) ! ?j"
    using settings_of_filter_11_17_18 [of f] settings_of_filter_11_17_18_cases [of f] j acc(1) assms(2)
    by (auto simp: to_filter_df df5_with_df0_or_df4_def)
  then show ?thesis using acc(2) True by (auto simp: accepts_def)
next
  case False
  then show ?thesis using assms(3,4) by (cases "m_type m") (auto simp: accepts_def)
qed

subsection \<open>Properties\<close>

text \<open>
  Status bytes: every byte a Radarcape reports is read into settings that report the
  same byte.
\<close>

theorem status_byte_roundtrip: "to_status_byte (settings_of_byte b) = b"
proof (rule bit_word_eqI)
  fix n assume "n < LENGTH(8)"
  then have "n \<in> {0, 1, 2, 3, 4, 5, 6, 7}" by auto
  then show "bit (to_status_byte (settings_of_byte b)) n = bit b n"
    by (simp only: to_status_byte_bits settings_of_byte_fields ts_simps) auto
qed

text \<open>
  C39: settings text: reading back what \<open>operator<<\<close> prints for settings read from any
  string gives those settings again, and settings read from a string are consistent: never
  GPS timestamps on a Beast, never the DF0/4/5 filter on a Radarcape, and never a request for
  position messages.
\<close>

theorem settings_text_roundtrip:
  "settings_of_string (settings_print (settings_of_string str)) = settings_of_string str \<and>
    consistent_settings (settings_of_string str)"
  by (simp add: settings_print_parse_consistent consistent_settings_of_string)

text \<open>
  C23: asking upstream for enough: if a filter does not want DF5 alone out of DF0, DF4 and
  DF5, then a receiver configured with the settings made from the filter lets through
  every message the filter accepts, position messages apart.
\<close>

theorem settings_of_filter_lose_nothing:
  assumes "wf_filter f" and "receive_df f ! 5 \<longrightarrow> receive_df f ! 0 \<or> receive_df f ! 4"
    and "accepts f m" and "m_type m \<noteq> POSITION"
  shows "accepts (to_filter (settings_of_filter f)) m"
  using assms by (intro settings_of_filter_covers) (simp_all add: df5_with_df0_or_df4_def)

theorem settings_of_filter_lose_nothing_witness:
  "accepts (to_filter (settings_of_filter (default_filter\<lparr>receive_modeac := True\<rparr>)))
     (projr (make_message MODE_AC TWELVEMEG 0 0 [0x12, 0x34]))"
  by (rule settings_of_filter_lose_nothing)
     (simp_all add: wf_filter_def default_filter_def accepts_def make_message_def)

text \<open>
  C36: the inverted DF0/4/5 test: the settings made from a filter that wants DF5 but neither
  DF0 nor DF4 suppress DF5, and the settings made from the filter of any client, including
  one that asked for DF0/4/5 to be suppressed, never suppress them.
\<close>

theorem settings_of_filter_0_4_5_inverted:
  "(receive_df f ! 5 \<and> \<not> receive_df f ! 0 \<and> \<not> receive_df f ! 4 \<longrightarrow>
      \<not> receive_df (to_filter (settings_of_filter f)) ! 5) \<and>
    filter_0_4_5 (settings_of_filter (to_filter s)) = OFF"
proof -
  have "filter_0_4_5 (settings_of_filter (to_filter s)) = OFF"
    using df5_to_filter [of s] by (auto simp: df5_with_df0_or_df4_def)
  then show ?thesis by (simp add: to_filter_df)
qed

theorem settings_of_filter_0_4_5_inverted_witness:
  "\<not> receive_df (to_filter (settings_of_filter
     (default_filter\<lparr>receive_df := (replicate 32 False)[5 := True]\<rparr>))) ! 5"
  using settings_of_filter_0_4_5_inverted
    [of "default_filter\<lparr>receive_df := (replicate 32 False)[5 := True]\<rparr>" default_settings]
  by simp

end
