(* ===== verification/SocketOutput.thy ===== *)
theory SocketOutput
  imports BeastSettings Distributor
begin

section \<open>Client connections (beast_output.h, beast_output.cc)\<close>

text \<open>
  The class \<open>SocketOutput\<close>: the parser of the option commands a client sends, the conversion
  of messages to the client's format, and the double-buffered writer. An operation returns the
  new state and the list of calls it makes to the outside, in order: \<open>io_service::post\<close>,
  \<open>async_write\<close> and the two notifiers. \<open>out_run\<close> below plays the io service: it runs posted
  handlers and completes writes in any interleaving with messages and commands.
\<close>

subsection \<open>State\<close>

datatype command_state = FIND_1A | READ_1 | READ_OPTION

datatype output_call =
    Post_flush
  | Async_write bytebuf
  | Notify_settings settings
  | Notify_close

text \<open>\<open>outbuf\<close> is a shared pointer: \<open>None\<close> is the null pointer.\<close>

record socket_output =
  socket_open :: bool
  command_state :: command_state
  out_settings :: settings
  has_settings_notifier :: bool
  has_close_notifier :: bool
  outbuf :: "bytebuf option"
  flush_pending :: bool

text \<open>
  The members the constructor sets, and \<open>create\<close> with the whole of it: it asks the socket for the
  address of its peer, which throws if the peer has gone.
\<close>

definition new_socket_output :: "settings \<Rightarrow> socket_output" where
  "new_socket_output s =
     \<lparr>socket_open = True, command_state = FIND_1A, out_settings = s,
      has_settings_notifier = False, has_close_notifier = False, outbuf = None,
      flush_pending = False\<rparr>"

definition create_output :: "bool \<Rightarrow> settings \<Rightarrow> failure + socket_output" where
  "create_output peer_known s = (if peer_known then Inr (new_socket_output s) else Inl System_error)"

fun messagetype_to_byte :: "message_type \<Rightarrow> byte" where
  "messagetype_to_byte MODE_AC = 0x31"
| "messagetype_to_byte MODE_S_SHORT = 0x32"
| "messagetype_to_byte MODE_S_LONG = 0x33"
| "messagetype_to_byte STATUS = 0x34"
| "messagetype_to_byte _ = 0"

subsection \<open>Commands\<close>

definition process_option_command :: "byte \<Rightarrow> socket_output \<Rightarrow> socket_output" where
  "process_option_command ch out =
     (let s = out_settings out in
      if ch = ascii CHR ''c'' \<or> ch = ascii CHR ''C''
      then out\<lparr>out_settings := s\<lparr>binary_format := ts_of_bool (ch = ascii CHR ''C'')\<rparr>\<rparr>
      else if ch = ascii CHR ''d'' \<or> ch = ascii CHR ''D''
      then out\<lparr>out_settings := s\<lparr>filter_11_17_18 := ts_of_bool (ch = ascii CHR ''D'')\<rparr>\<rparr>
      else if ch = ascii CHR ''e'' \<or> ch = ascii CHR ''E''
      then out\<lparr>out_settings := s\<lparr>avrmlat := ts_of_bool (ch = ascii CHR ''E'')\<rparr>\<rparr>
      else if ch = ascii CHR ''f'' \<or> ch = ascii CHR ''F''
      then out\<lparr>out_settings := s\<lparr>crc_disable := ts_of_bool (ch = ascii CHR ''F'')\<rparr>\<rparr>
      else if ch = ascii CHR ''g'' \<or> ch = ascii CHR ''G''
      then (if ts_bool False (radarcape s)
            then out\<lparr>out_settings := s\<lparr>gps_timestamps := ts_of_bool (ch = ascii CHR ''G'')\<rparr>\<rparr>
            else out\<lparr>out_settings := s\<lparr>filter_0_4_5 := ts_of_bool (ch = ascii CHR ''G'')\<rparr>\<rparr>)
      else if ch = ascii CHR ''h'' \<or> ch = ascii CHR ''H''
      then out\<lparr>out_settings := s\<lparr>rts_handshake := ts_of_bool (ch = ascii CHR ''H'')\<rparr>\<rparr>
      else if ch = ascii CHR ''i'' \<or> ch = ascii CHR ''I''
      then out\<lparr>out_settings := s\<lparr>fec_disable := ts_of_bool (ch = ascii CHR ''I'')\<rparr>\<rparr>
      else if ch = ascii CHR ''j'' \<or> ch = ascii CHR ''J''
      then out\<lparr>out_settings := s\<lparr>modeac_enable := ts_of_bool (ch = ascii CHR ''J'')\<rparr>\<rparr>
      else if ch = ascii CHR ''v'' \<or> ch = ascii CHR ''V''
      then out\<lparr>out_settings := s\<lparr>verbatim := ts_of_bool (ch = ascii CHR ''V'')\<rparr>\<rparr>
      else out)"

text \<open>One round of the loop of \<open>process_commands\<close>; the flag is \<open>got_a_command\<close>.\<close>

definition command_byte :: "socket_output \<times> bool \<Rightarrow> byte \<Rightarrow> socket_output \<times> bool" where
  "command_byte st p =
     (let (out, got_a_command) = st in
      case command_state out of
        FIND_1A \<Rightarrow>
          (if p = 0x1A then (out\<lparr>command_state := READ_1\<rparr>, got_a_command)
           else (out, got_a_command))
      | READ_1 \<Rightarrow>
          (if p = 0x31 then (out\<lparr>command_state := READ_OPTION\<rparr>, got_a_command)
           else (out\<lparr>command_state := FIND_1A\<rparr>, got_a_command))
      | READ_OPTION \<Rightarrow> ((process_option_command p out)\<lparr>command_state := FIND_1A\<rparr>, True))"

definition process_commands :: "bytebuf \<Rightarrow> socket_output \<Rightarrow> socket_output \<times> output_call list" where
  "process_commands data out =
     (let (out, got_a_command) = foldl command_byte (out, False) data in
      (out, if got_a_command \<and> has_settings_notifier out
           then [Notify_settings (out_settings out)] else []))"

subsection \<open>Buffering\<close>

definition prepare_write :: "socket_output \<Rightarrow> socket_output" where
  "prepare_write out = (if outbuf out = None then out\<lparr>outbuf := Some []\<rparr> else out)"

definition complete_write :: "socket_output \<Rightarrow> socket_output \<times> output_call list" where
  "complete_write out =
     (if \<not> flush_pending out \<and> outbuf out \<noteq> Some []
      then (out\<lparr>flush_pending := True\<rparr>, [Post_flush]) else (out, []))"

definition flush_outbuf :: "socket_output \<Rightarrow> socket_output \<times> output_call list" where
  "flush_outbuf out =
     (case outbuf out of
        None \<Rightarrow> (out, [])
      | Some [] \<Rightarrow> (out, [])
      | Some buf \<Rightarrow> (out\<lparr>outbuf := None\<rparr>, [Async_write buf]))"

definition close_output :: "socket_output \<Rightarrow> socket_output \<times> output_call list" where
  "close_output out =
     (out\<lparr>socket_open := False\<rparr>, if has_close_notifier out then [Notify_close] else [])"

text \<open>\<open>handle_error\<close> logs the error, depending on its code, and closes.\<close>

definition handle_output_error :: "socket_output \<Rightarrow> socket_output \<times> output_call list" where
  "handle_output_error out = close_output out"

text \<open>The completion handler of the \<open>async_write\<close> in \<open>flush_outbuf\<close>.\<close>

definition write_handler :: "bool \<Rightarrow> socket_output \<Rightarrow> socket_output \<times> output_call list" where
  "write_handler ec out =
     (let out = out\<lparr>flush_pending := False\<rparr>;
          out = (if outbuf out = None then out\<lparr>outbuf := Some []\<rparr> else out)
      in if ec then handle_output_error out else (out, []))"

text \<open>The completion handler of the read in \<open>read_commands\<close>; reading goes on unless it failed.\<close>

definition read_handler :: "bytebuf option \<Rightarrow> socket_output \<Rightarrow> socket_output \<times> output_call list" where
  "read_handler r out =
     (case r of None \<Rightarrow> handle_output_error out | Some data \<Rightarrow> process_commands data out)"

subsection \<open>Formats\<close>

definition push_back_beast :: "bytebuf \<Rightarrow> byte \<Rightarrow> bytebuf" where
  "push_back_beast v b = (let v = (if b = 0x1A then v @ [0x1A] else v) in v @ [b])"

definition on_outbuf :: "(bytebuf \<Rightarrow> bytebuf) \<Rightarrow> socket_output \<Rightarrow> socket_output" where
  "on_outbuf f out = out\<lparr>outbuf := map_option f (outbuf out)\<rparr>"

definition write_binary ::
  "message_type \<Rightarrow> u64 \<Rightarrow> byte \<Rightarrow> bytebuf \<Rightarrow> socket_output \<Rightarrow> socket_output \<times> output_call list" where
  "write_binary type timestamp sig data out =
     (let out = prepare_write out;
          out = on_outbuf (\<lambda>v. v @ [0x1A]) out;
          out = on_outbuf (\<lambda>v. v @ [messagetype_to_byte type]) out;
          out = (if type \<noteq> POSITION
                then on_outbuf (\<lambda>v.
                  let v = push_back_beast v (ucast (drop_bit 40 timestamp AND 0xFF));
                      v = push_back_beast v (ucast (drop_bit 32 timestamp AND 0xFF));
                      v = push_back_beast v (ucast (drop_bit 24 timestamp AND 0xFF));
                      v = push_back_beast v (ucast (drop_bit 16 timestamp AND 0xFF));
                      v = push_back_beast v (ucast (drop_bit 8 timestamp AND 0xFF));
                      v = push_back_beast v (ucast (timestamp AND 0xFF))
                  in push_back_beast v sig) out
                else out);
          out = on_outbuf (\<lambda>v. foldl push_back_beast v data) out
      in complete_write out)"

definition hexdigits :: bytebuf where
  "hexdigits = map ascii ''0123456789ABCDEF''"

definition push_back_hex :: "bytebuf \<Rightarrow> byte \<Rightarrow> bytebuf" where
  "push_back_hex v b =
     (let v = v @ [hexdigits ! unat (drop_bit 4 b AND 0x0F)] in v @ [hexdigits ! unat (b AND 0x0F)])"

definition write_avr :: "bytebuf \<Rightarrow> socket_output \<Rightarrow> socket_output \<times> output_call list" where
  "write_avr data out =
     (let out = prepare_write out;
          out = on_outbuf (\<lambda>v. v @ [ascii CHR ''*'']) out;
          out = on_outbuf (\<lambda>v. foldl push_back_hex v data) out;
          out = on_outbuf (\<lambda>v. v @ [ascii CHR '';'']) out;
          out = on_outbuf (\<lambda>v. v @ [ascii CHR 0x0A]) out
      in complete_write out)"

definition write_avrmlat :: "u64 \<Rightarrow> bytebuf \<Rightarrow> socket_output \<Rightarrow> socket_output \<times> output_call list" where
  "write_avrmlat timestamp data out =
     (let out = prepare_write out;
          out = on_outbuf (\<lambda>v. v @ [ascii CHR ''@'']) out;
          out = on_outbuf (\<lambda>v.
            let v = push_back_hex v (ucast (drop_bit 40 timestamp AND 0xFF));
                v = push_back_hex v (ucast (drop_bit 32 timestamp AND 0xFF));
                v = push_back_hex v (ucast (drop_bit 24 timestamp AND 0xFF));
                v = push_back_hex v (ucast (drop_bit 16 timestamp AND 0xFF));
                v = push_back_hex v (ucast (drop_bit 8 timestamp AND 0xFF))
            in push_back_hex v (ucast (timestamp AND 0xFF))) out;
          out = on_outbuf (\<lambda>v. foldl push_back_hex v data) out;
          out = on_outbuf (\<lambda>v. v @ [ascii CHR '';'']) out;
          out = on_outbuf (\<lambda>v. v @ [ascii CHR 0x0A]) out
      in complete_write out)"

subsection \<open>Messages\<close>

definition twelvemeg_to_gps :: "u64 \<Rightarrow> u64" where
  "twelvemeg_to_gps timestamp =
     (let ns = timestamp * 1000 div 12;
          seconds = ns div 1000000000 mod 86400;
          nanos = ns mod 1000000000
      in push_bit 30 seconds OR nanos)"

definition gps_to_twelvemeg :: "u64 \<Rightarrow> u64" where
  "gps_to_twelvemeg timestamp =
     (let seconds = drop_bit 30 timestamp;
          nanos = timestamp AND 0x3FFFFFFF;
          ns = seconds * 1000000000 + nanos
      in ns * 12 div 1000)"

definition write_message ::
  "message_type \<Rightarrow> timestamp_type \<Rightarrow> u64 \<Rightarrow> byte \<Rightarrow> bytebuf \<Rightarrow> socket_output \<Rightarrow>
    socket_output \<times> output_call list" where
  "write_message type timestamp_type timestamp sig data out =
     (let s = out_settings out;
          timestamp =
            (if timestamp_type = TWELVEMEG \<and> radarcape s \<noteq> OFF \<and> gps_timestamps s = ON
             then twelvemeg_to_gps timestamp
             else if timestamp_type = GPS \<and> (radarcape s = OFF \<or> gps_timestamps s = OFF)
             then gps_to_twelvemeg timestamp
             else timestamp)
      in if ts_bool True (binary_format s) then write_binary type timestamp sig data out
         else if ts_bool True (avrmlat s)
         then (if type \<noteq> STATUS \<and> type \<noteq> POSITION then write_avrmlat timestamp data out
               else (out, []))
         else (if type \<noteq> STATUS \<and> type \<noteq> POSITION then write_avr data out else (out, [])))"

definition write_output ::
  "message \<Rightarrow> socket_output \<Rightarrow> failure + socket_output \<times> output_call list" where
  "write_output m out =
     (if \<not> socket_open out then Inr (out, [])
      else if m_type m = STATUS then
        (let upstream = settings_of_byte (m_data m ! 0);
             used = settings_or (out_settings out) upstream;
             copy = (m_data m)[0 := to_status_byte used];
             copy = (if gps_timestamps (out_settings out) = ON \<and> gps_timestamps upstream \<noteq> ON
                     then (let copy = copy[2 := copy ! 2 OR 0x80] in copy[2 := copy ! 2 OR 0x20])
                     else copy)
         in Inr (write_message (m_type m) (m_timestamp_type m) (m_timestamp m) (m_signal m) copy out))
      else
        (let s = out_settings out;
             needs_fec = \<not> ts_bool False (verbatim s) \<and> \<not> ts_bool False (fec_disable s) \<and>
               msg_correctable m
         in ebind (if needs_fec then msg_corrected_data m else Inr (m_data m)) (\<lambda>data.
              Inr (write_message (m_type m) (m_timestamp_type m) (m_timestamp m) (m_signal m)
                data out))))"

subsection \<open>Timestamp arithmetic\<close>

text \<open>
  Timestamps read from a receiver have 48 bits; none of the 64-bit products and sums of the two
  conversions wraps around for them.
\<close>

lemma or_disjoint_fields:
  fixes s n :: u64
  assumes "unat s < 2 ^ 34" and "unat n < 2 ^ 30"
  shows "unat (push_bit 30 s OR n) = unat s * 2 ^ 30 + unat n"
proof -
  have n: "n = take_bit 30 n"
    using assms(2) by (simp add: word_unat_eq_iff unsigned_take_bit_eq take_bit_nat_eq_self)
  have "push_bit 30 s AND n = 0"
    by (subst n) (auto simp: bit_eq_iff bit_simps)
  then have d: "push_bit 30 s OR n = push_bit 30 s + n"
    by (simp only: disjunctive_add_eq_or)
  have p: "push_bit 30 s = s * 2 ^ 30" by (simp add: push_bit_eq_mult)
  have e: "push_bit 30 s OR n = s * 2 ^ 30 + n" using d by (simp only: p)
  have m: "unat (s * 2 ^ 30) = unat s * 2 ^ 30"
    using assms(1) by (subst unat_mult_lem [THEN iffD1]) simp_all
  show ?thesis
    unfolding e using assms m by (subst unat_add_lem [THEN iffD1]) simp_all
qed

lemma unat_twelvemeg_to_gps:
  assumes "unat t < 2 ^ 48"
  shows "unat (twelvemeg_to_gps t) =
    (let ns = unat t * 1000 div 12 in ns div 10 ^ 9 mod 86400 * 2 ^ 30 + ns mod 10 ^ 9)"
proof -
  define ns where "ns = t * 1000 div 12"
  have "unat (t * 1000) = unat t * 1000"
    using assms by (subst unat_mult_lem [THEN iffD1]) simp_all
  then have ns: "unat ns = unat t * 1000 div 12"
    by (simp add: ns_def unat_div)
  let ?s = "ns div 1000000000 mod 86400" and ?n = "ns mod 1000000000"
  have s: "unat ?s = unat ns div 10 ^ 9 mod 86400" by (simp add: unat_div unat_mod)
  have n: "unat ?n = unat ns mod 10 ^ 9" by (simp add: unat_mod)
  have "unat ?s < 2 ^ 34" unfolding s by (rule less_trans [OF mod_less_divisor]) simp_all
  moreover have "unat ?n < 2 ^ 30" unfolding n by (rule less_trans [OF mod_less_divisor]) simp_all
  ultimately have "unat (push_bit 30 ?s OR ?n) = unat ?s * 2 ^ 30 + unat ?n"
    by (rule or_disjoint_fields)
  then show ?thesis
    by (simp add: twelvemeg_to_gps_def Let_def s n ns flip: ns_def)
qed

lemma unat_gps_to_twelvemeg:
  assumes "unat t < 2 ^ 48"
  shows "unat (gps_to_twelvemeg t) =
    (unat t div 2 ^ 30 * 10 ^ 9 + unat t mod 2 ^ 30) * 12 div 1000"
proof -
  have s: "unat (drop_bit 30 t) = unat t div 2 ^ 30"
    by (simp add: drop_bit_eq_div unat_div)
  have "(0x3FFFFFFF :: u64) = mask 30" by (simp add: mask_eq_exp_minus_1)
  then have "t AND 0x3FFFFFFF = take_bit 30 t" by (simp add: take_bit_eq_mask)
  then have n: "unat (t AND 0x3FFFFFFF) = unat t mod 2 ^ 30"
    by (simp add: take_bit_eq_mod unat_mod)
  have b: "unat t div 2 ^ 30 < 2 ^ 18" using assms by (simp add: div_less_iff_less_mult)
  have "unat (drop_bit 30 t * 1000000000) = unat t div 2 ^ 30 * 10 ^ 9"
    using b by (subst unat_mult_lem [THEN iffD1]) (simp_all add: s)
  moreover have "unat t mod 2 ^ 30 < 2 ^ 30" by simp
  ultimately have a: "unat (drop_bit 30 t * 1000000000 + (t AND 0x3FFFFFFF)) =
      unat t div 2 ^ 30 * 10 ^ 9 + unat t mod 2 ^ 30"
    using b by (subst unat_add_lem [THEN iffD1]) (simp_all add: n)
  have "unat t div 2 ^ 30 * 10 ^ 9 + unat t mod 2 ^ 30 < 2 ^ 49"
    using b by (simp add: add_less_mono less_trans)
  then have "unat ((drop_bit 30 t * 1000000000 + (t AND 0x3FFFFFFF)) * 12) =
      (unat t div 2 ^ 30 * 10 ^ 9 + unat t mod 2 ^ 30) * 12"
    by (subst unat_mult_lem [THEN iffD1]) (simp_all add: a)
  then show ?thesis by (simp add: gps_to_twelvemeg_def unat_div Let_def)
qed


lemma twelve_thousand: "t * 1000 div 12 * 12 div 1000 = (if 3 dvd t then t else t - 1)" for t :: nat
proof -
  define k r where "k = t div 3" and "r = t mod 3"
  have t: "t = 3 * k + r" by (simp add: k_def r_def)
  have r: "r = 0 \<or> r = 1 \<or> r = 2" unfolding r_def by linarith
  have "t * 1000 = r * 1000 + 250 * k * 12" by (simp add: t)
  then have a: "t * 1000 div 12 = 250 * k + r * 1000 div 12"
    by (simp add: div_mult_self1)
  have "(250 * k + r * 1000 div 12) * 12 = r * 1000 div 12 * 12 + 3 * k * 1000" by simp
  then have "t * 1000 div 12 * 12 div 1000 = 3 * k + r * 1000 div 12 * 12 div 1000"
    unfolding a by (simp add: div_mult_self1)
  moreover have "3 dvd t \<longleftrightarrow> r = 0" by (simp add: r_def dvd_eq_mod_eq_0)
  ultimately show ?thesis using r t by auto
qed

lemma twelve_thousand_back:
  "n - 84 \<le> n * 12 div 1000 * 1000 div 12 \<and> n * 12 div 1000 * 1000 div 12 \<le> n" for n :: nat
proof -
  define a where "a = n * 12 div 1000"
  have a: "a * 1000 \<le> n * 12" "n * 12 < a * 1000 + 1000"
    unfolding a_def by linarith+
  have "a * 1000 div 12 * 12 \<le> a * 1000" "a * 1000 < a * 1000 div 12 * 12 + 12" by linarith+
  with a show ?thesis unfolding a_def [symmetric] by linarith
qed

text \<open>The nanoseconds since midnight a GPS timestamp stands for.\<close>

definition gps_ns :: "u64 \<Rightarrow> nat" where
  "gps_ns t = unat t div 2 ^ 30 * 10 ^ 9 + unat t mod 2 ^ 30"

lemma gps_fields:
  assumes "unat t < 2 ^ 48"
  shows "unat (twelvemeg_to_gps t) div 2 ^ 30 = unat t * 1000 div 12 div 10 ^ 9 mod 86400"
    and "unat (twelvemeg_to_gps t) mod 2 ^ 30 = unat t * 1000 div 12 mod 10 ^ 9"
    and "unat (twelvemeg_to_gps t) < 2 ^ 47"
proof -
  have n: "n mod 10 ^ 9 < 2 ^ 30" for n :: nat
    by (rule less_trans [OF mod_less_divisor]) simp_all
  show "unat (twelvemeg_to_gps t) div 2 ^ 30 = unat t * 1000 div 12 div 10 ^ 9 mod 86400"
    "unat (twelvemeg_to_gps t) mod 2 ^ 30 = unat t * 1000 div 12 mod 10 ^ 9"
    using n [of "unat t * 1000 div 12"]
    by (simp_all add: unat_twelvemeg_to_gps [OF assms] Let_def)
  have "unat t * 1000 div 12 div 10 ^ 9 mod 86400 < 86400" by simp
  then show "unat (twelvemeg_to_gps t) < 2 ^ 47"
    using n [of "unat t * 1000 div 12"]
    unfolding unat_twelvemeg_to_gps [OF assms] Let_def by simp
qed

text \<open>The day is lost, the time of day is kept.\<close>

lemma gps_ns_twelvemeg_to_gps:
  assumes "unat t < 2 ^ 48"
  shows "gps_ns (twelvemeg_to_gps t) = unat t mod (86400 * 12000000) * 1000 div 12"
proof -
  let ?D = "86400 * 12000000 :: nat"
  have "n * 1000 = r * 1000 + q * (86400 * 10 ^ 9) * 12" if "n = q * ?D + r" for n q r :: nat
    using that by simp
  from this [OF div_mult_mod_eq [symmetric]]
  have "unat t * 1000 = unat t mod ?D * 1000 + unat t div ?D * (86400 * 10 ^ 9) * 12" .
  then have "unat t * 1000 div 12 = unat t mod ?D * 1000 div 12 + unat t div ?D * (86400 * 10 ^ 9)"
    by (simp only: div_mult_self1 zero_neq_numeral not_False_eq_True ac_simps)
  moreover have "unat t mod ?D * 1000 div 12 < 86400 * 10 ^ 9"
    using mod_less_divisor [of ?D "unat t"] by (simp add: div_less_iff_less_mult)
  ultimately have "unat t * 1000 div 12 mod (86400 * 10 ^ 9) = unat t mod ?D * 1000 div 12"
    by (simp only: mod_mult_self1 mod_less)
  moreover have "gps_ns (twelvemeg_to_gps t) = unat t * 1000 div 12 mod (10 ^ 9 * 86400)"
    unfolding gps_ns_def gps_fields(1,2) [OF assms] mod_mult2_eq by simp
  ultimately show ?thesis by (simp only: mult.commute)
qed

lemma unat_gps_to_twelvemeg_ns:
  "unat t < 2 ^ 48 \<Longrightarrow> unat (gps_to_twelvemeg t) = gps_ns t * 12 div 1000"
  by (simp add: unat_gps_to_twelvemeg gps_ns_def)

lemma ticks_and_back:
  assumes "unat t < 2 ^ 48"
  shows "unat (gps_to_twelvemeg (twelvemeg_to_gps t)) =
    (let r = unat t mod (86400 * 12000000) in if 3 dvd r then r else r - 1)"
proof -
  have "unat (twelvemeg_to_gps t) < 2 ^ 48" using gps_fields(3) [OF assms] by simp
  then show ?thesis
    by (simp only: unat_gps_to_twelvemeg_ns gps_ns_twelvemeg_to_gps [OF assms] twelve_thousand Let_def)
qed

lemma gps_and_back:
  assumes "unat t < 2 ^ 48"
  shows "gps_ns (twelvemeg_to_gps (gps_to_twelvemeg t)) \<le> gps_ns t mod (86400 * 10 ^ 9)"
    and "gps_ns t mod (86400 * 10 ^ 9) \<le> gps_ns (twelvemeg_to_gps (gps_to_twelvemeg t)) + 84"
proof -
  let ?n = "gps_ns t mod (86400 * 10 ^ 9)" and ?q = "gps_ns t div (86400 * 10 ^ 9)"
  have "a * 10 ^ 9 + b < 2 ^ 49" if "a < 2 ^ 18" and "b < 2 ^ 30" for a b :: nat using that by simp
  moreover have "unat t div 2 ^ 30 < 2 ^ 18" using assms by (simp add: div_less_iff_less_mult)
  ultimately have "gps_ns t < 2 ^ 49" unfolding gps_ns_def by simp
  then have small: "unat (gps_to_twelvemeg t) < 2 ^ 48"
    unfolding unat_gps_to_twelvemeg_ns [OF assms] by (simp add: div_less_iff_less_mult)
  have "m * 12 = r * 12 + q * (86400 * 12000000) * 1000" if "m = q * (86400 * 10 ^ 9) + r" for m q r :: nat
    using that by simp
  from this [OF div_mult_mod_eq [symmetric]]
  have "gps_ns t * 12 = ?n * 12 + ?q * (86400 * 12000000) * 1000" .
  then have "gps_ns t * 12 div 1000 = ?n * 12 div 1000 + ?q * (86400 * 12000000)"
    by (simp only: div_mult_self1 zero_neq_numeral not_False_eq_True ac_simps)
  moreover have "?n * 12 div 1000 < 86400 * 12000000"
    using mod_less_divisor [of "86400 * 10 ^ 9" "gps_ns t"] by (simp add: div_less_iff_less_mult)
  ultimately have "gps_ns t * 12 div 1000 mod (86400 * 12000000) = ?n * 12 div 1000"
    by (simp only: mod_mult_self1 mod_less)
  then have "gps_ns (twelvemeg_to_gps (gps_to_twelvemeg t)) = ?n * 12 div 1000 * 1000 div 12"
    by (simp only: gps_ns_twelvemeg_to_gps [OF small] unat_gps_to_twelvemeg_ns [OF assms])
  then show "gps_ns (twelvemeg_to_gps (gps_to_twelvemeg t)) \<le> ?n"
    "?n \<le> gps_ns (twelvemeg_to_gps (gps_to_twelvemeg t)) + 84"
    using twelve_thousand_back [of ?n] by linarith+
qed

subsection \<open>What each message adds to the output\<close>

text \<open>
  The reference for the writers: the bytes a message is encoded as, and \<open>enqueue\<close>, which adds
  bytes to the buffer and asks for a flush unless one is under way.
\<close>

definition escape_1A :: "bytebuf \<Rightarrow> bytebuf" where
  "escape_1A d = concat (map (\<lambda>b. if b = 0x1A then [0x1A, 0x1A] else [b]) d)"

definition timestamp_bytes :: "u64 \<Rightarrow> bytebuf" where
  "timestamp_bytes t =
     [byte_at 40 t, byte_at 32 t, byte_at 24 t, byte_at 16 t, byte_at 8 t, byte_at 0 t]"

definition beast_frame :: "message_type \<Rightarrow> u64 \<Rightarrow> byte \<Rightarrow> bytebuf \<Rightarrow> bytebuf" where
  "beast_frame type t sig d =
     [0x1A, messagetype_to_byte type] @
     escape_1A ((if type \<noteq> POSITION then timestamp_bytes t @ [sig] else []) @ d)"

definition hex_text :: "bytebuf \<Rightarrow> bytebuf" where
  "hex_text d =
     concat (map (\<lambda>b. [hexdigits ! unat (drop_bit 4 b AND 0x0F), hexdigits ! unat (b AND 0x0F)]) d)"

definition avr_line :: "bytebuf \<Rightarrow> bytebuf" where
  "avr_line d = ascii CHR ''*'' # hex_text d @ [ascii CHR '';'', ascii CHR 0x0A]"

definition avrmlat_line :: "u64 \<Rightarrow> bytebuf \<Rightarrow> bytebuf" where
  "avrmlat_line t d =
     ascii CHR ''@'' # hex_text (timestamp_bytes t @ d) @ [ascii CHR '';'', ascii CHR 0x0A]"

definition output_timestamp :: "settings \<Rightarrow> timestamp_type \<Rightarrow> u64 \<Rightarrow> u64" where
  "output_timestamp s tt t =
     (if tt = TWELVEMEG \<and> radarcape s \<noteq> OFF \<and> gps_timestamps s = ON then twelvemeg_to_gps t
      else if tt = GPS \<and> (radarcape s = OFF \<or> gps_timestamps s = OFF) then gps_to_twelvemeg t
      else t)"

definition encoding ::
  "settings \<Rightarrow> message_type \<Rightarrow> timestamp_type \<Rightarrow> u64 \<Rightarrow> byte \<Rightarrow> bytebuf \<Rightarrow> bytebuf" where
  "encoding s type tt t sig d =
     (if binary_format s \<noteq> OFF then beast_frame type (output_timestamp s tt t) sig d
      else if type = STATUS \<or> type = POSITION then []
      else if avrmlat s \<noteq> OFF then avrmlat_line (output_timestamp s tt t) d
      else avr_line d)"

definition buffered :: "socket_output \<Rightarrow> bytebuf" where
  "buffered out = (case outbuf out of None \<Rightarrow> [] | Some v \<Rightarrow> v)"

definition enqueue :: "bytebuf \<Rightarrow> socket_output \<Rightarrow> socket_output \<times> output_call list" where
  "enqueue bs out =
     (if bs = [] then (out, [])
      else (out\<lparr>outbuf := Some (buffered out @ bs), flush_pending := True\<rparr>,
        if flush_pending out then [] else [Post_flush]))"

lemma escape_append: "escape_1A (d @ e) = escape_1A d @ escape_1A e"
  by (simp add: escape_1A_def)

lemma push_back_beast_escape: "push_back_beast v b = v @ escape_1A [b]"
  by (simp add: push_back_beast_def escape_1A_def)

lemma foldl_push_back_beast: "foldl push_back_beast v d = v @ escape_1A d"
proof (induction d arbitrary: v)
  case (Cons b d)
  then show ?case
    using escape_append [of "[b]" d] by (simp add: push_back_beast_escape)
qed (simp add: escape_1A_def)

lemma hex_append: "hex_text (d @ e) = hex_text d @ hex_text e"
  by (simp add: hex_text_def)

lemma push_back_hex_text: "push_back_hex v b = v @ hex_text [b]"
  by (simp add: push_back_hex_def hex_text_def Let_def)

lemma foldl_push_back_hex: "foldl push_back_hex v d = v @ hex_text d"
proof (induction d arbitrary: v)
  case (Cons b d)
  then show ?case
    using hex_append [of "[b]" d] by (simp add: push_back_hex_text)
qed (simp add: hex_text_def)

lemma outbuf_prepare: "outbuf (prepare_write out) = Some (buffered out)"
  by (auto simp: prepare_write_def buffered_def split: option.split)

lemma on_outbuf_twice: "on_outbuf g (on_outbuf f out) = on_outbuf (\<lambda>v. g (f v)) out"
  by (simp add: on_outbuf_def option.map_comp comp_def)

lemma complete_on_prepared:
  assumes "f (buffered out) = buffered out @ bs" and "bs \<noteq> []"
  shows "complete_write (on_outbuf f (prepare_write out)) = enqueue bs out"
proof -
  have "flush_pending (prepare_write out) = flush_pending out"
    by (simp add: prepare_write_def)
  moreover have "(prepare_write out)\<lparr>outbuf := v\<rparr> = out\<lparr>outbuf := v\<rparr>" for v
    by (simp add: prepare_write_def)
  ultimately show ?thesis
    using assms by (auto simp: complete_write_def on_outbuf_def outbuf_prepare enqueue_def)
qed

lemma write_binary_enqueue: "write_binary type t sig d out = enqueue (beast_frame type t sig d) out"
  by (auto simp: write_binary_def Let_def on_outbuf_twice beast_frame_def foldl_push_back_beast
      push_back_beast_escape timestamp_bytes_def byte_at_def escape_append [symmetric]
      intro!: complete_on_prepared)

lemma write_avr_enqueue: "write_avr d out = enqueue (avr_line d) out"
  by (auto simp: write_avr_def Let_def on_outbuf_twice avr_line_def foldl_push_back_hex
      intro!: complete_on_prepared)

lemma write_avrmlat_enqueue: "write_avrmlat t d out = enqueue (avrmlat_line t d) out"
  by (auto simp: write_avrmlat_def Let_def on_outbuf_twice avrmlat_line_def foldl_push_back_hex
      push_back_hex_text timestamp_bytes_def byte_at_def hex_append [symmetric]
      intro!: complete_on_prepared)

lemma write_message_enqueue:
  "write_message type tt t sig d out = enqueue (encoding (out_settings out) type tt t sig d) out"
proof -
  have "ts_bool True x \<longleftrightarrow> x \<noteq> OFF" for x by (cases x) (simp_all add: ts_bool_def)
  then show ?thesis
    by (simp add: write_message_def encoding_def output_timestamp_def write_binary_enqueue
        write_avr_enqueue write_avrmlat_enqueue enqueue_def Let_def)
qed

text \<open>The data a client gets for a message, and all the bytes.\<close>

definition wants_fec :: "settings \<Rightarrow> bool" where
  "wants_fec s \<longleftrightarrow> verbatim s \<noteq> ON \<and> fec_disable s \<noteq> ON"

definition status_copy :: "settings \<Rightarrow> bytebuf \<Rightarrow> bytebuf" where
  "status_copy s d =
     (let upstream = settings_of_byte (d ! 0);
          d = d[0 := to_status_byte (settings_or s upstream)]
      in if gps_timestamps s = ON \<and> gps_timestamps upstream \<noteq> ON
         then d[2 := d ! 2 OR 0x80 OR 0x20] else d)"

definition client_data :: "settings \<Rightarrow> message \<Rightarrow> failure + bytebuf" where
  "client_data s m =
     (if m_type m = STATUS then Inr (status_copy s (m_data m))
      else if wants_fec s \<and> msg_correctable m then msg_corrected_data m
      else Inr (m_data m))"

definition client_bytes :: "settings \<Rightarrow> message \<Rightarrow> failure + bytebuf" where
  "client_bytes s m =
     ebind (client_data s m) (\<lambda>d.
       Inr (encoding s (m_type m) (m_timestamp_type m) (m_timestamp m) (m_signal m) d))"

lemma settings_or_fields:
  "binary_format (settings_or s t) = ts_or (binary_format s) (binary_format t)"
  "filter_11_17_18 (settings_or s t) = ts_or (filter_11_17_18 s) (filter_11_17_18 t)"
  "avrmlat (settings_or s t) = ts_or (avrmlat s) (avrmlat t)"
  "crc_disable (settings_or s t) = ts_or (crc_disable s) (crc_disable t)"
  "gps_timestamps (settings_or s t) = ts_or (gps_timestamps s) (gps_timestamps t)"
  "rts_handshake (settings_or s t) = ts_or (rts_handshake s) (rts_handshake t)"
  "fec_disable (settings_or s t) = ts_or (fec_disable s) (fec_disable t)"
  "modeac_enable (settings_or s t) = ts_or (modeac_enable s) (modeac_enable t)"
  "filter_0_4_5 (settings_or s t) = ts_or (filter_0_4_5 s) (filter_0_4_5 t)"
  "radarcape (settings_or s t) = ts_or (radarcape s) (radarcape t)"
  "verbatim (settings_or s t) = ts_or (verbatim s) (verbatim t)"
  "position_enable (settings_or s t) = position_enable s"
  by (simp_all add: settings_or_def)

lemma write_output_enqueue:
  assumes "socket_open out" and "wf_message m"
  shows "write_output m out =
    ebind (client_bytes (out_settings out) m) (\<lambda>bs. Inr (enqueue bs out))"
proof -
  have "wants_fec s \<longleftrightarrow> \<not> ts_bool False (verbatim s) \<and> \<not> ts_bool False (fec_disable s)" for s
    by (simp add: wants_fec_def ts_bool_def)
  moreover have "m_type m = STATUS \<Longrightarrow> length (m_data m) = 14"
    using assms(2) by (simp add: wf_message_def)
  ultimately show ?thesis
    using assms(1)
    by (simp add: write_output_def client_bytes_def client_data_def status_copy_def
        write_message_enqueue ebind_assoc Let_def or.assoc)
qed

lemma write_output_closed: "\<not> socket_open out \<Longrightarrow> write_output m out = Inr (out, [])"
  by (simp add: write_output_def)

lemma client_bytes_failure:
  "client_bytes s m = Inl e \<longleftrightarrow>
    m_type m \<noteq> STATUS \<and> wants_fec s \<and> msg_correctable m \<and> msg_corrected_data m = Inl e"
  by (auto simp: client_bytes_def client_data_def split: if_splits)
     (metis ebind_simps obj_sumE sum.distinct(1) sum.inject(1))+

subsection \<open>The command parser\<close>

lemma process_option_command_frame [effect_simps]:
  "socket_open (process_option_command ch out) = socket_open out"
  "command_state (process_option_command ch out) = command_state out"
  "has_settings_notifier (process_option_command ch out) = has_settings_notifier out"
  "has_close_notifier (process_option_command ch out) = has_close_notifier out"
  "outbuf (process_option_command ch out) = outbuf out"
  "flush_pending (process_option_command ch out) = flush_pending out"
  "radarcape (out_settings (process_option_command ch out)) = radarcape (out_settings out)"
  "position_enable (out_settings (process_option_command ch out)) = position_enable (out_settings out)"
  by (simp_all del: ascii_Char add: process_option_command_def Let_def)

lemma command_byte_frame [effect_simps]:
  "socket_open (fst (command_byte st p)) = socket_open (fst st)"
  "has_settings_notifier (fst (command_byte st p)) = has_settings_notifier (fst st)"
  "has_close_notifier (fst (command_byte st p)) = has_close_notifier (fst st)"
  "outbuf (fst (command_byte st p)) = outbuf (fst st)"
  "flush_pending (fst (command_byte st p)) = flush_pending (fst st)"
  "radarcape (out_settings (fst (command_byte st p))) = radarcape (out_settings (fst st))"
  "position_enable (out_settings (fst (command_byte st p))) = position_enable (out_settings (fst st))"
  by (simp_all add: command_byte_def process_option_command_frame split: prod.split command_state.split)

lemma command_bytes_frame [effect_simps]:
  "socket_open (fst (foldl command_byte st data)) = socket_open (fst st)"
  "has_settings_notifier (fst (foldl command_byte st data)) = has_settings_notifier (fst st)"
  "has_close_notifier (fst (foldl command_byte st data)) = has_close_notifier (fst st)"
  "outbuf (fst (foldl command_byte st data)) = outbuf (fst st)"
  "flush_pending (fst (foldl command_byte st data)) = flush_pending (fst st)"
  "radarcape (out_settings (fst (foldl command_byte st data))) = radarcape (out_settings (fst st))"
  "position_enable (out_settings (fst (foldl command_byte st data))) = position_enable (out_settings (fst st))"
  by (induction data arbitrary: st) (simp_all add: command_byte_frame)

lemma command_byte_flag:
  "command_byte (out, g) p = (fst (command_byte (out, False) p), g \<or> snd (command_byte (out, False) p))"
  by (simp add: command_byte_def split: command_state.split)

lemma command_bytes_flag:
  "foldl command_byte (out, g) data =
    (fst (foldl command_byte (out, False) data), g \<or> snd (foldl command_byte (out, False) data))"
proof (induction data arbitrary: out g)
  case (Cons p data)
  obtain o1 g1 where s: "command_byte (out, False) p = (o1, g1)" by (cases "command_byte (out, False) p")
  with command_byte_flag [of out g p] have "command_byte (out, g) p = (o1, g \<or> g1)" by simp
  then show ?case using Cons.IH [of o1 g1] Cons.IH [of o1 "g \<or> g1"] s by simp
qed simp

lemma command_bytes_quiet:
  "\<not> snd (foldl command_byte (out, g) data) \<Longrightarrow>
    out_settings (fst (foldl command_byte (out, g) data)) = out_settings out \<and> \<not> g"
proof (induction data arbitrary: out g)
  case (Cons p data)
  obtain o1 g1 where s: "command_byte (out, g) p = (o1, g1)" by (cases "command_byte (out, g) p")
  with Cons.prems have "\<not> snd (foldl command_byte (o1, g1) data)" by simp
  then have "out_settings (fst (foldl command_byte (o1, g1) data)) = out_settings o1 \<and> \<not> g1"
    by (rule Cons.IH)
  moreover from this have "out_settings o1 = out_settings out \<and> \<not> g"
    using s by (auto simp: command_byte_def split: command_state.splits if_splits)
  ultimately show ?case unfolding foldl_Cons s by metis
qed simp

lemma process_commands_fst: "fst (process_commands data out) = fst (foldl command_byte (out, False) data)"
  by (simp add: process_commands_def split: prod.split)

text \<open>The settings the listener was last told, after a list of calls.\<close>

definition last_told :: "settings \<Rightarrow> output_call list \<Rightarrow> settings" where
  "last_told s cs = foldl (\<lambda>s c. case c of Notify_settings s' \<Rightarrow> s' | _ \<Rightarrow> s) s cs"

lemma process_commands_told:
  assumes "has_settings_notifier out"
  shows "last_told (out_settings out) (snd (process_commands data out)) =
    out_settings (fst (process_commands data out))"
proof -
  obtain o1 g where f: "foldl command_byte (out, False) data = (o1, g)"
    by (cases "foldl command_byte (out, False) data")
  with assms command_bytes_frame(2) [of "(out, False)" data] command_bytes_quiet [of out False data]
  show ?thesis by (auto simp: process_commands_def last_told_def)
qed

subsection \<open>Understanding a settings message\<close>

text \<open>
  \<open>adopt s t\<close> is what settings \<open>t\<close> become when all explicit settings of \<open>s\<close> that a settings
  message can carry are taken over: the letter g stands for the GPS timestamps of a Radarcape
  and for the DF0/4/5 filter of a Beast.
\<close>

definition adopt :: "settings \<Rightarrow> settings \<Rightarrow> settings" where
  "adopt s t = t
     \<lparr>binary_format := ts_or (binary_format s) (binary_format t),
      filter_11_17_18 := ts_or (filter_11_17_18 s) (filter_11_17_18 t),
      avrmlat := ts_or (avrmlat s) (avrmlat t),
      crc_disable := ts_or (crc_disable s) (crc_disable t),
      gps_timestamps :=
        (if radarcape s = ON then ts_or (gps_timestamps s) (gps_timestamps t) else gps_timestamps t),
      filter_0_4_5 :=
        (if radarcape s = ON then filter_0_4_5 t else ts_or (filter_0_4_5 s) (filter_0_4_5 t)),
      rts_handshake := ts_or (rts_handshake s) (rts_handshake t),
      fec_disable := ts_or (fec_disable s) (fec_disable t),
      modeac_enable := ts_or (modeac_enable s) (modeac_enable t),
      verbatim := ts_or (verbatim s) (verbatim t)\<rparr>"

text \<open>\<open>sets bs out s\<close>: processing \<open>bs\<close> turns the settings of \<open>out\<close> into \<open>s\<close>.\<close>

definition sets :: "bytebuf \<Rightarrow> socket_output \<Rightarrow> settings \<Rightarrow> bool" where
  "sets bs out s \<longleftrightarrow>
     fst (foldl command_byte (out, False) bs) = out\<lparr>out_settings := s\<rparr>"

lemma sets_setting:
  assumes "command_state out = FIND_1A" and "sets bs out s"
    and "process_option_command (ascii (if onoff then on else off)) (out\<lparr>out_settings := s\<rparr>) =
      out\<lparr>out_settings := s'\<rparr>"
  shows "sets (add_setting bs onoff off on) out s'"
proof -
  obtain g where f: "foldl command_byte (out, False) bs = (out\<lparr>out_settings := s\<rparr>, g)"
    using assms(2) by (cases "foldl command_byte (out, False) bs") (simp add: sets_def)
  let ?o = "out\<lparr>out_settings := s\<rparr>"
  have c: "command_byte (?o, g) 0x1A = (?o\<lparr>command_state := READ_1\<rparr>, g)"
    "command_byte (?o\<lparr>command_state := READ_1\<rparr>, g) (ascii CHR ''1'') =
      (?o\<lparr>command_state := READ_OPTION\<rparr>, g)"
    using assms(1) by (simp_all add: command_byte_def)
  have k: "process_option_command ch (?o\<lparr>command_state := st\<rparr>) =
      (process_option_command ch ?o)\<lparr>command_state := st\<rparr>" for ch st
    by (simp del: ascii_Char add: process_option_command_def Let_def)
  have o': "(out\<lparr>out_settings := s'\<rparr>)\<lparr>command_state := FIND_1A\<rparr> = out\<lparr>out_settings := s'\<rparr>"
    using assms(1) by (cases out) simp
  have "command_byte (?o\<lparr>command_state := READ_OPTION\<rparr>, g) (ascii (if onoff then on else off)) =
      (out\<lparr>out_settings := s'\<rparr>, True)"
    by (simp del: ascii_Char add: command_byte_def k assms(3) o')
  then show ?thesis
    by (simp del: ascii_Char add: sets_def add_setting_def f c)
qed

lemma sets_tristate:
  assumes "command_state out = FIND_1A" and "sets bs out s"
    and "t \<noteq> DONTCARE \<Longrightarrow>
      process_option_command (ascii (if ts_bool D t then on else off)) (out\<lparr>out_settings := s\<rparr>) =
      out\<lparr>out_settings := s'\<rparr>"
    and "t = DONTCARE \<Longrightarrow> s' = s"
  shows "sets (add_tristate D off on bs t) out s'"
  using assms by (auto simp: add_tristate_def intro: sets_setting)

lemma letter_codes:
  "ascii CHR ''c'' = 0x63"
    "ascii CHR ''C'' = 0x43"
    "ascii CHR ''d'' = 0x64"
    "ascii CHR ''D'' = 0x44"
    "ascii CHR ''e'' = 0x65"
    "ascii CHR ''E'' = 0x45"
    "ascii CHR ''f'' = 0x66"
    "ascii CHR ''F'' = 0x46"
    "ascii CHR ''g'' = 0x67"
    "ascii CHR ''G'' = 0x47"
    "ascii CHR ''h'' = 0x68"
    "ascii CHR ''H'' = 0x48"
    "ascii CHR ''i'' = 0x69"
    "ascii CHR ''I'' = 0x49"
    "ascii CHR ''j'' = 0x6A"
    "ascii CHR ''J'' = 0x4A"
    "ascii CHR ''v'' = 0x76"
    "ascii CHR ''V'' = 0x56"
  by simp_all

lemma option_letters:
  "process_option_command (ascii CHR ''c'') (out\<lparr>out_settings := s\<rparr>) =
     out\<lparr>out_settings := s\<lparr>binary_format := OFF\<rparr>\<rparr>"
  "process_option_command (ascii CHR ''C'') (out\<lparr>out_settings := s\<rparr>) =
     out\<lparr>out_settings := s\<lparr>binary_format := ON\<rparr>\<rparr>"
  "process_option_command (ascii CHR ''d'') (out\<lparr>out_settings := s\<rparr>) =
     out\<lparr>out_settings := s\<lparr>filter_11_17_18 := OFF\<rparr>\<rparr>"
  "process_option_command (ascii CHR ''D'') (out\<lparr>out_settings := s\<rparr>) =
     out\<lparr>out_settings := s\<lparr>filter_11_17_18 := ON\<rparr>\<rparr>"
  "process_option_command (ascii CHR ''e'') (out\<lparr>out_settings := s\<rparr>) =
     out\<lparr>out_settings := s\<lparr>avrmlat := OFF\<rparr>\<rparr>"
  "process_option_command (ascii CHR ''E'') (out\<lparr>out_settings := s\<rparr>) =
     out\<lparr>out_settings := s\<lparr>avrmlat := ON\<rparr>\<rparr>"
  "process_option_command (ascii CHR ''f'') (out\<lparr>out_settings := s\<rparr>) =
     out\<lparr>out_settings := s\<lparr>crc_disable := OFF\<rparr>\<rparr>"
  "process_option_command (ascii CHR ''F'') (out\<lparr>out_settings := s\<rparr>) =
     out\<lparr>out_settings := s\<lparr>crc_disable := ON\<rparr>\<rparr>"
  "process_option_command (ascii CHR ''g'') (out\<lparr>out_settings := s\<rparr>) =
     out\<lparr>out_settings := (if radarcape s = ON then s\<lparr>gps_timestamps := OFF\<rparr>
      else s\<lparr>filter_0_4_5 := OFF\<rparr>)\<rparr>"
  "process_option_command (ascii CHR ''G'') (out\<lparr>out_settings := s\<rparr>) =
     out\<lparr>out_settings := (if radarcape s = ON then s\<lparr>gps_timestamps := ON\<rparr>
      else s\<lparr>filter_0_4_5 := ON\<rparr>)\<rparr>"
  "process_option_command (ascii CHR ''h'') (out\<lparr>out_settings := s\<rparr>) =
     out\<lparr>out_settings := s\<lparr>rts_handshake := OFF\<rparr>\<rparr>"
  "process_option_command (ascii CHR ''H'') (out\<lparr>out_settings := s\<rparr>) =
     out\<lparr>out_settings := s\<lparr>rts_handshake := ON\<rparr>\<rparr>"
  "process_option_command (ascii CHR ''i'') (out\<lparr>out_settings := s\<rparr>) =
     out\<lparr>out_settings := s\<lparr>fec_disable := OFF\<rparr>\<rparr>"
  "process_option_command (ascii CHR ''I'') (out\<lparr>out_settings := s\<rparr>) =
     out\<lparr>out_settings := s\<lparr>fec_disable := ON\<rparr>\<rparr>"
  "process_option_command (ascii CHR ''j'') (out\<lparr>out_settings := s\<rparr>) =
     out\<lparr>out_settings := s\<lparr>modeac_enable := OFF\<rparr>\<rparr>"
  "process_option_command (ascii CHR ''J'') (out\<lparr>out_settings := s\<rparr>) =
     out\<lparr>out_settings := s\<lparr>modeac_enable := ON\<rparr>\<rparr>"
  "process_option_command (ascii CHR ''v'') (out\<lparr>out_settings := s\<rparr>) =
     out\<lparr>out_settings := s\<lparr>verbatim := OFF\<rparr>\<rparr>"
  "process_option_command (ascii CHR ''V'') (out\<lparr>out_settings := s\<rparr>) =
     out\<lparr>out_settings := s\<lparr>verbatim := ON\<rparr>\<rparr>"
  unfolding process_option_command_def letter_codes Let_def
  by (simp_all add: ts_of_bool_def ts_bool_def)

lemma ts_or_cases:
  "t = OFF \<Longrightarrow> ts_or t u = OFF" "t = ON \<Longrightarrow> ts_or t u = ON" "t = DONTCARE \<Longrightarrow> ts_or t u = u"
  by (simp_all add: ts_or_def)

lemma ts_bool_cases: "ts_bool D OFF = False" "ts_bool D ON = True" "ts_bool D DONTCARE = D"
  by (simp_all add: ts_bool_def)

lemma to_message_sets:
  assumes st: "command_state out = FIND_1A"
    and same: "radarcape (out_settings out) = ON \<longleftrightarrow> radarcape s = ON"
    and m: "to_message s = Inr bs"
  shows "sets bs out (adopt s (out_settings out))"
proof -
  let ?t = "out_settings out"
  note step = sets_tristate [OF st]
  have u: "out\<lparr>out_settings := ?t\<rparr> = out" by simp
  note solve = option_letters option_letters(1,2) [of ?t out, unfolded u] ts_or_cases ts_bool_cases
  define m1 where "m1 = add_tristate True CHR ''c'' CHR ''C'' [] (binary_format s)"
  define m2 where "m2 = add_tristate False CHR ''d'' CHR ''D'' m1 (filter_11_17_18 s)"
  define m3 where "m3 = add_tristate True CHR ''e'' CHR ''E'' m2 (avrmlat s)"
  define m4 where "m4 = add_tristate False CHR ''f'' CHR ''F'' m3 (crc_disable s)"
  define m5 where "m5 =
    (if radarcape s = ON then add_tristate True CHR ''g'' CHR ''G'' m4 (gps_timestamps s)
     else add_tristate False CHR ''g'' CHR ''G'' m4 (filter_0_4_5 s))"
  define m6 where "m6 = add_tristate True CHR ''h'' CHR ''H'' m5 (rts_handshake s)"
  define m7 where "m7 = add_tristate False CHR ''i'' CHR ''I'' m6 (fec_disable s)"
  define m8 where "m8 = add_tristate False CHR ''j'' CHR ''J'' m7 (modeac_enable s)"
  define m9 where "m9 = add_tristate False CHR ''v'' CHR ''V'' m8 (verbatim s)"
  have g: "(if \<not> ts_bool False (radarcape s) \<and> filter_0_4_5 s \<noteq> DONTCARE
      then add_setting msg (ts_bool False (filter_0_4_5 s)) CHR ''g'' CHR ''G''
      else if ts_bool False (radarcape s) \<and> gps_timestamps s \<noteq> DONTCARE
      then add_setting msg (ts_bool True (gps_timestamps s)) CHR ''g'' CHR ''G'' else msg) =
    (if radarcape s = ON then add_tristate True CHR ''g'' CHR ''G'' msg (gps_timestamps s)
     else add_tristate False CHR ''g'' CHR ''G'' msg (filter_0_4_5 s))" for msg
    by (cases "radarcape s") (simp_all add: add_tristate_def ts_bool_def)
  have bs: "bs = m9"
    using m unfolding to_message_def Let_def g m9_def m8_def m7_def m6_def m5_def m4_def m3_def
      m2_def m1_def
    by (simp only: sum.inject sum.distinct split: if_split_asm)
  define t1 where "t1 = ?t\<lparr>binary_format := ts_or (binary_format s) (binary_format ?t)\<rparr>"
  define t2 where "t2 = t1\<lparr>filter_11_17_18 := ts_or (filter_11_17_18 s) (filter_11_17_18 ?t)\<rparr>"
  define t3 where "t3 = t2\<lparr>avrmlat := ts_or (avrmlat s) (avrmlat ?t)\<rparr>"
  define t4 where "t4 = t3\<lparr>crc_disable := ts_or (crc_disable s) (crc_disable ?t)\<rparr>"
  define t5 where "t5 = t4
    \<lparr>gps_timestamps := (if radarcape s = ON then ts_or (gps_timestamps s) (gps_timestamps ?t) else gps_timestamps ?t),
     filter_0_4_5 := (if radarcape s = ON then filter_0_4_5 ?t else ts_or (filter_0_4_5 s) (filter_0_4_5 ?t))\<rparr>"
  define t6 where "t6 = t5\<lparr>rts_handshake := ts_or (rts_handshake s) (rts_handshake ?t)\<rparr>"
  define t7 where "t7 = t6\<lparr>fec_disable := ts_or (fec_disable s) (fec_disable ?t)\<rparr>"
  define t8 where "t8 = t7\<lparr>modeac_enable := ts_or (modeac_enable s) (modeac_enable ?t)\<rparr>"
  define t9 where "t9 = t8\<lparr>verbatim := ts_or (verbatim s) (verbatim ?t)\<rparr>"
  have f: "filter_11_17_18 ?t = filter_11_17_18 t1" "avrmlat ?t = avrmlat t2" "crc_disable ?t = crc_disable t3"
    "gps_timestamps ?t = gps_timestamps t4" "filter_0_4_5 ?t = filter_0_4_5 t4" "rts_handshake ?t = rts_handshake t5"
    "fec_disable ?t = fec_disable t6" "modeac_enable ?t = modeac_enable t7" "verbatim ?t = verbatim t8"
    by (simp_all add: t1_def t2_def t3_def t4_def t5_def t6_def t7_def t8_def)
  have "sets [] out ?t" by (simp add: sets_def)
  then have "sets m1 out t1" unfolding m1_def t1_def
    by (rule step; cases "binary_format s"; simp del: ascii_Char add: solve f)
  then have "sets m2 out t2" unfolding m2_def t2_def
    by (rule step; cases "filter_11_17_18 s"; simp del: ascii_Char add: solve f)
  then have "sets m3 out t3" unfolding m3_def t3_def
    by (rule step; cases "avrmlat s"; simp del: ascii_Char add: solve f)
  then have m4: "sets m4 out t4" unfolding m4_def t4_def
    by (rule step; cases "crc_disable s"; simp del: ascii_Char add: solve f)
  have t4: "radarcape t4 = ON \<longleftrightarrow> radarcape s = ON"
    using same by (simp add: t1_def t2_def t3_def t4_def)
  have "sets (add_tristate True CHR ''g'' CHR ''G'' m4 (gps_timestamps s)) out
      (t4\<lparr>gps_timestamps := ts_or (gps_timestamps s) (gps_timestamps ?t)\<rparr>)" if "radarcape s = ON"
    using m4 by (rule step; cases "gps_timestamps s"; simp del: ascii_Char add: solve f t4 that)
  moreover have "sets (add_tristate False CHR ''g'' CHR ''G'' m4 (filter_0_4_5 s)) out
      (t4\<lparr>filter_0_4_5 := ts_or (filter_0_4_5 s) (filter_0_4_5 ?t)\<rparr>)" if "radarcape s \<noteq> ON"
    using m4 by (rule step; cases "filter_0_4_5 s"; simp del: ascii_Char add: solve f t4 that)
  moreover have "t5 = (if radarcape s = ON
      then t4\<lparr>gps_timestamps := ts_or (gps_timestamps s) (gps_timestamps ?t)\<rparr>
      else t4\<lparr>filter_0_4_5 := ts_or (filter_0_4_5 s) (filter_0_4_5 ?t)\<rparr>)"
    by (cases t4) (simp add: t5_def f)
  ultimately have "sets m5 out t5" by (simp add: m5_def)
  then have "sets m6 out t6" unfolding m6_def t6_def
    by (rule step; cases "rts_handshake s"; simp del: ascii_Char add: solve f)
  then have "sets m7 out t7" unfolding m7_def t7_def
    by (rule step; cases "fec_disable s"; simp del: ascii_Char add: solve f)
  then have "sets m8 out t8" unfolding m8_def t8_def
    by (rule step; cases "modeac_enable s"; simp del: ascii_Char add: solve f)
  then have "sets m9 out t9" unfolding m9_def t9_def
  proof (rule step)
    assume "verbatim s \<noteq> DONTCARE"
    then show "process_option_command (ascii (if ts_bool False (verbatim s) then CHR ''V'' else CHR ''v''))
        (out\<lparr>out_settings := t8\<rparr>) =
      out\<lparr>out_settings := t8\<lparr>verbatim := ts_or (verbatim s) (verbatim ?t)\<rparr>\<rparr>"
      by (cases "verbatim s") (simp_all only: option_letters ts_or_cases ts_bool_cases if_True if_False simp_thms)
  next
    assume "verbatim s = DONTCARE"
    then show "t8\<lparr>verbatim := ts_or (verbatim s) (verbatim ?t)\<rparr> = t8"
      unfolding f(9) ts_or_cases(3) [of "verbatim s", OF \<open>verbatim s = DONTCARE\<close>]
      by (intro settings.equality) simp_all
  qed
  moreover have "t9 = adopt s ?t"
    unfolding adopt_def t9_def t8_def t7_def t6_def t5_def t4_def t3_def t2_def t1_def by (rule refl)
  ultimately show ?thesis by (simp only: bs)
qed

subsection \<open>Runs\<close>

text \<open>
  A connection and the io service around it: how many posted flushes wait to run, the writes
  that have been started and have not completed, everything handed to \<open>async_write\<close> so far, the
  calls of the notifiers, and, for the specification only, the encodings of all messages
  written while the socket was open.
\<close>

datatype out_event = Message_in message | Read_done "bytebuf option" | Run_post | Write_done bool

record out_run =
  r_out :: socket_output
  posted :: nat
  writing :: "bytebuf list"
  handed :: bytebuf
  offered :: bytebuf
  notified :: "output_call list"

fun make_call :: "out_run \<Rightarrow> output_call \<Rightarrow> out_run" where
  "make_call r Post_flush = r\<lparr>posted := posted r + 1\<rparr>"
| "make_call r (Async_write v) = r\<lparr>writing := writing r @ [v], handed := handed r @ v\<rparr>"
| "make_call r (Notify_settings s) = r\<lparr>notified := notified r @ [Notify_settings s]\<rparr>"
| "make_call r Notify_close = r\<lparr>notified := notified r @ [Notify_close]\<rparr>"

definition result_in :: "out_run \<Rightarrow> socket_output \<times> output_call list \<Rightarrow> out_run" where
  "result_in r res = foldl make_call (r\<lparr>r_out := fst res\<rparr>) (snd res)"

definition offered_bytes :: "socket_output \<Rightarrow> message \<Rightarrow> bytebuf" where
  "offered_bytes out m =
     (if socket_open out
      then case client_bytes (out_settings out) m of Inl _ \<Rightarrow> [] | Inr bs \<Rightarrow> bs else [])"

inductive out_step :: "out_run \<Rightarrow> out_event \<Rightarrow> out_run \<Rightarrow> bool" where
  message_in: "wf_message m \<Longrightarrow> write_output m (r_out r) = Inr res \<Longrightarrow>
    out_step r (Message_in m)
      (result_in (r\<lparr>offered := offered r @ offered_bytes (r_out r) m\<rparr>) res)"
| read_done: "out_step r (Read_done d) (result_in r (read_handler d (r_out r)))"
| run_post: "posted r = Suc n \<Longrightarrow>
    out_step r Run_post (result_in (r\<lparr>posted := n\<rparr>) (flush_outbuf (r_out r)))"
| write_done: "writing r = v # vs \<Longrightarrow>
    out_step r (Write_done ec) (result_in (r\<lparr>writing := vs\<rparr>) (write_handler ec (r_out r)))"

inductive_cases out_stepE: "out_step r e r'"

inductive out_steps :: "out_run \<Rightarrow> out_event list \<Rightarrow> out_run \<Rightarrow> bool" where
  nil: "out_steps r [] r"
| cons: "out_step r e r' \<Longrightarrow> out_steps r' es r'' \<Longrightarrow> out_steps r (e # es) r''"

inductive_simps out_steps_Nil: "out_steps r [] r'"
inductive_simps out_steps_Cons: "out_steps r (e # es) r'"

definition start_run :: "settings \<Rightarrow> out_run" where
  "start_run s =
     \<lparr>r_out = (new_socket_output s)\<lparr>has_settings_notifier := True, has_close_notifier := True\<rparr>,
      posted = 0, writing = [], handed = [], offered = [], notified = []\<rparr>"

text \<open>One flush is posted or one write is under way exactly while \<open>flush_pending\<close> is set.\<close>

definition run_ok :: "settings \<Rightarrow> out_run \<Rightarrow> bool" where
  "run_ok s r \<longleftrightarrow>
     posted r + length (writing r) = of_bool (flush_pending (r_out r)) \<and>
     (posted r \<noteq> 0 \<longrightarrow> buffered (r_out r) \<noteq> []) \<and>
     handed r @ buffered (r_out r) = offered r \<and>
     has_settings_notifier (r_out r) \<and>
     last_told s (notified r) = out_settings (r_out r)"

lemma start_run_ok: "run_ok s (start_run s)"
  by (simp add: run_ok_def start_run_def new_socket_output_def buffered_def last_told_def)

lemma result_in_simps [simp]:
  "result_in r (out, []) = r\<lparr>r_out := out\<rparr>"
  "result_in r (out, c # cs) = foldl make_call (make_call (r\<lparr>r_out := out\<rparr>) c) cs"
  by (simp_all add: result_in_def)

lemma last_told_snoc: "last_told s (cs @ ds) = last_told (last_told s cs) ds"
  by (simp add: last_told_def)

lemma last_told_Nil [simp]: "last_told s [] = s"
  by (simp add: last_told_def)

lemma last_told_Cons [simp]:
  "last_told s (Notify_settings s' # cs) = last_told s' cs"
  "last_told s (Notify_close # cs) = last_told s cs"
  by (simp_all add: last_told_def)

lemma enqueue_run_ok:
  assumes "run_ok s r"
  shows "run_ok s (result_in (r\<lparr>offered := offered r @ bs\<rparr>) (enqueue bs (r_out r)))"
  using assms by (auto simp: run_ok_def enqueue_def buffered_def split: if_splits)

lemma close_run_ok:
  assumes "run_ok s (r\<lparr>r_out := out\<rparr>)"
  shows "run_ok s (result_in r (close_output out))"
  using assms by (auto simp: run_ok_def close_output_def buffered_def last_told_snoc)

lemma process_commands_run:
  "\<exists>n. result_in r (process_commands data out) =
      r\<lparr>r_out := fst (process_commands data out), notified := notified r @ n\<rparr> \<and>
    n = snd (process_commands data out)"
  by (auto simp: process_commands_def split: prod.split)

lemma out_step_ok:
  assumes "run_ok s r" and "out_step r e r'"
  shows "run_ok s r'"
  using assms(2)
proof (cases rule: out_step.cases)
  case (message_in m res)
  show ?thesis
  proof (cases "socket_open (r_out r)")
    case True
    then obtain bs where "client_bytes (out_settings (r_out r)) m = Inr bs"
        "res = enqueue bs (r_out r)"
      using message_in write_output_enqueue [OF True message_in(3)]
      by (auto simp: ebind_Inr_iff)
    then show ?thesis
      using True message_in enqueue_run_ok [OF assms(1)] by (simp add: offered_bytes_def)
  next
    case False
    then show ?thesis
      using message_in assms(1) by (auto simp: write_output_closed offered_bytes_def)
  qed
next
  case (read_done d)
  show ?thesis
  proof (cases d)
    case None
    then show ?thesis
      using read_done close_run_ok assms(1) by (simp add: read_handler_def handle_output_error_def)
  next
    case (Some data)
    let ?p = "process_commands data (r_out r)"
    have "r' = r\<lparr>r_out := fst ?p, notified := notified r @ snd ?p\<rparr>"
      using Some read_done process_commands_run [of r data "r_out r"]
      by (simp add: read_handler_def)
    moreover have "last_told (out_settings (r_out r)) (snd ?p) = out_settings (fst ?p)"
      using assms(1) by (intro process_commands_told) (simp add: run_ok_def)
    moreover have "outbuf (fst ?p) = outbuf (r_out r)" "flush_pending (fst ?p) = flush_pending (r_out r)"
        "has_settings_notifier (fst ?p) = has_settings_notifier (r_out r)"
      by (simp_all add: process_commands_fst command_bytes_frame)
    ultimately show ?thesis
      using assms(1) by (simp add: run_ok_def buffered_def last_told_snoc)
  qed
next
  case (run_post n)
  then show ?thesis
    using assms(1)
    by (cases "flush_pending (r_out r)")
       (auto simp: run_ok_def flush_outbuf_def buffered_def split: option.splits list.splits)
next
  case (write_done v vs ec)
  let ?o = "(r_out r)\<lparr>flush_pending := False,
    outbuf := Some (buffered (r_out r))\<rparr>"
  have w: "write_handler ec (r_out r) = (if ec then handle_output_error ?o else (?o, []))"
    by (cases "r_out r") (auto simp: write_handler_def Let_def buffered_def split: option.split)
  have "run_ok s (r\<lparr>writing := vs, r_out := ?o\<rparr>)"
    using assms(1) write_done
    by (cases "flush_pending (r_out r)") (auto simp: run_ok_def buffered_def)
  then show ?thesis
    using write_done w close_run_ok [of s ?o "r\<lparr>writing := vs\<rparr>"]
    by (simp add: handle_output_error_def)
qed

lemma out_steps_ok:
  assumes "out_steps r es r'" and "run_ok s r"
  shows "run_ok s r'"
  using assms by induction (auto intro: out_step_ok)

lemma idle_steps:
  assumes "out_steps r es r'" and "posted r = 0" and "writing r = []" and "\<forall>m. Message_in m \<notin> set es"
  shows "posted r' = 0 \<and> writing r' = [] \<and> handed r' = handed r \<and> buffered (r_out r') = buffered (r_out r)"
  using assms
proof induction
  case (cons r e r' es r'')
  from cons.hyps(1) have "posted r' = 0 \<and> writing r' = [] \<and> handed r' = handed r \<and>
      buffered (r_out r') = buffered (r_out r)"
  proof (cases rule: out_step.cases)
    case (read_done d)
    then show ?thesis
      using cons.prems(1,2) process_commands_run [of r _ "r_out r"]
      by (auto simp: read_handler_def handle_output_error_def close_output_def buffered_def
          process_commands_fst command_bytes_frame split: option.split)
  qed (use cons.prems in auto)
  then show ?case using cons.IH cons.prems(3) by auto
qed simp

subsection \<open>Properties\<close>

text \<open>
  C15: what a client is sent for a message. Writing a well-formed message to an open connection
  fails only where error correction would write out of bounds; otherwise it adds the encoding
  of the message's data to the buffer, and asks for a flush unless one is pending. The data
  has the length of the message type, and for Mode S and Mode A/C it is the data received,
  except that, unless the client asked for verbatim or uncorrected messages, a message that
  is bad but correctable is replaced by one with the same DF and a right checksum.
\<close>

theorem message_written:
  assumes "socket_open out" and "wf_message m" and "m_type m \<noteq> STATUS"
    and "write_output m out = Inr res"
  shows "\<exists>d. res = enqueue (encoding (out_settings out) (m_type m) (m_timestamp_type m)
        (m_timestamp m) (m_signal m) d) out \<and>
      length d = message_size (m_type m) \<and>
      (if wants_fec (out_settings out) \<and> msg_crc_bad m \<and> msg_correctable m
       then m_type m = (if df m = 11 then MODE_S_SHORT else MODE_S_LONG) \<longrightarrow>
         message_residual d = 0 \<and> drop_bit 3 (d ! 0) = drop_bit 3 (m_data m ! 0)
       else d = m_data m)"
proof -
  have "ebind (client_data (out_settings out) m) (\<lambda>d. Inr (enqueue (encoding (out_settings out)
      (m_type m) (m_timestamp_type m) (m_timestamp m) (m_signal m) d) out)) = Inr res"
    using write_output_enqueue [OF assms(1,2)] assms(4) by (simp add: client_bytes_def ebind_assoc)
  then obtain d
    where d: "client_data (out_settings out) m = Inr d"
      and res: "res = enqueue (encoding (out_settings out) (m_type m) (m_timestamp_type m)
        (m_timestamp m) (m_signal m) d) out"
    by (auto simp: ebind_Inr_iff)
  have len: "length (m_data m) = message_size (m_type m)"
    using assms(2) by (simp add: wf_message_def)
  show ?thesis
  proof (cases "wants_fec (out_settings out) \<and> msg_crc_bad m \<and> msg_correctable m")
    case True
    then have "msg_corrected_data m = Inr d" using d assms(3) by (simp add: client_data_def)
    then show ?thesis
      using True res msg_corrected_data_valid [OF assms(2), of d] by auto
  next
    case False
    then have "d = m_data m"
      using d assms(3) by (auto simp: client_data_def msg_corrected_data_def split: if_splits)
    then show ?thesis using False res len by auto
  qed
qed

text \<open>
  C30: what a client is told about the receiver. In the status message written to a client that
  has not forced a Beast, each of the eight reported settings is the client's own where the
  client has one and the receiver's otherwise; the other bytes are the receiver's, except
  that the flags for the new format and for emulated timestamps are set in the third byte when
  the client asked for GPS timestamps and the receiver does not provide them.
\<close>

theorem status_written:
  assumes "socket_open out" and "wf_message m" and "m_type m = STATUS"
    and "radarcape (out_settings out) \<noteq> OFF"
  shows "\<exists>d. write_output m out = Inr (enqueue (encoding (out_settings out) STATUS
        (m_timestamp_type m) (m_timestamp m) (m_signal m) d) out) \<and> length d = 14 \<and>
      (let s = out_settings out; up = settings_of_byte (m_data m ! 0); got = settings_of_byte (d ! 0)
       in \<forall>f \<in> {binary_format, filter_11_17_18, avrmlat, crc_disable, gps_timestamps,
            rts_handshake, fec_disable, modeac_enable}. f got = ts_or (f s) (f up)) \<and>
      (\<forall>i < 14. i \<noteq> 0 \<and> i \<noteq> 2 \<longrightarrow> d ! i = m_data m ! i) \<and>
      d ! 2 = (if gps_timestamps (out_settings out) = ON \<and>
                  gps_timestamps (settings_of_byte (m_data m ! 0)) \<noteq> ON
               then m_data m ! 2 OR 0x80 OR 0x20 else m_data m ! 2)"
proof -
  let ?s = "out_settings out"
  let ?d = "status_copy ?s (m_data m)"
  have len: "length (m_data m) = 14" using assms(2,3) by (simp add: wf_message_def)
  have w: "write_output m out = Inr (enqueue (encoding ?s STATUS (m_timestamp_type m)
        (m_timestamp m) (m_signal m) ?d) out)"
    using write_output_enqueue [OF assms(1,2)] assms(3)
    by (simp add: client_bytes_def client_data_def)
  have d0: "?d ! 0 = to_status_byte (settings_or ?s (settings_of_byte (m_data m ! 0)))"
    using len by (simp add: status_copy_def Let_def)
  have rc: "radarcape (settings_or ?s (settings_of_byte (m_data m ! 0))) = ON"
    using assms(4) by (cases "radarcape ?s")
      (simp_all add: settings_or_def ts_or_def settings_of_byte_fields)
  have ts: "ts_of_bool (ts_bool D (ts_or t (ts_of_bool b))) = ts_or t (ts_of_bool b)" for D t b
    by (cases t; cases b) (simp_all add: ts_bool_def ts_or_def ts_of_bool_def)
  have f: "\<forall>f \<in> {binary_format, filter_11_17_18, avrmlat, crc_disable, gps_timestamps,
      rts_handshake, fec_disable, modeac_enable}.
      f (settings_of_byte (?d ! 0)) = ts_or (f ?s) (f (settings_of_byte (m_data m ! 0)))"
    unfolding d0
    by (simp add: settings_of_byte_fields to_status_byte_bits [OF rc] settings_or_fields ts)
  show ?thesis
    using len w f by (intro exI [of _ ?d]) (auto simp: status_copy_def Let_def nth_list_update)
qed

text \<open>
  C31: timestamp conversion. For 48-bit timestamps nothing wraps around: converting 12 MHz
  ticks to GPS format gives the second of the day and the nanoseconds in their fields, and
  still fits 48 bits. Converting back keeps the time of day and loses the day: it gives the tick of
  the day if that is a multiple of 3 and the tick before otherwise. Converting a GPS time to ticks
  and back gives a time of day at most 84 ns before the original time of day, never after it. So
  within the first day the conversions invert each other up to a tick, and not beyond it.
\<close>

theorem timestamp_conversion:
  assumes "unat t < 2 ^ 48"
  shows "unat (twelvemeg_to_gps t) < 2 ^ 48 \<and>
    unat (twelvemeg_to_gps t) div 2 ^ 30 = unat t * 1000 div 12 div 10 ^ 9 mod 86400 \<and>
    unat (twelvemeg_to_gps t) mod 2 ^ 30 = unat t * 1000 div 12 mod 10 ^ 9 \<and>
    unat (gps_to_twelvemeg t) = gps_ns t * 12 div 1000 \<and>
    (let r = unat t mod (86400 * 12000000) in
      unat (gps_to_twelvemeg (twelvemeg_to_gps t)) = (if 3 dvd r then r else r - 1)) \<and>
    (let n = gps_ns t mod (86400 * 10 ^ 9); u = twelvemeg_to_gps (gps_to_twelvemeg t) in
      gps_ns u \<le> n \<and> n \<le> gps_ns u + 84)"
proof -
  have "unat (twelvemeg_to_gps t) < 2 ^ 48" using gps_fields(3) [OF assms] by simp
  then show ?thesis
    using gps_fields(1,2) [OF assms] unat_gps_to_twelvemeg_ns [OF assms] ticks_and_back [OF assms]
      gps_and_back [OF assms]
    unfolding Let_def by blast
qed

theorem timestamp_conversion_witness:
  "gps_to_twelvemeg (twelvemeg_to_gps 36000000) = 36000000 \<and>
    unat (twelvemeg_to_gps 36000000) = 3 * 2 ^ 30"
proof -
  have "unat (36000000 :: u64) = 36000000" by simp
  with timestamp_conversion [of 36000000]
  have "unat (gps_to_twelvemeg (twelvemeg_to_gps 36000000)) = unat (36000000 :: u64)"
    "unat (twelvemeg_to_gps 36000000) div 2 ^ 30 = 3"
    "unat (twelvemeg_to_gps 36000000) mod 2 ^ 30 = 0"
    by simp_all
  then show ?thesis
    by (metis add.right_neutral div_mult_mod_eq word_unat_eq_iff)
qed

text \<open>
  C27: option commands do not depend on how they are cut into reads: feeding two pieces one
  after the other leaves the parser and the settings as feeding them at once does, and after
  any piece the settings last passed to the settings notifier are the connection's settings.
\<close>

theorem commands_chunking:
  "fst (process_commands (a @ b) out) = fst (process_commands b (fst (process_commands a out))) \<and>
    (has_settings_notifier out \<longrightarrow>
      last_told (out_settings out) (snd (process_commands a out)) =
        out_settings (fst (process_commands a out)))"
proof -
  obtain o1 g where f: "foldl command_byte (out, False) a = (o1, g)"
    by (cases "foldl command_byte (out, False) a")
  have "fst (process_commands (a @ b) out) = fst (foldl command_byte (o1, g) b)"
    by (simp add: process_commands_fst f)
  also have "\<dots> = fst (process_commands b (fst (process_commands a out)))"
    using command_bytes_flag [of o1 g b] by (simp add: process_commands_fst f)
  finally show ?thesis using process_commands_told by blast
qed

theorem commands_chunking_witness:
  "last_told default_settings (snd (process_commands [0x1A, 0x31, 0x4A]
      ((new_socket_output default_settings)\<lparr>has_settings_notifier := True\<rparr>))) =
    default_settings\<lparr>modeac_enable := ON\<rparr>"
  using commands_chunking [of "[0x1A, 0x31, 0x4A]" "[]"
      "(new_socket_output default_settings)\<lparr>has_settings_notifier := True\<rparr>"]
  by (simp add: new_socket_output_def process_commands_def command_byte_def
      process_option_command_def last_told_def ts_of_bool_def Let_def)

text \<open>
  C9: the two ends of the protocol agree: a connection that is between commands and that
  receives the message \<open>Settings::to_message\<close> makes from settings \<open>s\<close> takes over exactly the
  explicit settings of \<open>s\<close>, provided both are for a Radarcape or both are not (the letter g
  means something else on each), and is between commands again.
\<close>

theorem settings_message_understood:
  assumes "command_state out = FIND_1A"
    and "radarcape (out_settings out) = ON \<longleftrightarrow> radarcape s = ON"
    and "to_message s = Inr bs"
  shows "fst (process_commands bs out) = out\<lparr>out_settings := adopt s (out_settings out)\<rparr>"
  using to_message_sets [OF assms] by (simp add: sets_def process_commands_fst)

theorem settings_message_understood_witness:
  "\<exists>bs. to_message (settings_of_string ''RCdj'') = Inr bs \<and>
    binary_format (out_settings (fst (process_commands bs
      (new_socket_output (default_settings\<lparr>radarcape := ON\<rparr>))))) = ON"
proof -
  let ?s = "settings_of_string ''RCdj''" and ?o = "new_socket_output (default_settings\<lparr>radarcape := ON\<rparr>)"
  have s: "radarcape ?s = ON" "binary_format ?s = ON"
    by (simp_all add: settings_of_string_def settings_char_def default_settings_def)
  then obtain bs where bs: "to_message ?s = Inr bs" by (simp add: to_message_def Let_def)
  show ?thesis
    using settings_message_understood [OF _ _ bs, of ?o] s bs
    by (simp add: new_socket_output_def adopt_def ts_or_def default_settings_def)
qed

lemma out_ok_witness:
  "out_steps (start_run s) es r \<Longrightarrow> run_ok s r"
  using out_steps_ok start_run_ok by blast

text \<open>
  C7: nothing is lost, repeated or interleaved. However messages, commands, read errors,
  posted flushes and completed writes follow each other, at most one write is under way, what
  has been handed to \<open>async_write\<close> followed by what is still buffered is exactly the
  concatenation of the encodings of the messages written, and the settings notifier has last
  been passed the connection's settings.
\<close>

theorem writes_in_order:
  assumes "out_steps (start_run s) es r"
  shows "length (writing r) \<le> 1 \<and> handed r @ buffered (r_out r) = offered r \<and>
    posted r + length (writing r) = of_bool (flush_pending (r_out r)) \<and>
    (posted r \<noteq> 0 \<longrightarrow> buffered (r_out r) \<noteq> []) \<and>
    last_told s (notified r) = out_settings (r_out r)"
proof -
  have "run_ok s r" using assms by (rule out_ok_witness)
  then show ?thesis by (cases "flush_pending (r_out r)") (auto simp: run_ok_def)
qed

text \<open>
  C37: bytes buffered during a write wait for the next message. When a write completes while
  bytes are buffered, no flush is posted for them: whatever happens next, short of another
  message being written, they stay where they are.
\<close>

theorem buffered_bytes_stall:
  assumes "out_steps (start_run s) es r" and "out_step r (Write_done ec) r1"
    and "out_steps r1 es' r2" and "\<forall>m. Message_in m \<notin> set es'"
  shows "buffered (r_out r2) = buffered (r_out r) \<and> handed r2 = handed r \<and>
    posted r2 = 0 \<and> writing r2 = []"
proof -
  from assms(2) obtain v vs where w: "writing r = v # vs"
    and r1: "r1 = result_in (r\<lparr>writing := vs\<rparr>) (write_handler ec (r_out r))"
    by (cases rule: out_step.cases) auto
  have "run_ok s r" using assms(1) by (rule out_ok_witness)
  then have "posted r = 0" "vs = []"
    using w by (cases "flush_pending (r_out r)"; simp add: run_ok_def)+
  then have "posted r1 = 0 \<and> writing r1 = [] \<and> handed r1 = handed r \<and>
      buffered (r_out r1) = buffered (r_out r)"
    by (auto simp: r1 write_handler_def handle_output_error_def close_output_def buffered_def Let_def
        split: option.split)
  then show ?thesis using idle_steps [OF assms(3) _ _ assms(4)] by simp
qed

text \<open>
  The next message moves them on: when no write is under way, a message that is encoded
  as at least one byte has a flush posted, and running it hands everything offered so far to
  one write.
\<close>

theorem message_flushes_buffer:
  assumes "out_steps (start_run s) es r" and "writing r = []"
    and "out_step r (Message_in m) r1" and "offered_bytes (r_out r) m \<noteq> []"
  shows "posted r1 = 1 \<and> (\<exists>r2. out_step r1 Run_post r2) \<and>
    (\<forall>r2. out_step r1 Run_post r2 \<longrightarrow> handed r2 = offered r2 \<and> length (writing r2) = 1)"
proof -
  have "run_ok s r" using assms(1) by (rule out_ok_witness)
  then have ok: "run_ok s r1" using assms(3) by (rule out_step_ok)
  from assms(3) obtain res where m: "wf_message m" and res: "write_output m (r_out r) = Inr res"
    and r1: "r1 = result_in (r\<lparr>offered := offered r @ offered_bytes (r_out r) m\<rparr>) res"
    by (cases rule: out_step.cases) auto
  have "socket_open (r_out r)" using assms(4) by (auto simp: offered_bytes_def split: if_splits)
  then have "res = enqueue (offered_bytes (r_out r) m) (r_out r)"
    using res write_output_enqueue [OF _ m] by (auto simp: offered_bytes_def ebind_Inr_iff)
  then have "flush_pending (r_out r1)" "writing r1 = []" "buffered (r_out r1) \<noteq> []"
    using assms(2,4) by (auto simp: r1 enqueue_def buffered_def)
  then have p: "posted r1 = 1" and b: "buffered (r_out r1) \<noteq> []"
    using ok by (auto simp: run_ok_def)
  then obtain n where n: "posted r1 = Suc n" by simp
  have "handed r2 = offered r2 \<and> length (writing r2) = 1" if "out_step r1 Run_post r2" for r2
    using that
  proof (cases rule: out_step.cases)
    case (run_post k)
    then show ?thesis
      using b \<open>writing r1 = []\<close> ok
      by (auto simp: run_ok_def flush_outbuf_def buffered_def split: option.splits list.splits)
  qed
  then show ?thesis using p run_post [OF n] by blast
qed

subsection \<open>A sample connection\<close>

definition sample_bytes :: bytebuf where
  "sample_bytes = beast_frame MODE_AC 0 0 [0x12, 0x34]"

lemma sample_step:
  assumes "socket_open (r_out r)" and "out_settings (r_out r) = default_settings"
  shows "out_step r (Message_in sample_modeac)
      (result_in (r\<lparr>offered := offered r @ sample_bytes\<rparr>) (enqueue sample_bytes (r_out r)))"
    and "offered_bytes (r_out r) sample_modeac = sample_bytes" and "sample_bytes \<noteq> []"
proof -
  have m: "sample_modeac = \<lparr>m_type = MODE_AC, m_timestamp_type = TWELVEMEG, m_timestamp = 0,
      m_signal = 0, m_data = [0x12, 0x34], m_residual = 0xFFFFFFFF, m_correctable_bit = -2,
      m_corrected_data = []\<rparr>"
    by (simp add: sample_modeac_def make_message_def)
  have wf: "wf_message sample_modeac" by (simp add: m wf_message_def)
  have c: "client_bytes default_settings sample_modeac = Inr sample_bytes"
    by (simp add: client_bytes_def client_data_def msg_correctable_def msg_correctable_bit_def
        df_def m encoding_def output_timestamp_def default_settings_def sample_bytes_def)
  then show o: "offered_bytes (r_out r) sample_modeac = sample_bytes"
    using assms by (simp add: offered_bytes_def)
  have "write_output sample_modeac (r_out r) = Inr (enqueue sample_bytes (r_out r))"
    using write_output_enqueue [OF assms(1) wf] assms(2) c by simp
  from message_in [OF wf this] o
  show "out_step r (Message_in sample_modeac)
      (result_in (r\<lparr>offered := offered r @ sample_bytes\<rparr>) (enqueue sample_bytes (r_out r)))"
    by simp
  show "sample_bytes \<noteq> []" by (simp add: sample_bytes_def beast_frame_def)
qed

text \<open>Two messages, the second while the first is being written.\<close>

lemma sample_run:
  obtains r where
    "out_steps (start_run default_settings)
      [Message_in sample_modeac, Run_post, Message_in sample_modeac] r"
    "writing r = [sample_bytes]" "handed r = sample_bytes" "buffered (r_out r) = sample_bytes"
proof -
  let ?r0 = "start_run default_settings"
  have s0: "socket_open (r_out ?r0)" "out_settings (r_out ?r0) = default_settings"
    by (simp_all add: start_run_def new_socket_output_def)
  note m0 = sample_step [OF s0]
  let ?r1 = "result_in (?r0\<lparr>offered := offered ?r0 @ sample_bytes\<rparr>) (enqueue sample_bytes (r_out ?r0))"
  have r1: "posted ?r1 = Suc 0" "writing ?r1 = []" "handed ?r1 = []"
    "outbuf (r_out ?r1) = Some sample_bytes" "socket_open (r_out ?r1)"
    "out_settings (r_out ?r1) = default_settings" "flush_pending (r_out ?r1)"
    using m0(3) by (simp_all add: start_run_def new_socket_output_def enqueue_def buffered_def)
  let ?r2 = "result_in (?r1\<lparr>posted := 0\<rparr>) (flush_outbuf (r_out ?r1))"
  obtain b bs where b: "sample_bytes = b # bs" using m0(3) by (cases sample_bytes) auto
  have f: "flush_outbuf (r_out ?r1) = ((r_out ?r1)\<lparr>outbuf := None\<rparr>, [Async_write sample_bytes])"
    using r1(4) by (simp add: flush_outbuf_def b)
  have r2: "writing ?r2 = [sample_bytes]" "handed ?r2 = sample_bytes" "outbuf (r_out ?r2) = None"
    "socket_open (r_out ?r2)" "out_settings (r_out ?r2) = default_settings" "flush_pending (r_out ?r2)"
    using r1 by (simp_all add: f)
  note m2 = sample_step [OF r2(4,5)]
  let ?r3 = "result_in (?r2\<lparr>offered := offered ?r2 @ sample_bytes\<rparr>) (enqueue sample_bytes (r_out ?r2))"
  have "out_steps ?r0 [Message_in sample_modeac, Run_post, Message_in sample_modeac] ?r3"
    using m0(1) run_post [OF r1(1)] m2(1) by (blast intro: out_steps.intros)
  moreover have "writing ?r3 = [sample_bytes]" "handed ?r3 = sample_bytes"
    "buffered (r_out ?r3) = sample_bytes"
    using r2 m2(3) by (simp_all add: enqueue_def buffered_def)
  ultimately show ?thesis by (rule that)
qed

theorem writes_in_order_witness:
  "\<exists>r. out_steps (start_run default_settings)
      [Message_in sample_modeac, Run_post, Message_in sample_modeac] r \<and>
    offered r = sample_bytes @ sample_bytes"
proof -
  obtain r where r: "out_steps (start_run default_settings)
      [Message_in sample_modeac, Run_post, Message_in sample_modeac] r"
    "handed r = sample_bytes" "buffered (r_out r) = sample_bytes"
    by (rule sample_run)
  from writes_in_order [OF r(1)] r show ?thesis by auto
qed

theorem buffered_bytes_stall_witness:
  "\<exists>r. out_steps (start_run default_settings)
      [Message_in sample_modeac, Run_post, Message_in sample_modeac, Write_done False] r \<and>
    buffered (r_out r) \<noteq> [] \<and> posted r = 0 \<and> writing r = []"
proof -
  obtain r where r: "out_steps (start_run default_settings)
      [Message_in sample_modeac, Run_post, Message_in sample_modeac] r"
    "writing r = [sample_bytes]" "buffered (r_out r) = sample_bytes"
    by (rule sample_run)
  let ?r1 = "result_in (r\<lparr>writing := []\<rparr>) (write_handler False (r_out r))"
  have s: "out_step r (Write_done False) ?r1" using r(2) by (rule write_done)
  then have "buffered (r_out ?r1) \<noteq> [] \<and> posted ?r1 = 0 \<and> writing ?r1 = []"
    using buffered_bytes_stall [OF r(1) s out_steps.nil] r(3)
    by (simp add: sample_bytes_def beast_frame_def)
  moreover have "out_steps (start_run default_settings)
      [Message_in sample_modeac, Run_post, Message_in sample_modeac, Write_done False] ?r1"
    using r(1) s by (auto simp: out_steps_Cons out_steps_Nil)
  ultimately show ?thesis by blast
qed

theorem message_flushes_buffer_witness:
  "\<exists>r. out_step (start_run default_settings) (Message_in sample_modeac) r \<and> posted r = 1"
proof -
  have s: "socket_open (r_out (start_run default_settings))"
    "out_settings (r_out (start_run default_settings)) = default_settings"
    "writing (start_run default_settings) = []"
    by (simp_all add: start_run_def new_socket_output_def)
  note m = sample_step [OF s(1,2)]
  from message_flushes_buffer [OF out_steps.nil s(3) m(1)] m show ?thesis by auto
qed

theorem message_written_witness:
  "\<exists>d. write_output damaged_squitter (new_socket_output default_settings) =
      Inr (enqueue (encoding default_settings MODE_S_LONG TWELVEMEG 0 0 d)
        (new_socket_output default_settings)) \<and> length d = 14 \<and> message_residual d = 0"
proof -
  let ?o = "new_socket_output default_settings"
  note ok = make_message_ok [OF damaged_squitter_make]
  note a = damaged_squitter_accessors
  have o: "socket_open ?o" "out_settings ?o = default_settings"
    by (simp_all add: new_socket_output_def)
  have f: "wants_fec default_settings" by (simp add: wants_fec_def default_settings_def)
  have "client_data default_settings damaged_squitter = Inr sample_squitter"
    using a ok f by (simp add: client_data_def)
  then obtain res where res: "write_output damaged_squitter ?o = Inr res"
    using write_output_enqueue [OF o(1) ok(1)] o(2) by (auto simp: client_bytes_def)
  have "uint (drop_bit 3 (flip_bit_at 40 sample_squitter ! 0) AND 31) = 17"
    by (simp add: flip_bit_at_def sample_squitter_def)
  then have "df damaged_squitter \<noteq> 11" by (simp add: df_def ok)
  then show ?thesis
    using message_written [OF o(1) ok(1) _ res] o(2) ok(3-6) f a(1,2) res by auto
qed

theorem status_written_witness:
  "\<exists>d. write_output (projr (make_message STATUS TWELVEMEG 0 0 (0x21 # replicate 13 0)))
      (new_socket_output default_settings) =
      Inr (enqueue (encoding default_settings STATUS TWELVEMEG 0 0 d)
        (new_socket_output default_settings)) \<and> d ! 2 = 0"
proof -
  obtain m where m: "make_message STATUS TWELVEMEG 0 0 (0x21 # replicate 13 0) = Inr m"
    by (simp add: make_message_def)
  note ok = make_message_ok [OF m]
  have "socket_open (new_socket_output default_settings)"
    "radarcape (out_settings (new_socket_output default_settings)) \<noteq> OFF"
    by (simp_all add: new_socket_output_def default_settings_def)
  from status_written [OF this(1) ok(1,3) this(2)] m ok show ?thesis
    by (auto simp: new_socket_output_def default_settings_def)
qed

subsection \<open>Reading the text formats\<close>

definition hex_value :: "byte \<Rightarrow> nat" where
  "hex_value b = (if b < 0x3A then unat b - 48 else unat b - 55)"

fun unhex :: "bytebuf \<Rightarrow> bytebuf" where
  "unhex (a # b # v) = word_of_nat (16 * hex_value a + hex_value b) # unhex v"
| "unhex _ = []"

lemma hexdigits_eq: "hexdigits =
  [0x30, 0x31, 0x32, 0x33, 0x34, 0x35, 0x36, 0x37, 0x38, 0x39, 0x41, 0x42, 0x43, 0x44, 0x45, 0x46]"
  by (simp add: hexdigits_def)

lemma hex_value_digit: "n < 16 \<Longrightarrow> hex_value (hexdigits ! n) = n"
proof -
  have "\<forall>n \<in> set [0..<16]. hex_value (hexdigits ! n) = n"
    by (simp add: hexdigits_eq hex_value_def upt_rec)
  then show "n < 16 \<Longrightarrow> hex_value (hexdigits ! n) = n" by simp
qed

lemma unat_nibbles:
  "unat (drop_bit 4 b AND 0x0F) = unat b div 16" "unat (b AND 0x0F) = unat b mod 16" for b :: byte
proof -
  have m: "w AND 0x0F = take_bit 4 w" for w :: byte
    by (simp add: take_bit_eq_mask mask_eq_exp_minus_1)
  have "unat b < 256" using unsigned_less [of b, where ?'a = nat] by simp
  then have "unat b div 16 < 16" by simp
  then show "unat (drop_bit 4 b AND 0x0F) = unat b div 16"
    by (simp add: m unsigned_take_bit_eq take_bit_eq_mod drop_bit_eq_div unat_div unat_mod)
  show "unat (b AND 0x0F) = unat b mod 16"
    by (simp add: m take_bit_eq_mod unat_mod)
qed

lemma unhex_hex_text: "unhex (hex_text d) = d"
proof (induction d)
  case (Cons b d)
  have "unat b < 256" using unsigned_less [of b, where ?'a = nat] by simp
  then have n: "unat b div 16 < 16" "unat b mod 16 < 16" by (simp only: div_less_iff_less_mult) simp_all
  have "unhex (hex_text [b]) = [word_of_nat (16 * hex_value (hexdigits ! unat (drop_bit 4 b AND 0x0F)) +
      hex_value (hexdigits ! unat (b AND 0x0F)))]"
    by (simp add: hex_text_def)
  also have "\<dots> = [word_of_nat (16 * (unat b div 16) + unat b mod 16)]"
    unfolding unat_nibbles(1) unat_nibbles(2) [of b]
    by (simp only: hex_value_digit [OF n(1)] hex_value_digit [OF n(2)])
  also have "\<dots> = [b]" by (simp only: mult_div_mod_eq) simp
  finally have "unhex (hex_text [b]) = [b]" .
  moreover have "unhex (hex_text [b] @ v) = unhex (hex_text [b]) @ unhex v" for v
    by (simp add: hex_text_def)
  ultimately show ?case using hex_append [of "[b]" d] Cons.IH by simp
qed (simp add: hex_text_def)

lemma hex_text_digits: "set (hex_text d) \<subseteq> set hexdigits"
proof -
  have "hexdigits ! n \<in> set hexdigits" if "n < 16" for n
    using that by (intro nth_mem) (simp add: hexdigits_eq)
  moreover have "unat b div 16 < 16" for b :: byte using unsigned_less [of b, where ?'a = nat] by simp
  ultimately show ?thesis by (auto simp: hex_text_def unat_nibbles)
qed

text \<open>
  C40: the two text formats can be read back: an AVR line is an asterisk, the data in upper
  case hexadecimal digits, a semicolon and a newline, an AVR-MLAT line has an at sign and the
  six timestamp bytes before the data, and reading the digits, among which there is no
  semicolon or newline, gives the bytes again.
\<close>

theorem avr_roundtrip:
  "(\<exists>t. write_avr d out = enqueue (0x2A # t @ [0x3B, 0x0A]) out \<and> unhex t = d \<and>
      0x3B \<notin> set t \<and> 0x0A \<notin> set t) \<and>
   (\<exists>t. write_avrmlat ts d out = enqueue (0x40 # t @ [0x3B, 0x0A]) out \<and>
      unhex t = timestamp_bytes ts @ d \<and> 0x3B \<notin> set t \<and> 0x0A \<notin> set t)"
proof -
  have "0x3B \<notin> set (hex_text v)" "0x0A \<notin> set (hex_text v)" for v
    using hex_text_digits [of v] by (auto simp: hexdigits_eq)
  then show ?thesis
    by (intro conjI exI [of _ "hex_text d"] exI [of _ "hex_text (timestamp_bytes ts @ d)"])
       (simp_all add: write_avr_enqueue write_avrmlat_enqueue avr_line_def avrmlat_line_def
         unhex_hex_text)
qed

end
