(* ===== verification/BeastInput.thy ===== *)
theory BeastInput
  imports SocketOutput
begin

section \<open>The receiver connection (beast_input.h, beast_input.cc)\<close>

text \<open>
  The class \<open>BeastInput\<close>: the state of the connection to the receiver, receiver detection, the
  settings sent upstream, and the parser of the Beast binary format. The class is a record and
  its subclasses are extensions of the record; the virtual functions are the fields of a
  record \<open>virtuals\<close> over the state, and what the base class needs of them is the locale
  \<open>input_virtuals\<close>. A timer is the fact that a wait on it will call its handler; writes to the
  receiver and calls of the message notifier are recorded in \<open>calls\<close>.
\<close>

subsection \<open>State\<close>

datatype receiver_type = UNKNOWN_RECEIVER | BEAST | RADARCAPE

datatype parser_state = RESYNC | READ_1A | READ_TYPE | READ_DATA | READ_ESCAPED_1A

datatype input_call = Write_out bytebuf | Notify message

record beast_input =
  has_message_notifier :: bool
  receiver_type :: receiver_type
  fixed_settings :: settings
  current_settings :: settings
  input_filter :: filter
  receiving_gps_timestamps :: bool
  autodetect_timer :: bool
  reconnect_timer :: bool
  liveness_timer :: bool
  good_sync :: bool
  good_messages_count :: u32
  bad_bytes_count :: u32
  first_message :: bool
  messagetype :: message_type
  metadata :: bytebuf
  messagedata :: bytebuf
  parser :: parser_state
  calls :: "input_call list"

text \<open>The constructor; the members it leaves uninitialised are written before they are read.\<close>

definition new_beast_input :: "settings \<Rightarrow> filter \<Rightarrow> beast_input" where
  "new_beast_input fixed f =
     \<lparr>has_message_notifier = False, receiver_type = UNKNOWN_RECEIVER, fixed_settings = fixed,
      current_settings = default_settings, input_filter = f, receiving_gps_timestamps = False,
      autodetect_timer = False, reconnect_timer = False, liveness_timer = False,
      good_sync = False, good_messages_count = 0, bad_bytes_count = 0, first_message = True,
      messagetype = INVALID, metadata = [], messagedata = [], parser = RESYNC, calls = []\<rparr>"

definition set_message_notifier :: "'x beast_input_scheme \<Rightarrow> 'x beast_input_scheme" where
  "set_message_notifier s = s\<lparr>has_message_notifier := True\<rparr>"

record 's virtuals =
  saw_good_message :: "'s \<Rightarrow> 's"
  can_dispatch :: "'s \<Rightarrow> bool"
  low_level_write :: "bytebuf \<Rightarrow> 's \<Rightarrow> bool \<times> 's"
  apply_connection_settings :: "settings \<Rightarrow> settings"

definition is_connected :: "'x beast_input_scheme \<Rightarrow> bool" where
  "is_connected s \<longleftrightarrow> good_sync s \<and> receiver_type s \<noteq> UNKNOWN_RECEIVER"

definition messagetype_from_byte :: "byte \<Rightarrow> message_type" where
  "messagetype_from_byte b =
     (if b = 0x31 then MODE_AC else if b = 0x32 then MODE_S_SHORT
      else if b = 0x33 then MODE_S_LONG else if b = 0x34 then STATUS
      else if b = 0x35 then POSITION else INVALID)"

text \<open>The base class's versions of the two virtual functions it defines.\<close>

definition base_saw_good_message :: "'x beast_input_scheme \<Rightarrow> 'x beast_input_scheme" where
  "base_saw_good_message s =
     s\<lparr>good_sync := True, good_messages_count := good_messages_count s + 1, bad_bytes_count := 0\<rparr>"

definition base_can_dispatch :: "'x beast_input_scheme \<Rightarrow> bool" where
  "base_can_dispatch s \<longleftrightarrow> receiver_type s \<noteq> UNKNOWN_RECEIVER"

definition lost_sync :: "'x beast_input_scheme \<Rightarrow> 'x beast_input_scheme" where
  "lost_sync s = s\<lparr>good_messages_count := 0, good_sync := False, parser := RESYNC\<rparr>"

subsection \<open>Settings and connection state\<close>

definition wanted_settings :: "'x beast_input_scheme virtuals \<Rightarrow> 'x beast_input_scheme \<Rightarrow> settings" where
  "wanted_settings v s =
     (let settings = settings_or (fixed_settings s) (settings_of_filter (input_filter s));
          settings = settings\<lparr>radarcape := ts_of_bool (receiver_type s = RADARCAPE)\<rparr>;
          settings = settings\<lparr>binary_format := ts_of_bool True\<rparr>
      in apply_connection_settings v settings)"

definition send_settings_message ::
  "'x beast_input_scheme virtuals \<Rightarrow> 'x beast_input_scheme \<Rightarrow> failure + 'x beast_input_scheme" where
  "send_settings_message v s =
     (let settings = wanted_settings v s in
      if settings_eq settings (current_settings s) then Inr s
      else ebind (to_message settings) (\<lambda>message.
        let (written, s) = low_level_write v message s in
        Inr (if written then s\<lparr>current_settings := settings\<rparr> else s)))"

definition set_filter ::
  "'x beast_input_scheme virtuals \<Rightarrow> filter \<Rightarrow> 'x beast_input_scheme \<Rightarrow>
    failure + 'x beast_input_scheme" where
  "set_filter v newfilter s =
     (if \<not> filter_eq (input_filter s) newfilter
      then send_settings_message v (s\<lparr>input_filter := newfilter\<rparr>) else Inr s)"

definition connection_established ::
  "'x beast_input_scheme virtuals \<Rightarrow> 'x beast_input_scheme \<Rightarrow> failure + 'x beast_input_scheme" where
  "connection_established v s =
     (let s = s\<lparr>first_message := True, receiving_gps_timestamps := False, good_sync := False,
            good_messages_count := 0, bad_bytes_count := 0, parser := READ_1A,
            current_settings := default_settings\<rparr>;
          s = s\<lparr>autodetect_timer := False\<rparr>;
          s = (if radarcape (fixed_settings s) = ON then s\<lparr>receiver_type := RADARCAPE\<rparr>
               else if radarcape (fixed_settings s) = OFF then s\<lparr>receiver_type := BEAST\<rparr>
               else s\<lparr>receiver_type := UNKNOWN_RECEIVER, autodetect_timer := True\<rparr>)
      in send_settings_message v s)"

text \<open>The handler of \<open>autodetect_timer\<close>.\<close>

definition autodetect_expired ::
  "'x beast_input_scheme virtuals \<Rightarrow> 'x beast_input_scheme \<Rightarrow> failure + 'x beast_input_scheme" where
  "autodetect_expired v s =
     send_settings_message v (s\<lparr>autodetect_timer := False, receiver_type := BEAST\<rparr>)"

definition connection_failed :: "'x beast_input_scheme \<Rightarrow> 'x beast_input_scheme" where
  "connection_failed s = s\<lparr>good_sync := False, autodetect_timer := False, reconnect_timer := True\<rparr>"

subsection \<open>Dispatch\<close>

definition metadata_timestamp :: "bytebuf \<Rightarrow> u64" where
  "metadata_timestamp d =
     push_bit 40 (ucast (d ! 0)) OR push_bit 32 (ucast (d ! 1)) OR push_bit 24 (ucast (d ! 2)) OR
     push_bit 16 (ucast (d ! 3)) OR push_bit 8 (ucast (d ! 4)) OR ucast (d ! 5)"

text \<open>What \<open>dispatch_message\<close> does on a status message before anything else.\<close>

definition note_status ::
  "'x beast_input_scheme virtuals \<Rightarrow> 'x beast_input_scheme \<Rightarrow> failure + 'x beast_input_scheme" where
  "note_status v s =
     (let s = s\<lparr>receiving_gps_timestamps := (gps_timestamps (settings_of_byte (messagedata s ! 0)) = ON)\<rparr>
      in ebind
        (if receiver_type s \<noteq> RADARCAPE
         then send_settings_message v (s\<lparr>receiver_type := RADARCAPE, autodetect_timer := False\<rparr>)
         else Inr s)
        (\<lambda>s. Inr (s\<lparr>liveness_timer := True\<rparr>)))"

definition dispatch_message ::
  "'x beast_input_scheme virtuals \<Rightarrow> 'x beast_input_scheme \<Rightarrow> failure + 'x beast_input_scheme" where
  "dispatch_message v s =
     ebind (if messagetype s = STATUS then note_status v s else Inr s) (\<lambda>s.
       if \<not> can_dispatch v s then Inr s
       else let s = s\<lparr>first_message := False\<rparr> in
         if \<not> has_message_notifier s then Inr s
         else let (s, timestamp, signal) =
             (if messagetype s = POSITION
              then (s\<lparr>messagedata := metadata s @ messagedata s\<rparr>, 0, 0)
              else (s, metadata_timestamp (metadata s), metadata s ! 6))
           in ebind (make_message (messagetype s)
                (if receiving_gps_timestamps s then GPS else TWELVEMEG) timestamp signal
                (messagedata s)) (\<lambda>m.
              Inr (s\<lparr>calls := calls s @ [Notify m], messagedata := []\<rparr>)))"

subsection \<open>The parser\<close>

text \<open>The loop of the \<open>RESYNC\<close> case: the state it ends in and the bytes it leaves.\<close>

fun resync_scan :: "bytebuf \<Rightarrow> parser_state \<times> bytebuf" where
  "resync_scan [] = (RESYNC, [])"
| "resync_scan [p] = (if p \<noteq> 0x1A then (READ_1A, []) else (RESYNC, []))"
| "resync_scan (p # q # rest) =
     (if p \<noteq> 0x1A \<and> q = 0x1A then (READ_TYPE, rest) else resync_scan (q # rest))"

definition push_byte :: "byte \<Rightarrow> 'x beast_input_scheme \<Rightarrow> 'x beast_input_scheme" where
  "push_byte b s =
     (if length (metadata s) < 7 then s\<lparr>metadata := metadata s @ [b]\<rparr>
      else s\<lparr>messagedata := messagedata s @ [b]\<rparr>)"

text \<open>The loop of the \<open>READ_DATA\<close> case.\<close>

fun read_data ::
  "nat \<Rightarrow> 'x beast_input_scheme \<Rightarrow> bytebuf \<Rightarrow> 'x beast_input_scheme \<times> bytebuf" where
  "read_data msglen s [] = (s, [])"
| "read_data msglen s (b # p) =
     (if length (messagedata s) < msglen then
        (if b = 0x1A then
           (case p of
              [] \<Rightarrow> (s\<lparr>parser := READ_ESCAPED_1A\<rparr>, [])
            | c # p' \<Rightarrow>
                if c \<noteq> 0x1A then (lost_sync s, c # p')
                else read_data msglen (push_byte b s) p')
         else read_data msglen (push_byte b s) p)
      else (s, b # p))"

definition finish_message ::
  "'x beast_input_scheme virtuals \<Rightarrow> 'x beast_input_scheme \<Rightarrow> failure + 'x beast_input_scheme" where
  "finish_message v s =
     ebind (dispatch_message v (saw_good_message v s)) (\<lambda>s. Inr (s\<lparr>parser := READ_1A\<rparr>))"

text \<open>
  One round of the outer loop of \<open>parse_input\<close> on the bytes from \<open>p\<close> on, which are not empty:
  the new state, the bytes left, and whether \<open>last_good_message_end\<close> was set to them.
\<close>

definition parse_round ::
  "'x beast_input_scheme virtuals \<Rightarrow> 'x beast_input_scheme \<Rightarrow> bytebuf \<Rightarrow>
    failure + 'x beast_input_scheme \<times> bytebuf \<times> bool" where
  "parse_round v s p =
     (case parser s of
        RESYNC \<Rightarrow>
          (let (st, rest) = resync_scan p in Inr (s\<lparr>parser := st\<rparr>, rest, False))
      | READ_1A \<Rightarrow>
          (if hd p = 0x1A then Inr (s\<lparr>parser := READ_TYPE\<rparr>, tl p, False)
           else Inr (lost_sync s, p, False))
      | READ_TYPE \<Rightarrow>
          (let s = s\<lparr>messagetype := messagetype_from_byte (hd p)\<rparr> in
           if messagetype s = INVALID then Inr (lost_sync s, p, False)
           else Inr (s\<lparr>metadata := [], messagedata := [], parser := READ_DATA\<rparr>, tl p, False))
      | READ_DATA \<Rightarrow>
          (let msglen = message_size (messagetype s);
               (s, rest) = read_data msglen s p
           in if msglen \<le> length (messagedata s)
              then ebind (finish_message v s) (\<lambda>s. Inr (s, rest, True))
              else Inr (s, rest, False))
      | READ_ESCAPED_1A \<Rightarrow>
          (if hd p \<noteq> 0x1A then Inr (lost_sync s, p, False)
           else let s = push_byte (hd p) s in
             if message_size (messagetype s) \<le> length (messagedata s)
             then ebind (finish_message v s) (\<lambda>s. Inr (s, tl p, True))
             else Inr (s\<lparr>parser := READ_DATA\<rparr>, tl p, False)))"

text \<open>Every round takes a byte or moves towards \<open>RESYNC\<close>, which always takes one.\<close>

fun parser_rank :: "parser_state \<Rightarrow> nat" where
  "parser_rank RESYNC = 0"
| "parser_rank READ_DATA = 2"
| "parser_rank _ = 1"

lemma resync_scan_shorter: "p \<noteq> [] \<Longrightarrow> length (snd (resync_scan p)) < length p"
  by (induction p rule: resync_scan.induct) auto

lemma read_data_no_longer: "length (snd (read_data n s p)) \<le> length p"
proof (induction n s p rule: read_data.induct)
  case (2 n s b p)
  show ?case
  proof (cases p)
    case Nil
    then show ?thesis by simp
  next
    case (Cons c r)
    then show ?thesis using 2 by (auto intro: le_SucI)
  qed
qed simp

lemma read_data_shorter:
  assumes "p \<noteq> []" and "length (messagedata s) < n"
  shows "length (snd (read_data n s p)) < length p"
proof (cases p)
  case (Cons b r)
  show ?thesis
  proof (cases r)
    case Nil
    then show ?thesis using Cons assms(2) by simp
  next
    case (Cons c r')
    have "length (snd (read_data n (push_byte b s) r)) \<le> length r"
      "length (snd (read_data n (push_byte b s) r')) \<le> length r'"
      by (rule read_data_no_longer)+
    then show ?thesis
      using Cons \<open>p = b # r\<close> assms(2)
      by (auto simp del: read_data.simps simp: read_data.simps(2) [of n s b "c # r'"])
  qed
qed (use assms in simp)

lemma read_data_messagedata:
  "\<not> length (messagedata s) < n \<Longrightarrow> read_data n s p = (s, p)"
  by (cases p) simp_all

lemma parse_round_decreases:
  assumes "parse_round v s p = Inr (s', p', g)" and "p \<noteq> []"
  shows "length p' < length p \<or> length p' = length p \<and> parser_rank (parser s') < parser_rank (parser s)"
proof (cases "parser s")
  case RESYNC
  then show ?thesis
    using assms resync_scan_shorter [OF assms(2)] by (auto simp: parse_round_def split: prod.splits)
next
  case READ_DATA
  obtain t r where rd: "read_data (message_size (messagetype s)) s p = (t, r)"
    by (cases "read_data (message_size (messagetype s)) s p")
  show ?thesis
  proof (cases "length (messagedata s) < message_size (messagetype s)")
    case True
    then have "length r < length p"
      using read_data_shorter [OF assms(2)] rd by fastforce
    then show ?thesis
      using assms READ_DATA rd by (auto simp: parse_round_def ebind_Inr_iff split: if_splits)
  next
    case False
    then have "r = p" and "t = s" using rd read_data_messagedata by force+
    then show ?thesis
      using assms READ_DATA rd False
      by (auto simp: parse_round_def ebind_Inr_iff finish_message_def)
  qed
qed (use assms in \<open>cases p; auto simp: parse_round_def lost_sync_def Let_def ebind_Inr_iff
      split: if_splits\<close>)+

text \<open>
  The outer loop; the last argument is the number of bytes of the buffer after
  \<open>last_good_message_end\<close>.
\<close>

function parse_loop ::
  "'x beast_input_scheme virtuals \<Rightarrow> 'x beast_input_scheme \<Rightarrow> bytebuf \<Rightarrow> nat \<Rightarrow>
    failure + 'x beast_input_scheme \<times> nat" where
  "parse_loop v s p after_good =
     (if p = [] then Inr (s, after_good)
      else case parse_round v s p of
          Inl e \<Rightarrow> Inl e
        | Inr (s', p', good) \<Rightarrow> parse_loop v s' p' (if good then length p' else after_good))"
  by pat_completeness auto
termination
  by (relation "measures [\<lambda>(v, s, p, n). length p, \<lambda>(v, s, p, n). parser_rank (parser s)]")
     (auto dest: parse_round_decreases)

declare parse_loop.simps [simp del]

definition parse_input ::
  "'x beast_input_scheme virtuals \<Rightarrow> bytebuf \<Rightarrow> 'x beast_input_scheme \<Rightarrow>
    failure + 'x beast_input_scheme" where
  "parse_input v buf s =
     ebind (parse_loop v s buf (length buf)) (\<lambda>(s, after_good).
       Inr (if \<not> good_sync s
            then s\<lparr>bad_bytes_count := bad_bytes_count s + word_of_nat after_good\<rparr> else s))"

subsection \<open>The reference: one byte at a time\<close>

text \<open>
  The protocol as a state machine that reads a byte and changes state, without looking ahead.
  \<open>RESYNC\<close> waits for a byte that is not 0x1A, \<open>READ_1A\<close> for a 0x1A after one.
\<close>

definition resync_byte :: "'x beast_input_scheme \<Rightarrow> byte \<Rightarrow> 'x beast_input_scheme" where
  "resync_byte s b = s\<lparr>parser := (if b \<noteq> 0x1A then READ_1A else RESYNC)\<rparr>"

definition take_byte ::
  "'x beast_input_scheme virtuals \<Rightarrow> 'x beast_input_scheme \<Rightarrow> byte \<Rightarrow> failure + 'x beast_input_scheme" where
  "take_byte v s b =
     (let s = push_byte b s in
      if message_size (messagetype s) \<le> length (messagedata s) then finish_message v s else Inr s)"

definition byte_step ::
  "'x beast_input_scheme virtuals \<Rightarrow> 'x beast_input_scheme \<Rightarrow> byte \<Rightarrow> failure + 'x beast_input_scheme" where
  "byte_step v s b =
     (case parser s of
        RESYNC \<Rightarrow> Inr (resync_byte s b)
      | READ_1A \<Rightarrow>
          (if b = 0x1A then Inr (s\<lparr>parser := READ_TYPE\<rparr>) else Inr (resync_byte (lost_sync s) b))
      | READ_TYPE \<Rightarrow>
          (let s = s\<lparr>messagetype := messagetype_from_byte b\<rparr> in
           if messagetype s = INVALID then Inr (resync_byte (lost_sync s) b)
           else Inr (s\<lparr>metadata := [], messagedata := [], parser := READ_DATA\<rparr>))
      | READ_DATA \<Rightarrow>
          (if b = 0x1A then Inr (s\<lparr>parser := READ_ESCAPED_1A\<rparr>) else take_byte v s b)
      | READ_ESCAPED_1A \<Rightarrow>
          (if b = 0x1A then take_byte v (s\<lparr>parser := READ_DATA\<rparr>) b
           else Inr (resync_byte (lost_sync s) b)))"

lemma push_byte_frame [simp]:
  "messagetype (push_byte b s) = messagetype s" "parser (push_byte b s) = parser s"
  "calls (push_byte b s) = calls s"
  "push_byte b (s\<lparr>parser := st\<rparr>) = (push_byte b s)\<lparr>parser := st\<rparr>"
  "push_byte b (s\<lparr>bad_bytes_count := n\<rparr>) = (push_byte b s)\<lparr>bad_bytes_count := n\<rparr>"
  by (simp_all add: push_byte_def)

text \<open>The state in which a complete frame is dispatched.\<close>

definition framed :: "message_type \<Rightarrow> bytebuf \<Rightarrow> bytebuf \<Rightarrow> 'x beast_input_scheme \<Rightarrow> 'x beast_input_scheme"
  where "framed type ms d s =
    s\<lparr>messagetype := type, metadata := ms, messagedata := d, parser := READ_DATA\<rparr>"

text \<open>What holds of the parser's state between any two bytes.\<close>

definition parser_ok :: "'x beast_input_scheme \<Rightarrow> bool" where
  "parser_ok s \<longleftrightarrow>
     (parser s = RESYNC \<longrightarrow> \<not> good_sync s \<and> good_messages_count s = 0) \<and>
     (parser s = READ_DATA \<or> parser s = READ_ESCAPED_1A \<longrightarrow>
        length (messagedata s) < message_size (messagetype s) \<and> length (metadata s) \<le> 7 \<and>
        (messagedata s \<noteq> [] \<longrightarrow> length (metadata s) = 7))"

text \<open>The link is up while writes succeed; the receiver is up to date when it has the wanted settings.\<close>

definition link_up :: "'x beast_input_scheme virtuals \<Rightarrow> 'x beast_input_scheme \<Rightarrow> bool" where
  "link_up v s \<longleftrightarrow> (\<forall>d. fst (low_level_write v d s))"

definition up_to_date :: "'x beast_input_scheme virtuals \<Rightarrow> 'x beast_input_scheme \<Rightarrow> bool" where
  "up_to_date v s \<longleftrightarrow> settings_eq (wanted_settings v s) (current_settings s)"

lemma connection_established_sends:
  assumes "connection_established v s = Inr t"
  obtains u where "send_settings_message v u = Inr t" "beast_input.more u = beast_input.more s"
    "parser u = READ_1A" "\<not> good_sync u" "fixed_settings u = fixed_settings s"
    "input_filter u = input_filter s"
    "receiver_type u = (if radarcape (fixed_settings s) = ON then RADARCAPE
       else if radarcape (fixed_settings s) = OFF then BEAST else UNKNOWN_RECEIVER)"
  by (rule that [OF assms [unfolded connection_established_def Let_def]]) simp_all

text \<open>
  What the base class needs of its virtual functions. They do not touch the private members
  of the parser; \<open>saw_good_message\<close> does to the rest of the base class what the base version
  does, \<open>can_dispatch\<close> is stricter than the base version, a successful write is recorded and an
  unsuccessful one changes nothing, and no connection setting changes the receiver type or the
  binary format.
\<close>

locale input_virtuals =
  fixes v :: "'x beast_input_scheme virtuals"
  assumes saw_good: "beast_input.truncate (saw_good_message v s) =
      base_saw_good_message (beast_input.truncate s)"
    and saw_good_parser: "saw_good_message v (s\<lparr>parser := st\<rparr>) = (saw_good_message v s)\<lparr>parser := st\<rparr>"
    and saw_good_bad_bytes: "saw_good_message v (s\<lparr>bad_bytes_count := n\<rparr>) = saw_good_message v s"
    and dispatch_parser: "can_dispatch v (s\<lparr>parser := st\<rparr>) = can_dispatch v s"
    and dispatch_bad_bytes: "can_dispatch v (s\<lparr>bad_bytes_count := n\<rparr>) = can_dispatch v s"
    and dispatch_base: "can_dispatch v s \<Longrightarrow> base_can_dispatch s"
    and write_log: "beast_input.truncate (snd (low_level_write v d s)) =
      (let t = beast_input.truncate s in
       if fst (low_level_write v d s) then t\<lparr>calls := calls t @ [Write_out d]\<rparr> else t)"
    and write_parser: "low_level_write v d (s\<lparr>parser := st\<rparr>) =
      map_prod id (\<lambda>s. s\<lparr>parser := st\<rparr>) (low_level_write v d s)"
    and write_bad_bytes: "low_level_write v d (s\<lparr>bad_bytes_count := n\<rparr>) =
      map_prod id (\<lambda>s. s\<lparr>bad_bytes_count := n\<rparr>) (low_level_write v d s)"
    and write_link: "beast_input.more s = beast_input.more s' \<Longrightarrow>
      fst (low_level_write v d s) = fst (low_level_write v d' s')"
    and saw_good_link: "fst (low_level_write v d (saw_good_message v s)) = fst (low_level_write v d s)"
    and write_keeps_link: "fst (low_level_write v d' (snd (low_level_write v d s))) =
      fst (low_level_write v d' s)"
    and apply_radarcape: "radarcape (apply_connection_settings v t) = radarcape t"
    and apply_binary: "binary_format (apply_connection_settings v t) = binary_format t"
begin

lemma wanted_settings_private:
  "wanted_settings v (s\<lparr>parser := st\<rparr>) = wanted_settings v s"
  "wanted_settings v (s\<lparr>bad_bytes_count := n\<rparr>) = wanted_settings v s"
  by (simp_all add: wanted_settings_def)

lemma wanted_radarcape: "radarcape (wanted_settings v s) = ts_of_bool (receiver_type s = RADARCAPE)"
  by (simp add: wanted_settings_def Let_def apply_radarcape)

text \<open>The \<open>std::logic_error\<close> of \<open>to_message\<close> is never thrown.\<close>

lemma wanted_to_message: "\<exists>d. to_message (wanted_settings v s) = Inr d"
  by (simp add: to_message_def wanted_radarcape ts_of_bool_def Let_def)

lemma send_settings_ends: "\<exists>s'. send_settings_message v s = Inr s'"
proof -
  obtain d where "to_message (wanted_settings v s) = Inr d" using wanted_to_message by blast
  then show ?thesis
    by (cases "low_level_write v d s") (simp add: send_settings_message_def Let_def)
qed

lemma send_settings_private:
  "send_settings_message v (s\<lparr>parser := st\<rparr>) =
    map_sum id (\<lambda>s. s\<lparr>parser := st\<rparr>) (send_settings_message v s)"
  "send_settings_message v (s\<lparr>bad_bytes_count := n\<rparr>) =
    map_sum id (\<lambda>s. s\<lparr>bad_bytes_count := n\<rparr>) (send_settings_message v s)"
proof -
  obtain d where "to_message (wanted_settings v s) = Inr d" using wanted_to_message by blast
  then show "send_settings_message v (s\<lparr>parser := st\<rparr>) =
      map_sum id (\<lambda>s. s\<lparr>parser := st\<rparr>) (send_settings_message v s)"
    "send_settings_message v (s\<lparr>bad_bytes_count := n\<rparr>) =
      map_sum id (\<lambda>s. s\<lparr>bad_bytes_count := n\<rparr>) (send_settings_message v s)"
    by (cases "low_level_write v d s";
        simp add: send_settings_message_def wanted_settings_private write_parser write_bad_bytes Let_def)+
qed

lemma private_last:
  "s\<lparr>parser := st, receiving_gps_timestamps := b, receiver_type := r, autodetect_timer := a\<rparr> =
    s\<lparr>receiving_gps_timestamps := b, receiver_type := r, autodetect_timer := a, parser := st\<rparr>"
  "s\<lparr>bad_bytes_count := n, receiving_gps_timestamps := b, receiver_type := r, autodetect_timer := a\<rparr> =
    s\<lparr>receiving_gps_timestamps := b, receiver_type := r, autodetect_timer := a, bad_bytes_count := n\<rparr>"
  by simp_all

lemma note_status_private:
  "note_status v (s\<lparr>parser := st\<rparr>) = map_sum id (\<lambda>s. s\<lparr>parser := st\<rparr>) (note_status v s)"
  "note_status v (s\<lparr>bad_bytes_count := n\<rparr>) =
    map_sum id (\<lambda>s. s\<lparr>bad_bytes_count := n\<rparr>) (note_status v s)"
proof -
  let ?s = "s\<lparr>receiving_gps_timestamps := (gps_timestamps (settings_of_byte (messagedata s ! 0)) = ON),
    receiver_type := RADARCAPE, autodetect_timer := False\<rparr>"
  obtain t where "send_settings_message v ?s = Inr t" using send_settings_ends by blast
  then show "note_status v (s\<lparr>parser := st\<rparr>) = map_sum id (\<lambda>s. s\<lparr>parser := st\<rparr>) (note_status v s)"
    "note_status v (s\<lparr>bad_bytes_count := n\<rparr>) =
      map_sum id (\<lambda>s. s\<lparr>bad_bytes_count := n\<rparr>) (note_status v s)"
    using send_settings_private(1) [of st ?s] send_settings_private(2) [of n ?s]
    by (simp_all add: note_status_def private_last Let_def)
qed

lemma note_status_ends: "\<exists>s'. note_status v s = Inr s'"
  using send_settings_ends by (auto simp: note_status_def Let_def ebind_Inr_iff)

lemma dispatch_private:
  "dispatch_message v (s\<lparr>parser := st\<rparr>) = map_sum id (\<lambda>s. s\<lparr>parser := st\<rparr>) (dispatch_message v s)"
  "dispatch_message v (s\<lparr>bad_bytes_count := n\<rparr>) =
    map_sum id (\<lambda>s. s\<lparr>bad_bytes_count := n\<rparr>) (dispatch_message v s)"
proof -
  obtain t where t: "(if messagetype s = STATUS then note_status v s else Inr s) = Inr t"
    using note_status_ends by (cases "messagetype s = STATUS") auto
  show "dispatch_message v (s\<lparr>parser := st\<rparr>) = map_sum id (\<lambda>s. s\<lparr>parser := st\<rparr>) (dispatch_message v s)"
    using t
    by (cases "messagetype s = STATUS"; cases "messagetype t = POSITION")
       (auto simp: dispatch_message_def note_status_private dispatch_parser Let_def make_message_def)
  show "dispatch_message v (s\<lparr>bad_bytes_count := n\<rparr>) =
      map_sum id (\<lambda>s. s\<lparr>bad_bytes_count := n\<rparr>) (dispatch_message v s)"
    using t
    by (cases "messagetype s = STATUS"; cases "messagetype t = POSITION")
       (auto simp: dispatch_message_def note_status_private dispatch_bad_bytes Let_def make_message_def)
qed

lemma finish_private:
  "finish_message v (s\<lparr>parser := st\<rparr>) = finish_message v s"
  "finish_message v (s\<lparr>bad_bytes_count := n\<rparr>) = finish_message v s"
proof -
  show "finish_message v (s\<lparr>parser := st\<rparr>) = finish_message v s"
    by (cases "dispatch_message v (saw_good_message v s)")
       (simp_all add: finish_message_def saw_good_parser dispatch_private)
  show "finish_message v (s\<lparr>bad_bytes_count := n\<rparr>) = finish_message v s"
    by (simp add: finish_message_def saw_good_bad_bytes)
qed

lemma finish_result:
  assumes "finish_message v s = Inr s'"
  shows "parser s' = READ_1A"
  using assms by (auto simp: finish_message_def ebind_Inr_iff)

lemma step_lost: "byte_step v (lost_sync s) b = Inr (resync_byte (lost_sync s) b)"
  by (simp add: byte_step_def lost_sync_def)

lemma fold_lost_sync:
  assumes "byte_step v s b = Inr (resync_byte (lost_sync s) b)"
  shows "efold (byte_step v) s (b # p) = efold (byte_step v) (lost_sync s) (b # p)"
  using assms by (simp add: step_lost)

lemma parser_ok_lost [simp]: "parser_ok (lost_sync s)"
  by (simp add: parser_ok_def lost_sync_def)

lemma push_byte_ok:
  assumes "parser_ok s" and "parser s = READ_DATA"
    and "length (messagedata (push_byte b s)) < message_size (messagetype s)"
  shows "parser_ok (push_byte b s)" "parser (push_byte b s) = READ_DATA"
    "messagetype (push_byte b s) = messagetype s"
  using assms by (auto simp: parser_ok_def push_byte_def)

lemma take_byte_data:
  assumes "parser s = READ_DATA"
  shows "byte_step v s b =
    (if b = 0x1A then Inr (s\<lparr>parser := READ_ESCAPED_1A\<rparr>) else take_byte v s b)"
    and "byte_step v (s\<lparr>parser := READ_ESCAPED_1A\<rparr>) b =
      (if b = 0x1A then take_byte v s b else Inr (resync_byte (lost_sync s) b))"
proof -
  have "s\<lparr>parser := READ_DATA\<rparr> = s" using assms by (metis beast_input.surjective beast_input.update_convs(17))
  then show "byte_step v (s\<lparr>parser := READ_ESCAPED_1A\<rparr>) b =
      (if b = 0x1A then take_byte v s b else Inr (resync_byte (lost_sync s) b))"
    by (simp add: byte_step_def lost_sync_def)
qed (simp add: byte_step_def assms)

lemma fold_read_data:
  assumes "parser_ok s" and "parser s = READ_DATA" and "n = message_size (messagetype s)"
    and "read_data n s p = (t, r)"
  shows "if n \<le> length (messagedata t)
    then efold (byte_step v) s p = ebind (finish_message v t) (\<lambda>u. efold (byte_step v) u r)
    else efold (byte_step v) s p = efold (byte_step v) t r \<and> parser_ok t"
  using assms
proof (induction n s p arbitrary: t r rule: read_data.induct)
  case (1 n s)
  then show ?case by (auto simp: parser_ok_def)
next
  case (2 n s b p)
  have len: "length (messagedata s) < n" using "2.prems"(1-3) by (auto simp: parser_ok_def)
  define u where "u = push_byte b s"
  have step: "if n \<le> length (messagedata t)
      then efold (byte_step v) s (b # p) = ebind (finish_message v t) (\<lambda>w. efold (byte_step v) w r)
      else efold (byte_step v) s (b # p) = efold (byte_step v) t r \<and> parser_ok t"
    if f: "efold (byte_step v) s (b # p) = ebind (take_byte v s b) (\<lambda>w. efold (byte_step v) w q)"
      and rd: "read_data n u q = (t, r)"
      and IH: "parser_ok u \<Longrightarrow> parser u = READ_DATA \<Longrightarrow> n = message_size (messagetype u) \<Longrightarrow>
        if n \<le> length (messagedata t)
        then efold (byte_step v) u q = ebind (finish_message v t) (\<lambda>w. efold (byte_step v) w r)
        else efold (byte_step v) u q = efold (byte_step v) t r \<and> parser_ok t" for q
  proof (cases "length (messagedata u) < n")
    case True
    then have "parser_ok u" "parser u = READ_DATA" "n = message_size (messagetype u)"
      using push_byte_ok [OF "2.prems"(1,2)] "2.prems"(3) by (simp_all add: u_def)
    moreover from this have "take_byte v s b = Inr u"
      using True by (simp add: take_byte_def Let_def flip: u_def)
    ultimately show ?thesis using IH f by simp
  next
    case False
    have "messagetype u = messagetype s" by (simp add: u_def push_byte_def)
    then have "take_byte v s b = finish_message v u"
      using False "2.prems"(3) by (simp add: take_byte_def Let_def flip: u_def)
    then show ?thesis using read_data_messagedata [OF False] rd f False by simp
  qed
  show ?case
  proof (cases "b = 0x1A")
    case False
    show ?thesis
    proof (rule step)
      show "efold (byte_step v) s (b # p) = ebind (take_byte v s b) (\<lambda>w. efold (byte_step v) w p)"
        using False take_byte_data(1) [OF "2.prems"(2)] by simp
      show "read_data n u p = (t, r)" using False len "2.prems"(4) by (simp add: u_def)
    qed (use "2.IH"(2) [OF len False] False len "2.prems"(4) in \<open>simp add: u_def\<close>)
  next
    case True
    show ?thesis
    proof (cases p)
      case Nil
      then show ?thesis
        using True "2.prems" len take_byte_data(1) [OF "2.prems"(2)]
        by (auto simp: parser_ok_def)
    next
      case (Cons c q)
      note esc = take_byte_data [OF "2.prems"(2)]
      show ?thesis
      proof (cases "c = 0x1A")
        case True
        have rd: "read_data n u q = (t, r)"
          using True \<open>b = 0x1A\<close> Cons len "2.prems"(4) by (simp add: u_def)
        show ?thesis
        proof (rule step [OF _ rd])
          show "efold (byte_step v) s (b # p) = ebind (take_byte v s b) (\<lambda>w. efold (byte_step v) w q)"
            using True \<open>b = 0x1A\<close> Cons esc by simp
        qed (use "2.IH"(1) [OF len \<open>b = 0x1A\<close> Cons, folded u_def] True rd in blast)
      next
        case False
        then have "efold (byte_step v) s (b # p) = efold (byte_step v) (lost_sync s) (c # q)"
          using esc Cons \<open>b = 0x1A\<close> by (simp add: step_lost)
        moreover have "t = lost_sync s" "r = c # q"
          using False "2.prems"(4) len Cons \<open>b = 0x1A\<close> by auto
        moreover from this have "messagedata t = messagedata s" by (simp add: lost_sync_def)
        ultimately show ?thesis using len by simp
      qed
    qed
  qed
qed

lemma fold_resync:
  assumes "parser_ok s" and "parser s = RESYNC"
  shows "efold (byte_step v) s p =
    efold (byte_step v) (s\<lparr>parser := fst (resync_scan p)\<rparr>) (snd (resync_scan p))"
  using assms
proof (induction p rule: resync_scan.induct)
  case 1
  then show ?case by (metis beast_input.surjective beast_input.update_convs(17) resync_scan.simps(1) fst_conv snd_conv)
next
  case (2 p)
  then show ?case by (simp add: byte_step_def resync_byte_def)
next
  case (3 p q rest)
  have "lost_sync s = s" using "3.prems" by (simp add: parser_ok_def lost_sync_def)
  moreover have "lost_sync (s\<lparr>parser := READ_1A\<rparr>) = lost_sync s" by (simp add: lost_sync_def)
  ultimately have lost: "lost_sync (s\<lparr>parser := READ_1A\<rparr>) = s" by simp
  have skip: "efold (byte_step v) s (p # q # rest) = efold (byte_step v) s (q # rest)"
    if "\<not> (p \<noteq> 0x1A \<and> q = 0x1A)"
  proof (cases "p = 0x1A")
    case True
    have "byte_step v s p = Inr s"
      using True "3.prems"(2) by (simp add: byte_step_def resync_byte_def)
    then show ?thesis by simp
  next
    case False
    then have "q \<noteq> 0x1A" using that by simp
    then have "byte_step v (s\<lparr>parser := READ_1A\<rparr>) q = byte_step v s q"
      using "3.prems"(2) lost by (simp add: byte_step_def)
    moreover have "byte_step v s p = Inr (s\<lparr>parser := READ_1A\<rparr>)"
      using False "3.prems"(2) by (simp add: byte_step_def resync_byte_def)
    ultimately show ?thesis by simp
  qed
  show ?case
  proof (cases "p \<noteq> 0x1A \<and> q = 0x1A")
    case True
    then show ?thesis using "3.prems"(2) by (simp add: byte_step_def resync_byte_def)
  next
    case False
    then have "resync_scan (p # q # rest) = resync_scan (q # rest)" by auto
    then show ?thesis by (simp only: skip [OF False] "3.IH" [OF False "3.prems"])
  qed
qed

lemma resync_state: "fst (resync_scan p) \<in> {RESYNC, READ_1A, READ_TYPE}"
  by (induction p rule: resync_scan.induct) auto

lemma finish_ok: "finish_message v s = Inr s' \<Longrightarrow> parser_ok s'"
  using finish_result by (simp add: parser_ok_def)

text \<open>One round of the code's loop does what the reference does on the bytes it takes.\<close>

lemma round_fold:
  assumes "parser_ok s" and "p \<noteq> []"
  shows "case parse_round v s p of
      Inl e \<Rightarrow> efold (byte_step v) s p = Inl e
    | Inr (t, r, _) \<Rightarrow> efold (byte_step v) s p = efold (byte_step v) t r \<and> parser_ok t"
proof (cases "parser s")
  case RESYNC
  then show ?thesis
    using fold_resync [OF assms(1) RESYNC, of p] assms(1) resync_state [of p]
    by (cases "resync_scan p") (auto simp: parse_round_def parser_ok_def)
next
  case READ_DATA
  let ?n = "message_size (messagetype s)"
  obtain t r where rd: "read_data ?n s p = (t, r)" by (cases "read_data ?n s p")
  from fold_read_data [OF assms(1) READ_DATA refl rd] show ?thesis
    using READ_DATA rd finish_ok
    by (cases "finish_message v t") (auto simp: parse_round_def Let_def)
next
  case READ_ESCAPED_1A
  obtain b r where p: "p = b # r" using assms(2) by (cases p) auto
  show ?thesis
  proof (cases "b = 0x1A")
    case False
    then show ?thesis
      using READ_ESCAPED_1A p fold_lost_sync [of s b r] by (simp add: parse_round_def byte_step_def)
  next
    case True
    let ?s = "s\<lparr>parser := READ_DATA\<rparr>"
    have ok: "parser_ok ?s" using assms(1) READ_ESCAPED_1A by (auto simp: parser_ok_def)
    have "parser_ok ((push_byte b s)\<lparr>parser := READ_DATA\<rparr>)"
      if "length (messagedata (push_byte b s)) < message_size (messagetype s)"
      using push_byte_ok(1) [OF ok, of b] that by simp
    then show ?thesis
      using READ_ESCAPED_1A p True finish_ok
      by (cases "finish_message v (push_byte b s)")
         (auto simp: parse_round_def byte_step_def take_byte_def Let_def finish_private)
  qed
next
  case READ_1A
  obtain b r where p: "p = b # r" using assms(2) by (cases p) auto
  show ?thesis
  proof (cases "b = 0x1A")
    case True
    then show ?thesis using READ_1A p by (simp add: parse_round_def byte_step_def parser_ok_def)
  next
    case False
    then show ?thesis
      using READ_1A p fold_lost_sync [of s b r] by (simp add: parse_round_def byte_step_def)
  qed
next
  case READ_TYPE
  obtain b r where p: "p = b # r" using assms(2) by (cases p) auto
  let ?s = "s\<lparr>messagetype := messagetype_from_byte b\<rparr>"
  show ?thesis
  proof (cases "messagetype_from_byte b = INVALID")
    case True
    then show ?thesis
      using READ_TYPE p step_lost [of ?s b] by (simp add: parse_round_def byte_step_def)
  next
    case False
    then have "0 < message_size (messagetype_from_byte b)"
      by (cases "messagetype_from_byte b") simp_all
    then show ?thesis
      using READ_TYPE p False by (simp add: parse_round_def byte_step_def parser_ok_def)
  qed
qed

lemma parse_loop_fold:
  assumes "parser_ok s"
  shows "map_sum id fst (parse_loop v s p n) = efold (byte_step v) s p"
  using assms
proof (induction w \<equiv> v s p n rule: parse_loop.induct)
  case (1 s p n)
  show ?case
  proof (cases "p = []")
    case True
    then show ?thesis by (simp add: parse_loop.simps)
  next
    case False
    show ?thesis
    proof (cases "parse_round v s p")
      case (Inl e)
      then show ?thesis
        using round_fold [OF "1.prems" False] False by (subst parse_loop.simps) simp
    next
      case (Inr x)
      obtain t r g where x: "x = (t, r, g)" by (cases x)
      have e: "efold (byte_step v) s p = efold (byte_step v) t r" "parser_ok t"
        using round_fold [OF "1.prems" False] Inr x by simp_all
      then have "map_sum id fst (parse_loop v t r (if g then length r else n)) = efold (byte_step v) t r"
        using "1.hyps" [OF False Inr x [symmetric] refl e(2)] by simp
      then show ?thesis using Inr x e(1) False by (subst parse_loop.simps) simp
    qed
  qed
qed

text \<open>The count of bad bytes is the one thing that depends on how the bytes arrive.\<close>

abbreviation forget :: "'x beast_input_scheme \<Rightarrow> 'x beast_input_scheme" where
  "forget s \<equiv> s\<lparr>bad_bytes_count := 0\<rparr>"

lemma forget_eqE:
  assumes "forget s = forget t"
  obtains n where "s = t\<lparr>bad_bytes_count := n\<rparr>"
proof -
  have "s = (forget s)\<lparr>bad_bytes_count := bad_bytes_count s\<rparr>" by simp
  then have "s = t\<lparr>bad_bytes_count := bad_bytes_count s\<rparr>" using assms by simp
  then show ?thesis by (rule that)
qed

lemma take_byte_bad_bytes:
  "map_sum id forget (take_byte v (s\<lparr>bad_bytes_count := n\<rparr>) b) = map_sum id forget (take_byte v s b)"
  by (simp add: take_byte_def finish_private Let_def)

lemma byte_step_bad_bytes:
  "map_sum id forget (byte_step v (s\<lparr>bad_bytes_count := n\<rparr>) b) = map_sum id forget (byte_step v s b)"
proof (cases "parser s")
  case READ_ESCAPED_1A
  have swap: "s\<lparr>bad_bytes_count := n, parser := READ_DATA\<rparr> =
      (s\<lparr>parser := READ_DATA\<rparr>)\<lparr>bad_bytes_count := n\<rparr>" by simp
  then show ?thesis
    using READ_ESCAPED_1A take_byte_bad_bytes [of n "s\<lparr>parser := READ_DATA\<rparr>" "0x1A"]
    by (simp add: byte_step_def resync_byte_def lost_sync_def swap)
qed (simp_all add: byte_step_def resync_byte_def lost_sync_def take_byte_bad_bytes Let_def)

lemma fold_bad_bytes:
  "map_sum id forget (efold (byte_step v) (s\<lparr>bad_bytes_count := n\<rparr>) p) =
    map_sum id forget (efold (byte_step v) s p)"
proof (induction p arbitrary: s n)
  case (Cons b p)
  show ?case
  proof (cases "byte_step v s b")
    case (Inl e)
    then have "byte_step v (s\<lparr>bad_bytes_count := n\<rparr>) b = Inl e"
      using byte_step_bad_bytes [of n s b] by (cases "byte_step v (s\<lparr>bad_bytes_count := n\<rparr>) b") simp_all
    then show ?thesis using Inl by simp
  next
    case (Inr t)
    then obtain t' where t': "byte_step v (s\<lparr>bad_bytes_count := n\<rparr>) b = Inr t'"
      using byte_step_bad_bytes [of n s b] by (cases "byte_step v (s\<lparr>bad_bytes_count := n\<rparr>) b") simp_all
    have "forget t' = forget t" using byte_step_bad_bytes [of n s b] Inr t' by simp
    then obtain k where "t' = t\<lparr>bad_bytes_count := k\<rparr>" by (rule forget_eqE)
    then show ?thesis using Inr t' Cons.IH [of k t] by simp
  qed
qed simp

lemma byte_step_ok:
  assumes "parser_ok s" and "byte_step v s b = Inr t"
  shows "parser_ok t"
proof -
  show ?thesis
  proof (cases "parser s")
    case READ_DATA
    then show ?thesis
      using assms push_byte_ok [of s b] finish_ok
      by (auto simp: byte_step_def take_byte_def Let_def parser_ok_def split: if_splits)
  next
    case READ_ESCAPED_1A
    then have "parser_ok (s\<lparr>parser := READ_DATA\<rparr>)" using assms(1) by (auto simp: parser_ok_def)
    then show ?thesis
      using assms READ_ESCAPED_1A push_byte_ok [of "s\<lparr>parser := READ_DATA\<rparr>" b] finish_ok
      by (auto simp: byte_step_def take_byte_def Let_def resync_byte_def lost_sync_def parser_ok_def
          split: if_splits)
  next
    case READ_TYPE
    have "0 < message_size t" if "t \<noteq> INVALID" for t using that by (cases t) simp_all
    then show ?thesis
      using assms READ_TYPE
      by (auto simp: byte_step_def Let_def resync_byte_def lost_sync_def parser_ok_def split: if_splits)
  qed (use assms in \<open>auto simp: byte_step_def resync_byte_def lost_sync_def parser_ok_def
        split: if_splits\<close>)
qed

lemma parse_input_fold:
  assumes "parser_ok s"
  shows "map_sum id forget (parse_input v p s) = map_sum id forget (efold (byte_step v) s p)"
proof (cases "parse_loop v s p (length p)")
  case (Inl e)
  then show ?thesis using parse_loop_fold [OF assms, of p "length p"] by (simp add: parse_input_def)
next
  case (Inr x)
  then show ?thesis
    using parse_loop_fold [OF assms, of p "length p"]
    by (cases x) (auto simp: parse_input_def dest: sym)
qed

lemma parse_input_ok:
  assumes "parser_ok s" and "parse_input v p s = Inr t"
  shows "parser_ok t"
proof -
  obtain u where u: "efold (byte_step v) s p = Inr u" "forget t = forget u"
    using parse_input_fold [OF assms(1), of p] assms(2)
    by (cases "efold (byte_step v) s p") simp_all
  have "parser_ok u" using byte_step_ok assms(1) u(1) by (rule efold_invariant)
  moreover obtain n where "t = u\<lparr>bad_bytes_count := n\<rparr>" using u(2) by (rule forget_eqE)
  ultimately show ?thesis by (simp add: parser_ok_def)
qed

lemma parse_input_chunks:
  assumes "parser_ok s"
  shows "map_sum id forget (parse_input v (p @ q) s) =
    map_sum id forget (ebind (parse_input v p s) (parse_input v q))"
proof (cases "parse_input v p s")
  case (Inl e)
  then have "efold (byte_step v) s p = Inl e"
    using parse_input_fold [OF assms, of p] by (cases "efold (byte_step v) s p") simp_all
  then show ?thesis using parse_input_fold [OF assms, of "p @ q"] Inl by (simp add: efold_append)
next
  case (Inr t)
  then obtain u where u: "efold (byte_step v) s p = Inr u" "forget t = forget u"
    using parse_input_fold [OF assms, of p] by (cases "efold (byte_step v) s p") simp_all
  obtain n where "t = u\<lparr>bad_bytes_count := n\<rparr>" using u(2) by (rule forget_eqE)
  then show ?thesis
    using parse_input_fold [OF assms, of "p @ q"] parse_input_fold [OF parse_input_ok [OF assms Inr], of q]
      fold_bad_bytes [of n u q] Inr u(1)
    by (simp add: efold_append)
qed

text \<open>A whole escaped frame, from the point of view of the reference.\<close>

lemma fold_escape_Cons:
  assumes "parser s = READ_DATA"
  shows "efold (byte_step v) s (escape_1A (b # d)) =
    ebind (take_byte v s b) (\<lambda>t. efold (byte_step v) t (escape_1A d))"
  using take_byte_data [OF assms] by (simp add: escape_1A_def)

lemma fold_escape_step:
  assumes "parser s = READ_DATA" and "length (messagedata (push_byte b s)) < message_size (messagetype s)"
  shows "efold (byte_step v) s (escape_1A (b # d)) = efold (byte_step v) (push_byte b s) (escape_1A d)"
  using fold_escape_Cons [OF assms(1)] assms(2) by (simp add: take_byte_def Let_def)

lemma fold_metadata:
  assumes "parser s = READ_DATA" and "messagedata s = []" and "0 < message_size (messagetype s)"
    and "length (metadata s) + length ms \<le> 7"
  shows "efold (byte_step v) s (escape_1A (ms @ d)) =
    efold (byte_step v) (s\<lparr>metadata := metadata s @ ms\<rparr>) (escape_1A d)"
  using assms
proof (induction ms arbitrary: s)
  case (Cons b ms)
  then have p: "push_byte b s = s\<lparr>metadata := metadata s @ [b]\<rparr>" by (simp add: push_byte_def)
  have "efold (byte_step v) s (escape_1A ((b # ms) @ d)) =
      efold (byte_step v) (push_byte b s) (escape_1A (ms @ d))"
    using fold_escape_step [of s b "ms @ d"] Cons.prems p by simp
  then show ?case using Cons.IH [of "push_byte b s"] Cons.prems p by simp
qed simp

lemma fold_data:
  assumes "parser s = READ_DATA" and "length (metadata s) = 7" and "d \<noteq> []"
    and "length (messagedata s) + length d = message_size (messagetype s)"
  shows "efold (byte_step v) s (escape_1A d) = finish_message v (s\<lparr>messagedata := messagedata s @ d\<rparr>)"
  using assms
proof (induction d arbitrary: s)
  case (Cons b d)
  then have p: "push_byte b s = s\<lparr>messagedata := messagedata s @ [b]\<rparr>" by (simp add: push_byte_def)
  show ?case
  proof (cases "d = []")
    case True
    then have "take_byte v s b = finish_message v (push_byte b s)"
      using Cons.prems p by (simp add: take_byte_def Let_def)
    then show ?thesis
      using fold_escape_Cons [OF Cons.prems(1), of b d] True p
      by (cases "finish_message v (push_byte b s)") (simp_all add: escape_1A_def)
  next
    case False
    then have "Suc (length (messagedata s)) < message_size (messagetype s)"
      using Cons.prems(4) by (cases d) simp_all
    then have "efold (byte_step v) s (escape_1A (b # d)) =
        efold (byte_step v) (push_byte b s) (escape_1A d)"
      using Cons.prems p by (intro fold_escape_step) simp_all
    then show ?thesis using Cons.IH [of "push_byte b s"] Cons.prems False p by simp
  qed
qed simp

lemma fold_frame:
  assumes "parser s = READ_1A" and "messagetype_from_byte tb = type" and "type \<noteq> INVALID"
    and "length ms = 7" and "length d = message_size type"
  shows "efold (byte_step v) s ([0x1A, tb] @ escape_1A (ms @ d)) = finish_message v (framed type ms d s)"
proof -
  let ?s = "s\<lparr>messagetype := type, metadata := [], messagedata := [], parser := READ_DATA\<rparr>"
  have size: "0 < message_size type" using assms(3) by (cases type) simp_all
  then have "d \<noteq> []" using assms(5) by auto
  have "efold (byte_step v) s ([0x1A, tb] @ escape_1A (ms @ d)) =
      efold (byte_step v) ?s (escape_1A (ms @ d))"
    using assms(1-3) by (simp add: byte_step_def)
  also have "\<dots> = efold (byte_step v) (?s\<lparr>metadata := ms\<rparr>) (escape_1A d)"
    using fold_metadata [of ?s ms d] size assms(4) by simp
  also have "\<dots> = finish_message v (?s\<lparr>metadata := ms, messagedata := d\<rparr>)"
    using fold_data [of "?s\<lparr>metadata := ms\<rparr>" d] \<open>d \<noteq> []\<close> assms(4,5) by simp
  also have "?s\<lparr>metadata := ms, messagedata := d\<rparr> = framed type ms d s"
    by (simp add: framed_def)
  finally show ?thesis .
qed

end

lemma messagetype_byte:
  "type \<noteq> INVALID \<Longrightarrow> type \<noteq> POSITION \<Longrightarrow> messagetype_from_byte (messagetype_to_byte type) = type"
  by (cases type) (simp_all add: messagetype_from_byte_def)

lemma bit_byte_field:
  "n < 64 \<Longrightarrow> bit (push_bit k (ucast (byte_at k t) :: u64)) n \<longleftrightarrow> k \<le> n \<and> n < k + 8 \<and> bit t n"
  by (auto simp: bit_push_bit_iff bit_ucast_iff bit_byte_at)

lemma metadata_timestamp_bytes:
  "metadata_timestamp (timestamp_bytes t @ ms) = take_bit 48 t"
proof (rule bit_word_eqI)
  fix n
  assume n: "n < LENGTH(64)"
  then have "bit (ucast (byte_at 0 t) :: u64) n \<longleftrightarrow> n < 8 \<and> bit t n"
    using bit_byte_field [of n 0 t] by simp
  then have "bit (metadata_timestamp (timestamp_bytes t @ ms)) n \<longleftrightarrow>
      (40 \<le> n \<and> n < 48 \<or> 32 \<le> n \<and> n < 40 \<or> 24 \<le> n \<and> n < 32 \<or> 16 \<le> n \<and> n < 24 \<or>
       8 \<le> n \<and> n < 16 \<or> n < 8) \<and> bit t n"
    using n by (simp add: metadata_timestamp_def timestamp_bytes_def bit_or_iff bit_byte_field
        nth_append) blast
  also have "(40 \<le> n \<and> n < 48 \<or> 32 \<le> n \<and> n < 40 \<or> 24 \<le> n \<and> n < 32 \<or> 16 \<le> n \<and> n < 24 \<or>
       8 \<le> n \<and> n < 16 \<or> n < 8) \<longleftrightarrow> n < 48" by linarith
  finally show "bit (metadata_timestamp (timestamp_bytes t @ ms)) n = bit (take_bit 48 t) n"
    by (simp add: bit_take_bit_iff)
qed

lemma bit_pushed_byte: "bit (push_bit k (ucast (b :: byte)) :: u64) n \<Longrightarrow> n < k + 8"
  by (auto simp: bit_push_bit_iff bit_ucast_iff dest: bit_imp_le_length)

lemma metadata_timestamp_bound: "unat (metadata_timestamp ms) < 2 ^ 48"
proof -
  have "n < 48" if n: "bit (metadata_timestamp ms) n" for n
    using n unfolding metadata_timestamp_def bit_or_iff
  proof (elim disjE)
    assume "bit (ucast (ms ! 5) :: u64) n"
    then show ?thesis using bit_pushed_byte [of 0 "ms ! 5" n] by simp
  qed (drule bit_pushed_byte, simp)+
  then have "metadata_timestamp ms = take_bit 48 (metadata_timestamp ms)"
    by (intro bit_word_eqI) (auto simp: bit_take_bit_iff)
  then have "unat (metadata_timestamp ms) = take_bit 48 (unat (metadata_timestamp ms))"
    by (metis unsigned_take_bit_eq)
  then show ?thesis by (metis take_bit_nat_less_exp)
qed

subsection \<open>What is dispatched\<close>

lemma truncate_fields:
  "has_message_notifier (beast_input.truncate s) = has_message_notifier s"
  "receiver_type (beast_input.truncate s) = receiver_type s"
  "fixed_settings (beast_input.truncate s) = fixed_settings s"
  "current_settings (beast_input.truncate s) = current_settings s"
  "input_filter (beast_input.truncate s) = input_filter s"
  "receiving_gps_timestamps (beast_input.truncate s) = receiving_gps_timestamps s"
  "autodetect_timer (beast_input.truncate s) = autodetect_timer s"
  "reconnect_timer (beast_input.truncate s) = reconnect_timer s"
  "liveness_timer (beast_input.truncate s) = liveness_timer s"
  "good_sync (beast_input.truncate s) = good_sync s"
  "good_messages_count (beast_input.truncate s) = good_messages_count s"
  "bad_bytes_count (beast_input.truncate s) = bad_bytes_count s"
  "first_message (beast_input.truncate s) = first_message s"
  "messagetype (beast_input.truncate s) = messagetype s"
  "metadata (beast_input.truncate s) = metadata s"
  "messagedata (beast_input.truncate s) = messagedata s"
  "parser (beast_input.truncate s) = parser s"
  "calls (beast_input.truncate s) = calls s"
  by (simp_all add: beast_input.defs)

text \<open>A complete message, as \<open>finish_message\<close> finds it.\<close>

definition complete :: "'x beast_input_scheme \<Rightarrow> bool" where
  "complete s \<longleftrightarrow> messagetype s \<noteq> INVALID \<and> length (metadata s) = 7 \<and>
     length (messagedata s) = message_size (messagetype s)"

definition sound_message :: "message \<Rightarrow> bool" where
  "sound_message m \<longleftrightarrow> wf_message m \<and> caches_ok m \<and> m_type m \<notin> {INVALID, POSITION} \<and>
     unat (m_timestamp m) < 2 ^ 48"

definition sound_calls :: "'x beast_input_scheme \<Rightarrow> 'x beast_input_scheme \<Rightarrow> bool" where
  "sound_calls s t \<longleftrightarrow>
     (\<exists>new. calls t = calls s @ new \<and> (\<forall>m. Notify m \<in> set new \<longrightarrow> sound_message m))"

lemma sound_calls_refl [intro]: "calls t = calls s \<Longrightarrow> sound_calls s t"
  by (simp add: sound_calls_def)

lemma sound_calls_trans:
  assumes "sound_calls s t" and "sound_calls t u"
  shows "sound_calls s u"
proof -
  obtain a b where "calls t = calls s @ a" "calls u = calls t @ b"
      and "\<forall>m. Notify m \<in> set a \<longrightarrow> sound_message m" "\<forall>m. Notify m \<in> set b \<longrightarrow> sound_message m"
    using assms by (auto simp: sound_calls_def)
  then show ?thesis unfolding sound_calls_def by (intro exI [of _ "a @ b"]) auto
qed

text \<open>A position message is being read.\<close>

definition position_pending :: "'x beast_input_scheme \<Rightarrow> bool" where
  "position_pending s \<longleftrightarrow>
     (parser s = READ_DATA \<or> parser s = READ_ESCAPED_1A) \<and> messagetype s = POSITION"

text \<open>The members of the base class that parsing never changes.\<close>

definition config :: "'x beast_input_scheme \<Rightarrow> settings \<times> filter \<times> bool \<times> bool" where
  "config s = (fixed_settings s, input_filter s, has_message_notifier s, reconnect_timer s)"

lemma config_truncate: "config (beast_input.truncate s) = config s"
  by (simp add: config_def truncate_fields)

text \<open>What the virtual functions keep of the members a subclass adds.\<close>

definition own_invariant ::
  "'x beast_input_scheme virtuals \<Rightarrow> ('x beast_input_scheme \<Rightarrow> bool) \<Rightarrow> bool" where
  "own_invariant v P \<longleftrightarrow>
     (\<forall>s t. P s \<longrightarrow> beast_input.more s = beast_input.more t \<longrightarrow> P t) \<and>
     (\<forall>s. P s \<longrightarrow> P (saw_good_message v s)) \<and> (\<forall>s d. P s \<longrightarrow> P (snd (low_level_write v d s)))"

context input_virtuals
begin

lemma saw_good_fields:
  "has_message_notifier (saw_good_message v s) = has_message_notifier s"
  "receiver_type (saw_good_message v s) = receiver_type s"
  "fixed_settings (saw_good_message v s) = fixed_settings s"
  "current_settings (saw_good_message v s) = current_settings s"
  "input_filter (saw_good_message v s) = input_filter s"
  "receiving_gps_timestamps (saw_good_message v s) = receiving_gps_timestamps s"
  "good_sync (saw_good_message v s)"
  "messagetype (saw_good_message v s) = messagetype s"
  "metadata (saw_good_message v s) = metadata s"
  "messagedata (saw_good_message v s) = messagedata s"
  "calls (saw_good_message v s) = calls s"
  using arg_cong [OF saw_good [of s], of has_message_notifier]
    arg_cong [OF saw_good [of s], of receiver_type] arg_cong [OF saw_good [of s], of fixed_settings]
    arg_cong [OF saw_good [of s], of current_settings] arg_cong [OF saw_good [of s], of input_filter]
    arg_cong [OF saw_good [of s], of receiving_gps_timestamps]
    arg_cong [OF saw_good [of s], of good_sync] arg_cong [OF saw_good [of s], of messagetype]
    arg_cong [OF saw_good [of s], of metadata] arg_cong [OF saw_good [of s], of messagedata]
    arg_cong [OF saw_good [of s], of calls]
  by (simp_all add: base_saw_good_message_def truncate_fields)

lemma write_fields:
  assumes "low_level_write v d s = (written, t)"
  shows "has_message_notifier t = has_message_notifier s" "receiver_type t = receiver_type s"
    "fixed_settings t = fixed_settings s" "current_settings t = current_settings s"
    "input_filter t = input_filter s" "receiving_gps_timestamps t = receiving_gps_timestamps s"
    "good_sync t = good_sync s" "messagetype t = messagetype s" "metadata t = metadata s"
    "messagedata t = messagedata s" "parser t = parser s"
    "calls t = (if written then calls s @ [Write_out d] else calls s)"
proof -
  note w = write_log [of d s, unfolded assms fst_conv snd_conv Let_def]
  show "has_message_notifier t = has_message_notifier s" "receiver_type t = receiver_type s"
    "fixed_settings t = fixed_settings s" "current_settings t = current_settings s"
    "input_filter t = input_filter s" "receiving_gps_timestamps t = receiving_gps_timestamps s"
    "good_sync t = good_sync s" "messagetype t = messagetype s" "metadata t = metadata s"
    "messagedata t = messagedata s" "parser t = parser s"
    "calls t = (if written then calls s @ [Write_out d] else calls s)"
    using arg_cong [OF w, of has_message_notifier] arg_cong [OF w, of receiver_type]
      arg_cong [OF w, of fixed_settings] arg_cong [OF w, of current_settings]
      arg_cong [OF w, of input_filter] arg_cong [OF w, of receiving_gps_timestamps]
      arg_cong [OF w, of good_sync] arg_cong [OF w, of messagetype] arg_cong [OF w, of metadata]
      arg_cong [OF w, of messagedata] arg_cong [OF w, of parser] arg_cong [OF w, of calls]
    by (cases written; simp add: truncate_fields)+
qed

text \<open>What sending the settings does, and that doing it twice does nothing more.\<close>

lemma send_settings_result:
  assumes "send_settings_message v s = Inr t"
  shows "wanted_settings v t = wanted_settings v s"
    and "has_message_notifier t = has_message_notifier s" "receiver_type t = receiver_type s"
    "fixed_settings t = fixed_settings s" "input_filter t = input_filter s"
    "receiving_gps_timestamps t = receiving_gps_timestamps s" "good_sync t = good_sync s"
    "messagetype t = messagetype s" "metadata t = metadata s" "messagedata t = messagedata s"
    "parser t = parser s"
    and "calls t = calls s \<and> (current_settings t = current_settings s) \<or>
      (\<exists>d. to_message (wanted_settings v s) = Inr d \<and> calls t = calls s @ [Write_out d] \<and>
        current_settings t = wanted_settings v s)"
proof -
  obtain d where d: "to_message (wanted_settings v s) = Inr d" using wanted_to_message by blast
  obtain w u where wu: "low_level_write v d s = (w, u)" by (cases "low_level_write v d s")
  note f = write_fields [OF wu]
  show *: "has_message_notifier t = has_message_notifier s" "receiver_type t = receiver_type s"
    "fixed_settings t = fixed_settings s" "input_filter t = input_filter s"
    "receiving_gps_timestamps t = receiving_gps_timestamps s" "good_sync t = good_sync s"
    "messagetype t = messagetype s" "metadata t = metadata s" "messagedata t = messagedata s"
    "parser t = parser s"
    and "calls t = calls s \<and> (current_settings t = current_settings s) \<or>
      (\<exists>d. to_message (wanted_settings v s) = Inr d \<and> calls t = calls s @ [Write_out d] \<and>
        current_settings t = wanted_settings v s)"
    using assms d wu f by (auto simp: send_settings_message_def Let_def split: if_splits)
  then show "wanted_settings v t = wanted_settings v s" by (simp add: wanted_settings_def)
qed

lemma note_status_result:
  assumes "note_status v s = Inr t"
  shows "has_message_notifier t = has_message_notifier s" "receiver_type t = RADARCAPE"
    "good_sync t = good_sync s" "messagetype t = messagetype s" "metadata t = metadata s"
    "messagedata t = messagedata s" "input_filter t = input_filter s"
    "fixed_settings t = fixed_settings s" "liveness_timer t"
    "calls t = calls s \<or> (\<exists>d. calls t = calls s @ [Write_out d])"
    "receiving_gps_timestamps t = (gps_timestamps (settings_of_byte (messagedata s ! 0)) = ON)"
proof -
  let ?s = "s\<lparr>receiving_gps_timestamps := (gps_timestamps (settings_of_byte (messagedata s ! 0)) = ON)\<rparr>"
  obtain u where u: "(if receiver_type s \<noteq> RADARCAPE
      then send_settings_message v (?s\<lparr>receiver_type := RADARCAPE, autodetect_timer := False\<rparr>)
      else Inr ?s) = Inr u" and t: "t = u\<lparr>liveness_timer := True\<rparr>"
    using assms by (auto simp: note_status_def Let_def ebind_Inr_iff)
  have "has_message_notifier u = has_message_notifier s \<and> receiver_type u = RADARCAPE \<and>
    good_sync u = good_sync s \<and> messagetype u = messagetype s \<and> metadata u = metadata s \<and>
    messagedata u = messagedata s \<and> input_filter u = input_filter s \<and>
    fixed_settings u = fixed_settings s \<and>
    (calls u = calls s \<or> (\<exists>d. calls u = calls s @ [Write_out d])) \<and>
    receiving_gps_timestamps u = (gps_timestamps (settings_of_byte (messagedata s ! 0)) = ON)"
  proof (cases "receiver_type s = RADARCAPE")
    case True
    then have "u = ?s" using u by simp
    then show ?thesis using True by simp
  next
    case False
    then have "send_settings_message v (?s\<lparr>receiver_type := RADARCAPE, autodetect_timer := False\<rparr>) = Inr u"
      using u by simp
    note r = send_settings_result [OF this]
    from r(12) have "calls u = calls s \<or> (\<exists>d. calls u = calls s @ [Write_out d])" by auto
    then show ?thesis using r(2-10) by simp
  qed
  then show "has_message_notifier t = has_message_notifier s" "receiver_type t = RADARCAPE"
    "good_sync t = good_sync s" "messagetype t = messagetype s" "metadata t = metadata s"
    "messagedata t = messagedata s" "input_filter t = input_filter s"
    "fixed_settings t = fixed_settings s" "liveness_timer t"
    "calls t = calls s \<or> (\<exists>d. calls t = calls s @ [Write_out d])"
    "receiving_gps_timestamps t = (gps_timestamps (settings_of_byte (messagedata s ! 0)) = ON)"
    unfolding t by simp_all
qed

text \<open>The state in which a dispatch decides whether to pass the message on.\<close>

lemma dispatch_split:
  assumes "messagetype s \<noteq> STATUS \<and> t = s \<or> messagetype s = STATUS \<and> note_status v s = Inr t"
  shows "dispatch_message v s =
    (if \<not> can_dispatch v t then Inr t
     else if \<not> has_message_notifier t then Inr (t\<lparr>first_message := False\<rparr>)
     else ebind (make_message (messagetype t) (if receiving_gps_timestamps t then GPS else TWELVEMEG)
         (if messagetype t = POSITION then 0 else metadata_timestamp (metadata t))
         (if messagetype t = POSITION then 0 else metadata t ! 6)
         (if messagetype t = POSITION then metadata t @ messagedata t else messagedata t)) (\<lambda>m.
         Inr (t\<lparr>first_message := False, messagedata := [], calls := calls t @ [Notify m]\<rparr>)))"
proof -
  have e: "(if messagetype s = STATUS then note_status v s else Inr s) = Inr t"
    using assms by auto
  show ?thesis
    unfolding dispatch_message_def e ebind_simps
    by (cases "messagetype t = POSITION") (simp_all add: Let_def make_message_def)
qed

lemma dispatch_splitE:
  obtains t where "messagetype s \<noteq> STATUS \<and> t = s \<or> messagetype s = STATUS \<and> note_status v s = Inr t"
  using note_status_ends [of s] by blast

lemma finish_cases:
  assumes "complete s"
  obtains (quiet) t where "finish_message v s = Inr t" "parser t = READ_1A" "good_sync t"
      "calls t = calls s \<or> (\<exists>d. calls t = calls s @ [Write_out d])"
  | (message) t m ws where "finish_message v s = Inr t" "parser t = READ_1A" "is_connected t"
      "has_message_notifier s" "messagetype s \<noteq> POSITION"
      "calls t = calls s @ ws @ [Notify m]" "\<forall>m. Notify m \<notin> set ws" "sound_message m"
  | (position) "finish_message v s = Inl Assertion_failed" "messagetype s = POSITION"
proof -
  let ?s = "saw_good_message v s"
  obtain u where u: "messagetype ?s \<noteq> STATUS \<and> u = ?s \<or> messagetype ?s = STATUS \<and> note_status v ?s = Inr u"
    by (rule dispatch_splitE)
  have f: "has_message_notifier u = has_message_notifier s" "good_sync u"
    "messagetype u = messagetype s" "metadata u = metadata s" "messagedata u = messagedata s"
    "calls u = calls s \<or> (\<exists>d. calls u = calls s @ [Write_out d])"
    using u note_status_result [of ?s u] saw_good_fields [of s] by auto
  note d = dispatch_split [OF u]
  consider "\<not> can_dispatch v u \<or> \<not> has_message_notifier u"
    | "can_dispatch v u" "has_message_notifier u" "messagetype s = POSITION"
    | "can_dispatch v u" "has_message_notifier u" "messagetype s \<noteq> POSITION" by blast
  then show ?thesis
  proof cases
    case 1
    define t where "t = (if can_dispatch v u then u\<lparr>first_message := False\<rparr> else u)\<lparr>parser := READ_1A\<rparr>"
    have "finish_message v s = Inr t" using d 1 by (auto simp: finish_message_def t_def)
    moreover have "parser t = READ_1A" "good_sync t" "calls t = calls u"
      using f(2) by (simp_all add: t_def)
    ultimately show ?thesis using quiet [of t] f(6) by simp
  next
    case 2
    then have "finish_message v s = Inl Assertion_failed"
      using d f assms by (simp add: finish_message_def make_message_def complete_def)
    then show ?thesis using 2 position by blast
  next
    case 3
    let ?mm = "make_message (messagetype u) (if receiving_gps_timestamps u then GPS else TWELVEMEG)
      (metadata_timestamp (metadata u)) (metadata u ! 6) (messagedata u)"
    obtain m where m: "?mm = Inr m" using f assms by (simp add: make_message_def complete_def)
    let ?t = "u\<lparr>first_message := False, messagedata := [], calls := calls u @ [Notify m], parser := READ_1A\<rparr>"
    have t: "finish_message v s = Inr ?t" using d 3 f m by (simp add: finish_message_def)
    have "sound_message m"
      using make_message_ok [OF m] 3 f assms metadata_timestamp_bound [of "metadata u"]
      by (auto simp: sound_message_def complete_def)
    moreover have "is_connected ?t"
      using dispatch_base [OF 3(1)] f(2) by (simp add: is_connected_def base_can_dispatch_def)
    moreover have "\<exists>ws. calls u = calls s @ ws \<and> (\<forall>m. Notify m \<notin> set ws)"
      using f(6)
    proof (elim disjE exE)
      assume "calls u = calls s"
      then show ?thesis by (intro exI [of _ "[]"]) simp
    next
      fix d assume "calls u = calls s @ [Write_out d]"
      then show ?thesis by (intro exI [of _ "[Write_out d]"]) simp
    qed
    then obtain ws where "calls u = calls s @ ws" "\<forall>m. Notify m \<notin> set ws" by blast
    moreover have "parser ?t = READ_1A" "calls ?t = calls u @ [Notify m]" by simp_all
    moreover have "has_message_notifier s" using f(1) 3(2) by simp
    ultimately show ?thesis using message [OF t, of ws m] 3(3) by simp
  qed
qed

lemma finish_sound:
  assumes "complete s" and "finish_message v s = Inr t"
  shows "sound_calls s t"
  using assms(1)
proof (cases rule: finish_cases)
  case (quiet u)
  then have "calls t = calls s \<or> (\<exists>d. calls t = calls s @ [Write_out d])" using assms(2) by simp
  then show ?thesis by (auto simp: sound_calls_def)
next
  case (message u m ws)
  have u: "u = t" using message(1) assms(2) by simp
  have "\<forall>k. Notify k \<in> set (ws @ [Notify m]) \<longrightarrow> sound_message k" using message(7,8) by auto
  then show ?thesis
    unfolding sound_calls_def using message(6) u by blast
qed (use assms(2) in simp)

lemma finish_fails:
  assumes "complete s" and "finish_message v s = Inl e"
  shows "e = Assertion_failed \<and> messagetype s = POSITION"
  using assms(1) by (cases rule: finish_cases) (use assms(2) in simp_all)

lemma take_byte_cases:
  assumes "parser_ok s" and "parser s = READ_DATA"
  obtains (more) "take_byte v s b = Inr (push_byte b s)" "calls (push_byte b s) = calls s"
  | (full) "complete (push_byte b s)" "take_byte v s b = finish_message v (push_byte b s)"
proof (cases "length (messagedata (push_byte b s)) < message_size (messagetype s)")
  case True
  then show ?thesis using more by (simp add: take_byte_def Let_def)
next
  case False
  then have "complete (push_byte b s)"
    using assms by (auto simp: complete_def parser_ok_def push_byte_def split: if_splits)
  then show ?thesis using full False by (simp add: take_byte_def Let_def)
qed

lemma take_byte_sound:
  assumes "parser_ok s" and "parser s = READ_DATA"
  shows "case take_byte v s b of Inl e \<Rightarrow> e = Assertion_failed \<and> messagetype s = POSITION
    | Inr t \<Rightarrow> sound_calls s t \<and> (position_pending t \<longrightarrow> messagetype s = POSITION)"
  using assms
proof (cases rule: take_byte_cases [where b = b])
  case more
  then show ?thesis by (auto simp: position_pending_def)
next
  case full
  show ?thesis
  proof (cases "take_byte v s b")
    case (Inl e)
    then show ?thesis using finish_fails [of "push_byte b s" e] full by simp
  next
    case (Inr t)
    then have t: "finish_message v (push_byte b s) = Inr t" using full by simp
    have "sound_calls (push_byte b s) t" using full(1) t by (rule finish_sound)
    then have "sound_calls s t" by (simp add: sound_calls_def)
    moreover have "\<not> position_pending t" using finish_result [OF t] by (simp add: position_pending_def)
    ultimately show ?thesis using Inr by simp
  qed
qed

lemma byte_step_sound:
  assumes "parser_ok s"
  shows "case byte_step v s b of Inl e \<Rightarrow> e = Assertion_failed \<and> position_pending s
    | Inr t \<Rightarrow> sound_calls s t \<and> (position_pending t \<longrightarrow> position_pending s \<or> b = 0x35)"
proof (cases "parser s")
  case READ_DATA
  then show ?thesis
    using take_byte_sound [OF assms READ_DATA, of b]
    by (auto simp: byte_step_def position_pending_def split: sum.splits)
next
  case READ_ESCAPED_1A
  let ?s = "s\<lparr>parser := READ_DATA\<rparr>"
  have "parser_ok ?s" using assms READ_ESCAPED_1A by (auto simp: parser_ok_def)
  then show ?thesis
    using take_byte_sound [of ?s b] READ_ESCAPED_1A
    by (auto simp: byte_step_def position_pending_def resync_byte_def lost_sync_def sound_calls_def
        split: sum.splits)
next
  case READ_TYPE
  have "messagetype_from_byte b = POSITION \<Longrightarrow> b = 0x35"
    by (auto simp: messagetype_from_byte_def split: if_splits)
  then show ?thesis
    using READ_TYPE
    by (auto simp: byte_step_def position_pending_def resync_byte_def lost_sync_def Let_def)
qed (auto simp: byte_step_def position_pending_def resync_byte_def lost_sync_def)

lemma fold_sound:
  assumes "parser_ok s"
  shows "case efold (byte_step v) s p of
      Inl e \<Rightarrow> e = Assertion_failed \<and> (position_pending s \<or> 0x35 \<in> set p)
    | Inr t \<Rightarrow> sound_calls s t"
  using assms
proof (induction p arbitrary: s)
  case (Cons b p)
  show ?case
  proof (cases "byte_step v s b")
    case (Inl e)
    then show ?thesis using byte_step_sound [OF Cons.prems, of b] by simp
  next
    case (Inr t)
    then have t: "sound_calls s t" "position_pending t \<longrightarrow> position_pending s \<or> b = 0x35"
      using byte_step_sound [OF Cons.prems, of b] by simp_all
    show ?thesis
      using Cons.IH [OF byte_step_ok [OF Cons.prems Inr]] Inr t
      by (auto split: sum.splits intro: sound_calls_trans)
  qed
qed auto

lemma parse_input_sound:
  assumes "parser_ok s"
  shows "case parse_input v p s of
      Inl e \<Rightarrow> e = Assertion_failed \<and> (position_pending s \<or> 0x35 \<in> set p)
    | Inr t \<Rightarrow> parser_ok t \<and> sound_calls s t"
proof (cases "parse_input v p s")
  case (Inl e)
  then have "efold (byte_step v) s p = Inl e"
    using parse_input_fold [OF assms, of p] by (cases "efold (byte_step v) s p") simp_all
  then show ?thesis using fold_sound [OF assms, of p] Inl by simp
next
  case (Inr t)
  then obtain u where u: "efold (byte_step v) s p = Inr u" "forget t = forget u"
    using parse_input_fold [OF assms, of p] by (cases "efold (byte_step v) s p") simp_all
  from u(2) obtain n where "t = u\<lparr>bad_bytes_count := n\<rparr>" by (rule forget_eqE)
  then show ?thesis
    using fold_sound [OF assms, of p] u(1) Inr parse_input_ok [OF assms Inr] by (simp add: sound_calls_def)
qed

text \<open>A frame that is dispatched is delivered as the message it encodes.\<close>

lemma fold_delivers:
  assumes "parser s = READ_1A" and "type \<in> {MODE_AC, MODE_S_SHORT, MODE_S_LONG}"
    and "length d = message_size type" and "has_message_notifier s"
    and "can_dispatch v (saw_good_message v (framed type (timestamp_bytes ts @ [sig]) d s))"
  shows "\<exists>m u. make_message type (if receiving_gps_timestamps s then GPS else TWELVEMEG)
      (take_bit 48 ts) sig d = Inr m \<and>
    efold (byte_step v) s (beast_frame type ts sig d) = Inr u \<and>
    calls u = calls s @ [Notify m] \<and> parser u = READ_1A \<and> is_connected u \<and>
    beast_input.more u =
      beast_input.more (saw_good_message v (framed type (timestamp_bytes ts @ [sig]) d s)) \<and>
    has_message_notifier u \<and> receiving_gps_timestamps u = receiving_gps_timestamps s"
proof -
  let ?f = "framed type (timestamp_bytes ts @ [sig]) d s" and ?u = "saw_good_message v
    (framed type (timestamp_bytes ts @ [sig]) d s)"
  have ty: "type \<noteq> INVALID" "type \<noteq> POSITION" "type \<noteq> STATUS" using assms(2) by auto
  have "length (timestamp_bytes ts @ [sig]) = 7" by (simp add: timestamp_bytes_def)
  from fold_frame [OF assms(1) messagetype_byte [OF ty(1,2)] ty(1) this assms(3)]
  have e: "efold (byte_step v) s (beast_frame type ts sig d) = finish_message v ?f"
    using ty by (simp add: beast_frame_def)
  have fields: "messagetype ?u = type" "metadata ?u = timestamp_bytes ts @ [sig]" "messagedata ?u = d"
    "has_message_notifier ?u = has_message_notifier s" "calls ?u = calls s" "good_sync ?u"
    "receiving_gps_timestamps ?u = receiving_gps_timestamps s"
    by (simp_all add: saw_good_fields framed_def)
  obtain m where m: "make_message type (if receiving_gps_timestamps s then GPS else TWELVEMEG)
      (take_bit 48 ts) sig d = Inr m"
    using assms(3) by (simp add: make_message_def)
  have six: "(timestamp_bytes ts @ [sig]) ! 6 = sig" by (simp add: timestamp_bytes_def)
  let ?t = "?u\<lparr>first_message := False, messagedata := [], calls := calls ?u @ [Notify m], parser := READ_1A\<rparr>"
  have "messagetype ?u \<noteq> STATUS \<and> ?u = ?u" using fields ty by simp
  then have "dispatch_message v ?u =
      Inr (?u\<lparr>first_message := False, messagedata := [], calls := calls ?u @ [Notify m]\<rparr>)"
    using dispatch_split [of ?u ?u] assms(4,5) fields ty m
    by (simp add: metadata_timestamp_bytes six)
  then have t: "finish_message v ?f = Inr ?t" by (simp add: finish_message_def)
  moreover have "is_connected ?t"
    using dispatch_base [OF assms(5)] fields by (simp add: is_connected_def base_can_dispatch_def)
  moreover have "calls ?t = calls s @ [Notify m]" "parser ?t = READ_1A"
    "beast_input.more ?t = beast_input.more ?u" "has_message_notifier ?t"
    "receiving_gps_timestamps ?t = receiving_gps_timestamps s" using fields assms(4) by simp_all
  ultimately show ?thesis using m e by (intro exI [of _ m] exI [of _ ?t]) simp
qed

text \<open>A position frame that would be dispatched hits the assertion of the constructor.\<close>

lemma fold_position:
  assumes "parser s = READ_1A" and "length ms = 7" and "length d = 14" and "has_message_notifier s"
    and "can_dispatch v (saw_good_message v (framed POSITION ms d s))"
  shows "efold (byte_step v) s ([0x1A, 0x35] @ escape_1A (ms @ d)) = Inl Assertion_failed"
proof -
  let ?u = "saw_good_message v (framed POSITION ms d s)"
  have "efold (byte_step v) s ([0x1A, 0x35] @ escape_1A (ms @ d)) =
      finish_message v (framed POSITION ms d s)"
    by (rule fold_frame) (simp_all add: assms messagetype_from_byte_def)
  moreover have "messagetype ?u = POSITION" "metadata ?u = ms" "messagedata ?u = d" "has_message_notifier ?u"
    using assms(4) by (simp_all add: saw_good_fields framed_def)
  then have "dispatch_message v ?u = Inl Assertion_failed"
    using dispatch_split [of ?u ?u] assms(2,3,5) by (simp add: make_message_def)
  ultimately show ?thesis by (simp add: finish_message_def)
qed

lemma parse_input_delivers:
  assumes "parser_ok s" and "efold (byte_step v) s p = Inr u"
  obtains t where "parse_input v p s = Inr t" "calls t = calls u" "parser t = parser u"
    "is_connected t = is_connected u" "beast_input.more t = beast_input.more u"
proof -
  obtain t where t: "parse_input v p s = Inr t" "forget t = forget u"
    using parse_input_fold [OF assms(1), of p] assms(2) by (cases "parse_input v p s") simp_all
  from t(2) obtain n where "t = u\<lparr>bad_bytes_count := n\<rparr>" by (rule forget_eqE)
  then show ?thesis using that [OF t(1)] by (simp add: is_connected_def)
qed

lemma parse_input_failure:
  assumes "parser_ok s" and "efold (byte_step v) s p = Inl e"
  shows "parse_input v p s = Inl e"
  using parse_input_fold [OF assms(1), of p] assms(2) by (cases "parse_input v p s") simp_all

text \<open>
  The settings protocol: sending the settings while the link is up leaves the receiver up to
  date, and sending them again sends nothing.
\<close>

lemma link_up_base:
  "beast_input.more s = beast_input.more t \<Longrightarrow> link_up v s \<longleftrightarrow> link_up v t"
  unfolding link_up_def using write_link by metis

lemma send_settings_up_to_date:
  assumes "link_up v s" and "send_settings_message v s = Inr t"
  shows "up_to_date v t" and "send_settings_message v t = Inr t"
proof -
  obtain d where d: "to_message (wanted_settings v s) = Inr d" using wanted_to_message by blast
  obtain u where u: "low_level_write v d s = (True, u)"
    using assms(1) by (cases "low_level_write v d s") (auto simp: link_up_def dest: spec [of _ d])
  have "current_settings t = wanted_settings v s"
    using assms(2) d u by (auto simp: send_settings_message_def Let_def settings_eq_def split: if_splits)
  then show up: "up_to_date v t"
    using send_settings_result(1) [OF assms(2)] by (simp add: up_to_date_def settings_eq_def)
  then show "send_settings_message v t = Inr t"
    by (simp add: send_settings_message_def up_to_date_def)
qed

lemma set_filter_up_to_date:
  assumes "link_up v s" and "up_to_date v s" and "set_filter v f s = Inr t"
  shows "up_to_date v t" and "filter_eq (input_filter t) f"
proof -
  have eq: "filter_eq g g" for g by (simp add: filter_eq_def)
  have "link_up v (s\<lparr>input_filter := f\<rparr>)" using assms(1) link_up_base [of s "s\<lparr>input_filter := f\<rparr>"] by simp
  then have "up_to_date v t \<and> filter_eq (input_filter t) f"
    using assms(2,3) send_settings_up_to_date(1) [of "s\<lparr>input_filter := f\<rparr>" t]
      send_settings_result(5) [of "s\<lparr>input_filter := f\<rparr>" t] eq
    by (auto simp: set_filter_def split: if_splits)
  then show "up_to_date v t" "filter_eq (input_filter t) f" by simp_all
qed

lemma connection_established_result:
  assumes "connection_established v s = Inr t"
  shows "parser_ok t" "parser t = READ_1A" "\<not> good_sync t" "fixed_settings t = fixed_settings s"
    "input_filter t = input_filter s" "link_up v s \<longrightarrow> up_to_date v t"
    "receiver_type t = (if radarcape (fixed_settings s) = ON then RADARCAPE
       else if radarcape (fixed_settings s) = OFF then BEAST else UNKNOWN_RECEIVER)"
proof -
  obtain u where u: "send_settings_message v u = Inr t" "beast_input.more u = beast_input.more s"
    "parser u = READ_1A" "\<not> good_sync u" "fixed_settings u = fixed_settings s"
    "input_filter u = input_filter s"
    "receiver_type u = (if radarcape (fixed_settings s) = ON then RADARCAPE
       else if radarcape (fixed_settings s) = OFF then BEAST else UNKNOWN_RECEIVER)"
    using assms by (rule connection_established_sends)
  note r = send_settings_result [OF u(1)]
  show "parser_ok t" "parser t = READ_1A" "\<not> good_sync t" "fixed_settings t = fixed_settings s"
    "input_filter t = input_filter s"
    "receiver_type t = (if radarcape (fixed_settings s) = ON then RADARCAPE
       else if radarcape (fixed_settings s) = OFF then BEAST else UNKNOWN_RECEIVER)"
    using r u by (simp_all add: parser_ok_def)
  show "link_up v s \<longrightarrow> up_to_date v t"
    using send_settings_up_to_date(1) [OF _ u(1)] link_up_base [OF u(2)] by blast
qed

lemma autodetect_expired_result:
  assumes "link_up v s" and "autodetect_expired v s = Inr t"
  shows "up_to_date v t" and "receiver_type t = BEAST" and "parser t = parser s" "good_sync t = good_sync s"
proof -
  let ?s = "s\<lparr>autodetect_timer := False, receiver_type := BEAST\<rparr>"
  have "link_up v ?s" using assms(1) link_up_base [of s ?s] by simp
  moreover have "send_settings_message v ?s = Inr t" using assms(2) by (simp add: autodetect_expired_def)
  ultimately show "up_to_date v t" "receiver_type t = BEAST" "parser t = parser s" "good_sync t = good_sync s"
    using send_settings_up_to_date(1) send_settings_result [of ?s t] by simp_all
qed

text \<open>
  What holds of a subclass's own members and is kept by the virtual functions is kept by
  parsing: the base class only reaches them through the virtual functions.
\<close>

lemma own_base: "own_invariant v P \<Longrightarrow> P s \<Longrightarrow> beast_input.more t = beast_input.more s \<Longrightarrow> P t"
  unfolding own_invariant_def by metis

lemma own_send_settings:
  assumes "own_invariant v P" and "P s" and "send_settings_message v s = Inr t"
  shows "P t"
proof -
  obtain d where d: "to_message (wanted_settings v s) = Inr d" using wanted_to_message by blast
  obtain w u where u: "low_level_write v d s = (w, u)" by (cases "low_level_write v d s")
  have "P u" using assms(1,2) u unfolding own_invariant_def by (metis snd_conv)
  moreover have "t = s \<or> t = u \<or> (\<exists>c. t = u\<lparr>current_settings := c\<rparr>)"
    using assms(3) d u by (auto simp: send_settings_message_def Let_def split: if_splits)
  ultimately show ?thesis using own_base [OF assms(1)] assms(2) by auto
qed

lemma own_note_status:
  assumes "own_invariant v P" and "P s" and "note_status v s = Inr t"
  shows "P t"
proof -
  let ?s = "s\<lparr>receiving_gps_timestamps := (gps_timestamps (settings_of_byte (messagedata s ! 0)) = ON)\<rparr>"
  let ?r = "?s\<lparr>receiver_type := RADARCAPE, autodetect_timer := False\<rparr>"
  obtain u where u: "(if receiver_type s \<noteq> RADARCAPE then send_settings_message v ?r else Inr ?s) = Inr u"
    and t: "t = u\<lparr>liveness_timer := True\<rparr>"
    using assms(3) by (auto simp: note_status_def Let_def ebind_Inr_iff)
  have "P ?r" "P ?s" using own_base [OF assms(1,2)] by simp_all
  then have "P u" using u own_send_settings [OF assms(1), of ?r u] by (auto split: if_splits)
  then show ?thesis unfolding t using own_base [OF assms(1)] by simp
qed

lemma own_finish:
  assumes "own_invariant v P" and "P s" and "finish_message v s = Inr t"
  shows "P t"
proof -
  let ?s = "saw_good_message v s"
  have s: "P ?s" using assms(1,2) by (simp add: own_invariant_def)
  obtain u where u: "messagetype ?s \<noteq> STATUS \<and> u = ?s \<or> messagetype ?s = STATUS \<and> note_status v ?s = Inr u"
    by (rule dispatch_splitE)
  then have "P u" using s own_note_status [OF assms(1) s] by auto
  moreover have "beast_input.more t = beast_input.more u"
    using assms(3) dispatch_split [OF u]
    by (auto simp: finish_message_def ebind_Inr_iff split: if_splits)
  ultimately show ?thesis using own_base [OF assms(1)] by blast
qed

lemma saw_good_config: "config (saw_good_message v s) = config s"
  using arg_cong [OF saw_good [of s], of config]
  by (simp add: config_truncate config_def [of "base_saw_good_message s" for s] base_saw_good_message_def)
     (simp add: config_def truncate_fields)

lemma write_config: "config (snd (low_level_write v d s)) = config s"
proof (cases "fst (low_level_write v d s)")
  case True
  have "config (t\<lparr>calls := c\<rparr>) = config t" for t :: beast_input and c by (simp add: config_def)
  then show ?thesis
    using arg_cong [OF write_log [of d s], of config] True by (simp add: config_truncate Let_def)
next
  case False
  then show ?thesis
    using arg_cong [OF write_log [of d s], of config] by (simp add: config_truncate Let_def)
qed

lemma send_settings_config:
  assumes "send_settings_message v s = Inr t"
  shows "config t = config s"
proof -
  obtain d where d: "to_message (wanted_settings v s) = Inr d" using wanted_to_message by blast
  obtain w u where u: "low_level_write v d s = (w, u)" by (cases "low_level_write v d s")
  have "config u = config s" using write_config [of d s] u by simp
  then show ?thesis
    using assms d u by (auto simp: send_settings_message_def Let_def config_def split: if_splits)
qed

lemma note_status_config:
  assumes "note_status v s = Inr t"
  shows "config t = config s"
proof -
  let ?s = "s\<lparr>receiving_gps_timestamps := (gps_timestamps (settings_of_byte (messagedata s ! 0)) = ON)\<rparr>"
  let ?r = "?s\<lparr>receiver_type := RADARCAPE, autodetect_timer := False\<rparr>"
  obtain u where u: "(if receiver_type s \<noteq> RADARCAPE then send_settings_message v ?r else Inr ?s) = Inr u"
    and t: "t = u\<lparr>liveness_timer := True\<rparr>"
    using assms by (auto simp: note_status_def Let_def ebind_Inr_iff)
  have "config u = config s"
    using u send_settings_config [of ?r u] by (auto simp: config_def split: if_splits)
  then show ?thesis by (simp add: t config_def)
qed

lemma finish_config:
  assumes "finish_message v s = Inr t"
  shows "config t = config s"
proof -
  let ?s = "saw_good_message v s"
  obtain u where u: "messagetype ?s \<noteq> STATUS \<and> u = ?s \<or> messagetype ?s = STATUS \<and> note_status v ?s = Inr u"
    by (rule dispatch_splitE)
  then have "config u = config s" using note_status_config [of ?s u] saw_good_config [of s] by auto
  moreover have "config t = config u"
    using assms dispatch_split [OF u]
    by (auto simp: finish_message_def config_def ebind_Inr_iff split: if_splits)
  ultimately show ?thesis by simp
qed

lemma byte_step_invariant:
  assumes base: "\<And>s t. P s \<Longrightarrow> beast_input.more t = beast_input.more s \<Longrightarrow>
      config t = config s \<Longrightarrow> current_settings t = current_settings s \<Longrightarrow>
      wanted_settings v t = wanted_settings v s \<Longrightarrow> P t"
    and finish: "\<And>s t. P s \<Longrightarrow> finish_message v s = Inr t \<Longrightarrow> P t"
    and "P s" and "byte_step v s b = Inr t"
  shows "P t"
proof -
  note base = base [OF assms(3)]
  have tb: "P t" if "take_byte v u b = Inr t" and "beast_input.more u = beast_input.more s"
    "config u = config s" "current_settings u = current_settings s" "wanted_settings v u = wanted_settings v s" for u
  proof -
    have "P (push_byte b u)"
      by (rule base) (use that(2-) in \<open>simp_all add: push_byte_def wanted_settings_def config_def\<close>)
    then show ?thesis
      using that(1) finish by (auto simp: take_byte_def Let_def split: if_splits)
  qed
  have "(\<exists>u. take_byte v u b = Inr t \<and> beast_input.more u = beast_input.more s \<and>
        config u = config s \<and> current_settings u = current_settings s \<and> wanted_settings v u = wanted_settings v s) \<or>
      beast_input.more t = beast_input.more s \<and> config t = config s \<and>
        current_settings t = current_settings s \<and> wanted_settings v t = wanted_settings v s"
  proof (cases "parser s")
    case READ_ESCAPED_1A
    then show ?thesis
      using assms(4)
      by (auto simp: byte_step_def resync_byte_def lost_sync_def wanted_settings_def config_def split: if_splits
          intro!: exI [of _ "s\<lparr>parser := READ_DATA\<rparr>"])
  qed (use assms(4) in
      \<open>auto simp: byte_step_def resync_byte_def lost_sync_def wanted_settings_def config_def Let_def split: if_splits\<close>)
  then show ?thesis using tb base by blast
qed

lemma parse_input_invariant:
  assumes base: "\<And>s t. P s \<Longrightarrow> beast_input.more t = beast_input.more s \<Longrightarrow>
      config t = config s \<Longrightarrow> current_settings t = current_settings s \<Longrightarrow>
      wanted_settings v t = wanted_settings v s \<Longrightarrow> P t"
    and finish: "\<And>s t. P s \<Longrightarrow> finish_message v s = Inr t \<Longrightarrow> P t"
    and "P s" and "parser_ok s" and "parse_input v p s = Inr t"
  shows "P t"
proof -
  obtain u where u: "efold (byte_step v) s p = Inr u" "forget t = forget u"
    using parse_input_fold [OF assms(4), of p] assms(5) by (cases "efold (byte_step v) s p") simp_all
  have "P u"
    using byte_step_invariant [of P, OF base finish] assms(3) u(1)
    by (rule efold_invariant [where P = P]) 
  moreover from u(2) obtain n where "t = u\<lparr>bad_bytes_count := n\<rparr>" by (rule forget_eqE)
  ultimately show ?thesis using base [of u t] by (simp add: wanted_settings_def config_def)
qed

lemma own_parse_input:
  assumes "own_invariant v P" and "P s" and "parser_ok s" and "parse_input v p s = Inr t"
  shows "P t"
  using own_base [OF assms(1)] own_finish [OF assms(1)] assms(2-)
  by (rule parse_input_invariant [where P = P])

lemma own_link_up: "own_invariant v (\<lambda>s. link_up v s = up)"
proof -
  have saw: "link_up v (saw_good_message v s) = link_up v s" for s
    by (simp add: link_up_def saw_good_link)
  have wr: "link_up v (snd (low_level_write v d s)) = link_up v s" for s d
    by (simp add: link_up_def write_keeps_link)
  show ?thesis unfolding own_invariant_def saw wr using link_up_base by blast
qed

text \<open>Parsing keeps the receiver up to date: the settings follow the detected receiver type.\<close>

lemma finish_up_to_date:
  assumes "link_up v s" and "up_to_date v s" and "finish_message v s = Inr t"
  shows "up_to_date v t"
proof -
  let ?s = "saw_good_message v s"
  have s: "up_to_date v ?s" "link_up v ?s"
    using assms(1,2) saw_good_fields [of s] saw_good_link
    by (simp_all add: up_to_date_def wanted_settings_def link_up_def)
  obtain u where u: "messagetype ?s \<noteq> STATUS \<and> u = ?s \<or> messagetype ?s = STATUS \<and> note_status v ?s = Inr u"
    by (rule dispatch_splitE)
  have "up_to_date v u"
  proof (cases "messagetype ?s = STATUS")
    case True
    let ?g = "?s\<lparr>receiving_gps_timestamps := (gps_timestamps (settings_of_byte (messagedata ?s ! 0)) = ON)\<rparr>"
    let ?r = "?g\<lparr>receiver_type := RADARCAPE, autodetect_timer := False\<rparr>"
    obtain w where w: "(if receiver_type ?s \<noteq> RADARCAPE then send_settings_message v ?r else Inr ?g) = Inr w"
      and uw: "u = w\<lparr>liveness_timer := True\<rparr>"
      using u True by (auto simp: note_status_def Let_def ebind_Inr_iff)
    have "link_up v ?r" using s(2) link_up_base [of ?s ?r] by simp
    moreover have "up_to_date v ?g" using s(1) by (simp add: up_to_date_def wanted_settings_def)
    ultimately have "up_to_date v w"
      using w send_settings_up_to_date(1) [of ?r w] by (auto split: if_splits)
    then show ?thesis by (simp add: uw up_to_date_def wanted_settings_def)
  qed (use u s in auto)
  moreover have "wanted_settings v t = wanted_settings v u \<and> current_settings t = current_settings u"
    using assms(3) dispatch_split [OF u]
    by (auto simp: finish_message_def ebind_Inr_iff wanted_settings_def split: if_splits)
  ultimately show ?thesis by (simp add: up_to_date_def)
qed

lemma parse_input_up_to_date:
  assumes "link_up v s" and "up_to_date v s" and "parser_ok s" and "parse_input v p s = Inr t"
  shows "up_to_date v t"
proof -
  have "link_up v t \<and> up_to_date v t"
  proof (rule parse_input_invariant [where P = "\<lambda>s. link_up v s \<and> up_to_date v s"])
    show "link_up v b \<and> up_to_date v b" if "link_up v a \<and> up_to_date v a"
      "beast_input.more b = beast_input.more a" "config b = config a" "current_settings b = current_settings a"
      "wanted_settings v b = wanted_settings v a" for a b
      using that link_up_base [of b a] by (simp add: up_to_date_def)
    show "link_up v b \<and> up_to_date v b" if "link_up v a \<and> up_to_date v a"
      "finish_message v a = Inr b" for a b
      using that finish_up_to_date [of a b] own_finish [OF own_link_up [of True], of a b] by simp
  qed (use assms in simp_all)
  then show ?thesis ..
qed

lemma parse_input_config:
  assumes "parser_ok s" and "parse_input v p s = Inr t"
  shows "config t = config s"
proof (rule parse_input_invariant [where P = "\<lambda>u. config u = config s", OF _ _ refl assms])
  show "config b = config s" if "config a = config s" "finish_message v a = Inr b" for a b
    using finish_config [OF that(2)] that(1) by simp
qed simp

lemma connection_established_config:
  assumes "connection_established v s = Inr t"
  shows "config t = config s"
proof -
  obtain u where "send_settings_message v u = Inr t" "config u = config s"
    by (rule that [OF assms [unfolded connection_established_def Let_def]]) (simp add: config_def)
  then show ?thesis using send_settings_config by simp
qed

text \<open>Operations other than parsing record at most writes.\<close>

lemma send_settings_sound: "send_settings_message v s = Inr t \<Longrightarrow> sound_calls s t"
  using send_settings_result(12) [of s t] by (auto simp: sound_calls_def)

lemma connection_established_sound:
  assumes "connection_established v s = Inr t"
  shows "sound_calls s t"
proof -
  obtain u where "send_settings_message v u = Inr t" "calls u = calls s"
    by (rule that [OF assms [unfolded connection_established_def Let_def]]) simp
  then show ?thesis using send_settings_sound [of u t] by (simp add: sound_calls_def)
qed

lemma set_filter_sound: "set_filter v f s = Inr t \<Longrightarrow> sound_calls s t"
  using send_settings_sound [of "s\<lparr>input_filter := f\<rparr>" t]
  by (auto simp: set_filter_def sound_calls_def split: if_splits)

lemma autodetect_sound: "autodetect_expired v s = Inr t \<Longrightarrow> sound_calls s t"
  using send_settings_sound [of "s\<lparr>autodetect_timer := False, receiver_type := BEAST\<rparr>" t]
  by (auto simp: autodetect_expired_def sound_calls_def)

text \<open>None of them fails.\<close>

lemma connection_established_ends: "\<exists>t. connection_established v s = Inr t"
  by (simp add: connection_established_def Let_def send_settings_ends)

lemma set_filter_ends: "\<exists>t. set_filter v f s = Inr t"
  by (simp add: set_filter_def send_settings_ends)

lemma autodetect_ends: "\<exists>t. autodetect_expired v s = Inr t"
  by (simp add: autodetect_expired_def send_settings_ends)

text \<open>Sending the settings does not disturb the parser.\<close>

lemma write_parser_ok: "parser_ok (snd (low_level_write v d s)) = parser_ok s"
proof -
  have tr: "parser_ok (beast_input.truncate t) = parser_ok t" for t :: "'x beast_input_scheme"
    by (simp add: parser_ok_def truncate_fields)
  have "parser_ok (t\<lparr>calls := c\<rparr>) = parser_ok t" for t :: beast_input and c by (simp add: parser_ok_def)
  then show ?thesis
    using arg_cong [OF write_log [of d s], of parser_ok]
    by (cases "fst (low_level_write v d s)") (simp_all add: tr Let_def)
qed

lemma send_settings_parser_ok:
  assumes "send_settings_message v s = Inr t"
  shows "parser_ok t = parser_ok s"
proof -
  obtain d where d: "to_message (wanted_settings v s) = Inr d" using wanted_to_message by blast
  obtain w u where u: "low_level_write v d s = (w, u)" by (cases "low_level_write v d s")
  have "parser_ok u = parser_ok s" using write_parser_ok [of d s] u by simp
  moreover have "t = s \<or> t = u \<or> (\<exists>c. t = u\<lparr>current_settings := c\<rparr>)"
    using assms d u by (auto simp: send_settings_message_def Let_def split: if_splits)
  moreover have "parser_ok (u\<lparr>current_settings := c\<rparr>) = parser_ok u" for c by (simp add: parser_ok_def)
  ultimately show ?thesis by metis
qed

lemma set_filter_keeps:
  assumes "set_filter v f s = Inr t"
  shows "parser_ok t = parser_ok s \<and> fixed_settings t = fixed_settings s \<and>
    reconnect_timer t = reconnect_timer s"
proof (cases "filter_eq (input_filter s) f")
  case True
  then show ?thesis using assms by (simp add: set_filter_def)
next
  case False
  then have e: "send_settings_message v (s\<lparr>input_filter := f\<rparr>) = Inr t"
    using assms by (simp add: set_filter_def)
  show ?thesis
    using send_settings_parser_ok [OF e] send_settings_config [OF e] by (simp add: parser_ok_def config_def)
qed

lemma autodetect_keeps:
  assumes "autodetect_expired v s = Inr t"
  shows "parser_ok t = parser_ok s \<and> fixed_settings t = fixed_settings s \<and>
    reconnect_timer t = reconnect_timer s"
proof -
  note e = assms [unfolded autodetect_expired_def]
  show ?thesis
    using send_settings_parser_ok [OF e] send_settings_config [OF e] by (simp add: parser_ok_def config_def)
qed

text \<open>A frame that is not dispatched is only counted.\<close>

lemma fold_quiet:
  assumes "parser s = READ_1A" and "type \<in> {MODE_AC, MODE_S_SHORT, MODE_S_LONG}"
    and "length d = message_size type"
    and "\<not> can_dispatch v (saw_good_message v (framed type (timestamp_bytes ts @ [sig]) d s))"
  shows "efold (byte_step v) s (beast_frame type ts sig d) =
    Inr ((saw_good_message v (framed type (timestamp_bytes ts @ [sig]) d s))\<lparr>parser := READ_1A\<rparr>)"
proof -
  let ?f = "framed type (timestamp_bytes ts @ [sig]) d s"
  have ty: "type \<noteq> INVALID" "type \<noteq> POSITION" "type \<noteq> STATUS" using assms(2) by auto
  have "length (timestamp_bytes ts @ [sig]) = 7" by (simp add: timestamp_bytes_def)
  from fold_frame [OF assms(1) messagetype_byte [OF ty(1,2)] ty(1) this assms(3)]
  have "efold (byte_step v) s (beast_frame type ts sig d) = finish_message v ?f"
    using ty by (simp add: beast_frame_def)
  moreover have "messagetype (saw_good_message v ?f) \<noteq> STATUS"
    using ty(3) by (simp add: saw_good_fields framed_def)
  then have "dispatch_message v (saw_good_message v ?f) = Inr (saw_good_message v ?f)"
    using dispatch_split [of "saw_good_message v ?f" "saw_good_message v ?f"] assms(4) by simp
  ultimately show ?thesis by (simp add: finish_message_def)
qed

end

end
