(* ===== verification/SerialInput.thy ===== *)
theory SerialInput
  imports BeastInput
begin

section \<open>The serial receiver (beast_input_serial.h, beast_input_serial.cc)\<close>

text \<open>
  \<open>SerialInput\<close> extends the record of the base class by the port, the autobaud state and the
  pending reads. Each handler the io service can call is an operation; what the operating
  system answers (whether the port could be opened and set up, what a read returned) is an
  argument.
\<close>

subsection \<open>State\<close>

text \<open>
  \<open>autobaud_rate\<close> is the iterator, as an index. \<open>reads\<close> counts the reads that are pending on
  the port and \<open>read_waits\<close> the waits on \<open>read_timer\<close>; both are queues of handlers, so there can
  be more than one. The cached read buffer has no effect and is left out.
\<close>

record serial_input = beast_input +
  port_open :: bool
  autobauding :: bool
  autobaud_rates :: "u32 list"
  autobaud_rate :: nat
  baud_rate :: u32
  autobaud_interval :: nat
  autobaud_timer :: bool
  reads :: nat
  read_waits :: nat
  warned_about_rate :: bool

definition autobaud_standard_rates :: "u32 list" where
  "autobaud_standard_rates = [3000000, 1000000]"

definition autobaud_base_interval :: nat where
  "autobaud_base_interval = 1000"

definition autobaud_max_interval :: nat where
  "autobaud_max_interval = 16000"

definition autobaud_good_messages :: u32 where
  "autobaud_good_messages = 4"

definition autobaud_restart_bytes :: u32 where
  "autobaud_restart_bytes = 1000"

definition read_buffer_size :: nat where
  "read_buffer_size = 4096"

definition new_serial_input :: "u32 \<Rightarrow> settings \<Rightarrow> filter \<Rightarrow> serial_input" where
  "new_serial_input fixed_baud_rate fixed f =
     beast_input.extend (new_beast_input fixed f)
       (if fixed_baud_rate = 0
        then serial_input.fields False True autobaud_standard_rates 0 (autobaud_standard_rates ! 0)
          autobaud_base_interval False 0 0 False
        else serial_input.fields False False [] 0 fixed_baud_rate autobaud_base_interval False 0 0 False)"

subsection \<open>The virtual functions\<close>

definition serial_saw_good_message :: "serial_input \<Rightarrow> serial_input" where
  "serial_saw_good_message s =
     (let s = base_saw_good_message s in
      if autobauding s \<and> autobaud_good_messages \<le> good_messages_count s
      then s\<lparr>autobauding := False, autobaud_timer := False\<rparr> else s)"

definition serial_can_dispatch :: "serial_input \<Rightarrow> bool" where
  "serial_can_dispatch s \<longleftrightarrow> \<not> autobauding s \<and> base_can_dispatch s"

definition serial_low_level_write :: "bytebuf \<Rightarrow> serial_input \<Rightarrow> bool \<times> serial_input" where
  "serial_low_level_write message s =
     (if \<not> port_open s then (False, s)
      else (True, s\<lparr>calls := calls s @ [Write_out message]\<rparr>))"

definition serial_apply_settings :: "settings \<Rightarrow> settings" where
  "serial_apply_settings settings =
     settings\<lparr>rts_handshake := ts_of_bool True, verbatim := DONTCARE\<rparr>"

definition serial_virtuals :: "serial_input virtuals" where
  "serial_virtuals =
     \<lparr>saw_good_message = serial_saw_good_message, can_dispatch = serial_can_dispatch,
      low_level_write = serial_low_level_write, apply_connection_settings = serial_apply_settings\<rparr>"

lemma same_port: "beast_input.more s = beast_input.more s' \<Longrightarrow> port_open s = port_open s'"
  for s s' :: serial_input
  by (cases s; cases s') simp

interpretation serial: input_virtuals serial_virtuals
  by unfold_locales
     (auto simp: serial_virtuals_def serial_saw_good_message_def serial_can_dispatch_def
       serial_low_level_write_def serial_apply_settings_def base_saw_good_message_def
       base_can_dispatch_def beast_input.defs Let_def dest: same_port)

subsection \<open>The handlers\<close>

text \<open>Closing or cancelling the port completes its reads with \<open>operation_aborted\<close>, which ends them.\<close>

definition serial_disconnect :: "serial_input \<Rightarrow> serial_input" where
  "serial_disconnect s =
     s\<lparr>autobaud_timer := False, read_waits := 0, port_open := False, reads := 0\<rparr>"

text \<open>An error other than \<open>operation_aborted\<close>.\<close>

definition serial_handle_error :: "serial_input \<Rightarrow> serial_input" where
  "serial_handle_error s =
     (let s = connection_failed s;
          s = s\<lparr>autobaud_timer := False, read_waits := 0\<rparr>;
          s = (if port_open s then s\<lparr>port_open := False, reads := 0\<rparr> else s)
      in if autobaud_rates s \<noteq> []
         then s\<lparr>autobauding := True, autobaud_interval := autobaud_base_interval,
           autobaud_rate := 0, baud_rate := autobaud_rates s ! 0\<rparr>
         else s)"

definition serial_start_reading :: "serial_input \<Rightarrow> serial_input" where
  "serial_start_reading s = s\<lparr>read_waits := 0, reads := reads s + 1\<rparr>"

text \<open>The argument \<open>ok\<close> is whether opening and setting up the port succeeded.\<close>

definition serial_try_to_connect :: "bool \<Rightarrow> serial_input \<Rightarrow> failure + serial_input" where
  "serial_try_to_connect ok s =
     (let s = (if port_open s then s\<lparr>reads := 0\<rparr> else s\<lparr>port_open := ok\<rparr>) in
      if \<not> ok then Inr (serial_handle_error s)
      else
        (let s = (if 1 < length (autobaud_rates s) then s\<lparr>autobaud_timer := True\<rparr> else s)
         in ebind (connection_established serial_virtuals s) (\<lambda>s. Inr (serial_start_reading s))))"

definition advance_autobaud :: "bool \<Rightarrow> serial_input \<Rightarrow> failure + serial_input" where
  "advance_autobaud ok s =
     (if \<not> autobauding s then Inr s
      else
        (let s = s\<lparr>autobaud_rate := autobaud_rate s + 1\<rparr>;
             s = (if autobaud_rate s = length (autobaud_rates s)
                  then s\<lparr>autobaud_interval := min autobaud_max_interval (autobaud_interval s * 2),
                    autobaud_rate := 0\<rparr>
                  else s);
             s = s\<lparr>baud_rate := autobaud_rates s ! autobaud_rate s\<rparr>
         in serial_try_to_connect ok s))"

definition serial_check_framing_errors :: "bool \<Rightarrow> serial_input \<Rightarrow> failure + serial_input" where
  "serial_check_framing_errors ok s =
     (if \<not> autobauding s \<and> \<not> good_sync s \<and> autobaud_restart_bytes < bad_bytes_count s
      then (if autobaud_rates s \<noteq> [] then advance_autobaud ok (s\<lparr>autobauding := True\<rparr>)
            else Inr (s\<lparr>warned_about_rate := True\<rparr>))
      else Inr s)"

text \<open>What a read returns.\<close>

datatype read_result = Aborted | Failed | Received bytebuf

definition serial_read_handler :: "bool \<Rightarrow> read_result \<Rightarrow> serial_input \<Rightarrow> failure + serial_input" where
  "serial_read_handler ok r s =
     (let s = s\<lparr>reads := reads s - 1\<rparr> in
      case r of
        Aborted \<Rightarrow> Inr s
      | Failed \<Rightarrow> Inr (serial_handle_error s)
      | Received buf \<Rightarrow>
          ebind (parse_input serial_virtuals buf s) (\<lambda>s.
          ebind (serial_check_framing_errors ok s) (\<lambda>s.
            Inr (if length buf < read_buffer_size * 3 div 4 then s\<lparr>read_waits := read_waits s + 1\<rparr>
                 else serial_start_reading s))))"

text \<open>The timers: all waits on \<open>read_timer\<close> end together when it expires.\<close>

definition serial_read_timer_expired :: "serial_input \<Rightarrow> serial_input" where
  "serial_read_timer_expired s = (serial_start_reading ^^ read_waits s) (s\<lparr>read_waits := 0\<rparr>)"

definition serial_autobaud_expired :: "bool \<Rightarrow> serial_input \<Rightarrow> failure + serial_input" where
  "serial_autobaud_expired ok s = advance_autobaud ok (s\<lparr>autobaud_timer := False\<rparr>)"

definition serial_reconnect_expired :: "bool \<Rightarrow> serial_input \<Rightarrow> failure + serial_input" where
  "serial_reconnect_expired ok s = serial_try_to_connect ok (s\<lparr>reconnect_timer := False\<rparr>)"

definition serial_liveness_expired :: "serial_input \<Rightarrow> serial_input" where
  "serial_liveness_expired s = connection_failed (serial_disconnect (s\<lparr>liveness_timer := False\<rparr>))"

definition serial_start :: "bool \<Rightarrow> serial_input \<Rightarrow> failure + serial_input" where
  "serial_start ok s = serial_try_to_connect ok s"

definition serial_close :: "serial_input \<Rightarrow> serial_input" where
  "serial_close s = serial_disconnect (s\<lparr>good_sync := False\<rparr>)"

subsection \<open>Everything that can happen to it\<close>

text \<open>
  A step is a handler the io service calls, or a call from outside, when it can be called: a
  read completes only if it is pending, a read of a port that is not open does not return data
  and returns at most a buffer, a timer expires only while it is armed. Before it is started, the
  input may have been given another filter and a message notifier.
\<close>

inductive serial_handler :: "serial_input \<Rightarrow> serial_input \<Rightarrow> bool" where
  read: "0 < reads s \<Longrightarrow> (\<And>b. r = Received b \<Longrightarrow> port_open s \<and> length b \<le> read_buffer_size) \<Longrightarrow>
    serial_read_handler ok r s = Inr t \<Longrightarrow> serial_handler s t"
| read_timer: "0 < read_waits s \<Longrightarrow> serial_handler s (serial_read_timer_expired s)"
| autobaud: "autobaud_timer s \<Longrightarrow> serial_autobaud_expired ok s = Inr t \<Longrightarrow> serial_handler s t"
| reconnect: "reconnect_timer s \<Longrightarrow> serial_reconnect_expired ok s = Inr t \<Longrightarrow> serial_handler s t"
| liveness: "liveness_timer s \<Longrightarrow> serial_handler s (serial_liveness_expired s)"
| autodetect: "autodetect_timer s \<Longrightarrow> autodetect_expired serial_virtuals s = Inr t \<Longrightarrow> serial_handler s t"
| write_failed: "serial_handler s (serial_handle_error s)"

text \<open>A handler of the input fails; the program ends.\<close>

inductive serial_fails :: "serial_input \<Rightarrow> failure \<Rightarrow> bool" where
  read: "0 < reads s \<Longrightarrow> (\<And>b. r = Received b \<Longrightarrow> port_open s \<and> length b \<le> read_buffer_size) \<Longrightarrow>
    serial_read_handler ok r s = Inl e \<Longrightarrow> serial_fails s e"
| autobaud: "autobaud_timer s \<Longrightarrow> serial_autobaud_expired ok s = Inl e \<Longrightarrow> serial_fails s e"
| reconnect: "reconnect_timer s \<Longrightarrow> serial_reconnect_expired ok s = Inl e \<Longrightarrow> serial_fails s e"
| autodetect: "autodetect_timer s \<Longrightarrow> autodetect_expired serial_virtuals s = Inl e \<Longrightarrow> serial_fails s e"

inductive serial_step :: "serial_input \<Rightarrow> serial_input \<Rightarrow> bool" where
  handler: "serial_handler s t \<Longrightarrow> serial_step s t"
| filter_set: "set_filter serial_virtuals f s = Inr t \<Longrightarrow> serial_step s t"
| notifier: "serial_step s (set_message_notifier s)"

inductive serial_reachable :: "u32 \<Rightarrow> settings \<Rightarrow> serial_input \<Rightarrow> bool" for baud fixed where
  start: "serial_start ok ((new_serial_input baud fixed f)\<lparr>has_message_notifier := n\<rparr>) = Inr s \<Longrightarrow>
    serial_reachable baud fixed s"
| step: "serial_reachable baud fixed s \<Longrightarrow> serial_step s t \<Longrightarrow> serial_reachable baud fixed t"

text \<open>The autobaud state: a fixed rate never changes, otherwise the rate is the one pointed to.\<close>

definition baud_ok :: "u32 \<Rightarrow> serial_input \<Rightarrow> bool" where
  "baud_ok baud s \<longleftrightarrow>
     (if baud \<noteq> 0 then autobaud_rates s = [] \<and> \<not> autobauding s \<and> baud_rate s = baud
      else autobaud_rates s = autobaud_standard_rates \<and> autobaud_rate s < 2 \<and>
        baud_rate s = autobaud_standard_rates ! autobaud_rate s) \<and>
     autobaud_interval s \<in> {1000, 2000, 4000, 8000, 16000}"

definition serial_ok :: "u32 \<Rightarrow> settings \<Rightarrow> serial_input \<Rightarrow> bool" where
  "serial_ok baud fixed s \<longleftrightarrow>
     parser_ok s \<and> fixed_settings s = fixed \<and> baud_ok baud s \<and>
     (port_open s \<longrightarrow> up_to_date serial_virtuals s) \<and>
     (port_open s \<longrightarrow> autobauding s \<longrightarrow> autobaud_timer s) \<and>
     (autobaud_timer s \<longrightarrow> port_open s) \<and>
     (port_open s \<or> reconnect_timer s) \<and>
     reads s + read_waits s \<le> (if port_open s then 2 else 1)"

text \<open>The part of it that is about the members \<open>SerialInput\<close> adds.\<close>

definition port_ok :: "u32 \<Rightarrow> bool \<Rightarrow> nat \<Rightarrow> serial_input \<Rightarrow> bool" where
  "port_ok baud p n s \<longleftrightarrow> baud_ok baud s \<and> port_open s = p \<and> reads s + read_waits s = n \<and>
     (port_open s \<longrightarrow> autobauding s \<longrightarrow> autobaud_timer s) \<and> (autobaud_timer s \<longrightarrow> port_open s)"

lemma serial_link: "link_up serial_virtuals s \<longleftrightarrow> port_open s"
  by (simp add: link_up_def serial_virtuals_def serial_low_level_write_def)

lemma serial_more:
  fixes s t :: serial_input
  assumes "beast_input.more s = beast_input.more t"
  shows "autobauding s = autobauding t" "autobaud_rates s = autobaud_rates t"
    "autobaud_rate s = autobaud_rate t" "baud_rate s = baud_rate t"
    "autobaud_interval s = autobaud_interval t" "autobaud_timer s = autobaud_timer t"
    "reads s = reads t" "read_waits s = read_waits t" "warned_about_rate s = warned_about_rate t"
    "port_open s = port_open t"
  using assms by (cases s; cases t; simp)+

lemma port_ok_own: "own_invariant serial_virtuals (port_ok baud p n)"
proof -
  have "port_ok baud p n t" if "port_ok baud p n s" "beast_input.more s = beast_input.more t" for s t
    using that(1) unfolding port_ok_def baud_ok_def serial_more [OF that(2)] .
  moreover have "port_ok baud p n (serial_saw_good_message s)" if "port_ok baud p n s" for s
    using that
    by (auto simp: port_ok_def baud_ok_def serial_saw_good_message_def base_saw_good_message_def Let_def)
  moreover have "port_ok baud p n (snd (serial_low_level_write d s))" if "port_ok baud p n s" for s d
    using that by (auto simp: port_ok_def baud_ok_def serial_low_level_write_def)
  ultimately show ?thesis by (auto simp: own_invariant_def serial_virtuals_def)
qed

text \<open>Sending the settings changes nothing of it, connecting turns reading on.\<close>

lemma serial_send_more:
  assumes "send_settings_message serial_virtuals s = Inr t"
  shows "beast_input.more t = beast_input.more s"
  using assms
  by (auto simp: send_settings_message_def serial_virtuals_def serial_low_level_write_def Let_def
      ebind_Inr_iff split: if_splits)

lemma serial_established_more:
  assumes "connection_established serial_virtuals s = Inr t"
  shows "beast_input.more t = beast_input.more s"
proof -
  obtain u where "send_settings_message serial_virtuals u = Inr t"
    "beast_input.more u = beast_input.more s"
    using assms by (rule connection_established_sends)
  then show ?thesis using serial_send_more by simp
qed

lemma own_members:
  "port_ok baud p n s \<Longrightarrow> beast_input.more t = beast_input.more s \<Longrightarrow> port_ok baud p n t"
  using port_ok_own [of baud p n] unfolding own_invariant_def by metis

lemma serial_okI:
  assumes "port_ok baud p n s" and "parser_ok s" and "fixed_settings s = fixed"
    and "p \<Longrightarrow> up_to_date serial_virtuals s" and "\<not> p \<Longrightarrow> reconnect_timer s"
    and "n \<le> (if p then 2 else 1)"
  shows "serial_ok baud fixed s"
  using assms by (auto simp: serial_ok_def port_ok_def)

lemma serial_okE:
  assumes "serial_ok baud fixed s"
  obtains "port_ok baud (port_open s) (reads s + read_waits s) s" "parser_ok s" "fixed_settings s = fixed"
    "port_open s \<Longrightarrow> up_to_date serial_virtuals s" "port_open s \<or> reconnect_timer s"
    "reads s + read_waits s \<le> (if port_open s then 2 else 1)"
  using assms by (auto simp: serial_ok_def port_ok_def)

text \<open>After an error the port is closed and a reconnection is pending.\<close>

lemma serial_handle_error_members:
  "parser (serial_handle_error s) = parser s" "calls (serial_handle_error s) = calls s"
  "\<not> good_sync (serial_handle_error s)" "good_messages_count (serial_handle_error s) = good_messages_count s"
  "messagedata (serial_handle_error s) = messagedata s" "metadata (serial_handle_error s) = metadata s"
  "messagetype (serial_handle_error s) = messagetype s" "reconnect_timer (serial_handle_error s)"
  "fixed_settings (serial_handle_error s) = fixed_settings s"
  "\<not> port_open (serial_handle_error s)" "\<not> autobaud_timer (serial_handle_error s)"
  "reads (serial_handle_error s) = (if port_open s then 0 else reads s)"
  "read_waits (serial_handle_error s) = 0"
  by (simp_all add: serial_handle_error_def connection_failed_def Let_def)

lemma serial_handle_error_baud:
  "baud_ok baud s \<Longrightarrow> baud_ok baud (serial_handle_error s)"
  by (cases "baud = 0")
     (simp_all add: baud_ok_def serial_handle_error_def connection_failed_def
       autobaud_base_interval_def autobaud_standard_rates_def Let_def)

lemma serial_handle_error_ok:
  assumes "port_ok baud p n s" and "parser_ok s" and "fixed_settings s = fixed"
    and "\<not> p \<Longrightarrow> n \<le> 1"
  shows "serial_ok baud fixed (serial_handle_error s)"
    "reads (serial_handle_error s) + read_waits (serial_handle_error s) \<le> (if p then 0 else n)"
proof -
  have "parser_ok (serial_handle_error s)"
    using assms(2) by (simp add: parser_ok_def serial_handle_error_members)
  moreover have "baud_ok baud (serial_handle_error s)"
    using assms(1) serial_handle_error_baud by (simp add: port_ok_def)
  ultimately show "serial_ok baud fixed (serial_handle_error s)"
    using assms by (auto simp: serial_ok_def port_ok_def serial_handle_error_members)
  show "reads (serial_handle_error s) + read_waits (serial_handle_error s) \<le> (if p then 0 else n)"
    using assms(1) by (auto simp: port_ok_def serial_handle_error_members)
qed

text \<open>Connecting ends with the port open and one read pending, or with a reconnection pending.\<close>

lemma serial_try_to_connect_ok:
  assumes "baud_ok baud s" and "parser_ok s" and "fixed_settings s = fixed"
    and "\<not> port_open s \<Longrightarrow> reads s \<le> 1"
    and "serial_try_to_connect ok s = Inr t"
  shows "serial_ok baud fixed t" and "sound_calls s t"
    and "reads t + read_waits t \<le> (if port_open s then if ok then 1 else 0 else if ok then 2 else 1)"
    and "port_open t = ok"
proof -
  let ?s = "if port_open s then s\<lparr>reads := 0\<rparr> else s\<lparr>port_open := ok\<rparr>"
  have "serial_ok baud fixed t \<and> sound_calls s t \<and>
    reads t + read_waits t \<le> (if port_open s then if ok then 1 else 0 else if ok then 2 else 1) \<and>
    port_open t = ok"
  proof (cases ok)
    case False
    then have t: "t = serial_handle_error ?s"
      using assms(5) by (simp add: serial_try_to_connect_def Let_def split: if_splits)
    have b: "baud_ok baud ?s" using assms(1) by (simp add: baud_ok_def)
    have f: "parser_ok ?s" "fixed_settings ?s = fixed" "calls ?s = calls s"
      "reads ?s \<le> (if port_open s then 0 else 1)" "\<not> ok \<Longrightarrow> port_open s \<or> \<not> port_open ?s"
      using assms(2-4) by (simp_all add: parser_ok_def)
    have "parser_ok t" using f(1) by (simp add: t parser_ok_def serial_handle_error_members)
    then show ?thesis
      using False f serial_handle_error_baud [OF b]
      by (auto simp: t serial_ok_def sound_calls_def serial_handle_error_members)
  next
    case True
    define r where "r = (if 1 < length (autobaud_rates s) then ?s\<lparr>autobaud_timer := True\<rparr> else ?s)"
    have r: "port_open r" "baud_ok baud r" "fixed_settings r = fixed" "calls r = calls s"
      "autobauding r \<Longrightarrow> autobaud_timer r" "reads r = (if port_open s then 0 else reads s)"
      using True assms(1,3) by (auto simp: r_def baud_ok_def autobaud_standard_rates_def split: if_splits)
    obtain u where u: "connection_established serial_virtuals r = Inr u"
      and t: "t = serial_start_reading u"
      using assms(5) True by (auto simp: serial_try_to_connect_def Let_def r_def ebind_Inr_iff split: if_splits)
    note e = serial.connection_established_result [OF u]
    note m = serial_more [OF serial_established_more [OF u]]
    have "baud_ok baud t" using r(2) m by (simp add: t baud_ok_def serial_start_reading_def)
    moreover have "parser_ok t" using e(1) by (simp add: t parser_ok_def serial_start_reading_def)
    moreover have "up_to_date serial_virtuals t"
      using e(6) r(1)
      by (simp add: t serial_link serial_start_reading_def up_to_date_def wanted_settings_def)
    moreover have "sound_calls s t"
      using serial.connection_established_sound [OF u] r(4)
      by (simp add: t serial_start_reading_def sound_calls_def)
    ultimately show ?thesis
      using r m e(4) True assms(4)
      by (auto simp: serial_ok_def t serial_start_reading_def)
  qed
  then show "serial_ok baud fixed t" and "sound_calls s t"
    and "reads t + read_waits t \<le> (if port_open s then if ok then 1 else 0 else if ok then 2 else 1)"
    and "port_open t = ok" by simp_all
qed

lemma interval_doubles:
  "n \<in> {1000, 2000, 4000, 8000, 16000} \<Longrightarrow>
    min autobaud_max_interval (n * 2) \<in> {1000, 2000, 4000, 8000, 16000}" for n :: nat
  by (auto simp: autobaud_max_interval_def)

text \<open>The state in which \<open>advance_autobaud\<close> tries the next rate.\<close>

definition next_rate :: "serial_input \<Rightarrow> serial_input" where
  "next_rate s =
     (let s = s\<lparr>autobaud_rate := autobaud_rate s + 1\<rparr>;
          s = (if autobaud_rate s = length (autobaud_rates s)
               then s\<lparr>autobaud_interval := min autobaud_max_interval (autobaud_interval s * 2),
                 autobaud_rate := 0\<rparr>
               else s)
      in s\<lparr>baud_rate := autobaud_rates s ! autobaud_rate s\<rparr>)"

lemma advance_autobaud_next:
  "advance_autobaud ok s = (if autobauding s then serial_try_to_connect ok (next_rate s) else Inr s)"
  by (simp add: advance_autobaud_def next_rate_def Let_def)

lemma next_rate_baud:
  assumes "baud_ok baud s" and "autobauding s"
  shows "baud_ok baud (next_rate s)"
proof -
  have "baud = 0" using assms by (auto simp: baud_ok_def split: if_splits)
  then show ?thesis
    using assms interval_doubles [of "autobaud_interval s"]
    by (auto simp: baud_ok_def next_rate_def autobaud_standard_rates_def Let_def)
qed

lemma next_rate_members:
  "parser_ok (next_rate s) = parser_ok s" "fixed_settings (next_rate s) = fixed_settings s"
  "port_open (next_rate s) = port_open s" "reads (next_rate s) = reads s"
  "calls (next_rate s) = calls s"
  by (auto simp: next_rate_def parser_ok_def Let_def)

lemma advance_autobaud_ok:
  assumes "baud_ok baud s" and "parser_ok s" and "fixed_settings s = fixed" and "autobauding s"
    and "\<not> port_open s \<Longrightarrow> reads s \<le> 1" and "advance_autobaud ok s = Inr t"
  shows "serial_ok baud fixed t" and "sound_calls s t"
    and "reads t + read_waits t \<le> (if port_open s then if ok then 1 else 0 else if ok then 2 else 1)"
    and "port_open t = ok"
proof -
  have c: "serial_try_to_connect ok (next_rate s) = Inr t"
    using assms(4,6) by (simp add: advance_autobaud_next)
  note n = serial_try_to_connect_ok [OF next_rate_baud [OF assms(1,4)] _ _ _ c]
  show "serial_ok baud fixed t" and "sound_calls s t"
    and "reads t + read_waits t \<le> (if port_open s then if ok then 1 else 0 else if ok then 2 else 1)"
    and "port_open t = ok"
    using n assms(2,3,5) by (simp_all add: next_rate_members sound_calls_def)
qed

text \<open>
  After a read the parser's state is sound again; a restart of the autobaud search leaves one
  read pending on the port, which the handler's own next read joins.
\<close>

lemma serial_check_framing_ok:
  assumes "port_ok baud True n s" and "n \<le> 1" and "parser_ok s" and "fixed_settings s = fixed"
    and "up_to_date serial_virtuals s" and "serial_check_framing_errors ok s = Inr t"
  shows "serial_ok baud fixed t \<and> sound_calls s t \<and>
    reads t + read_waits t \<le> (if port_open t then 1 else 0)"
proof (cases "\<not> autobauding s \<and> \<not> good_sync s \<and> autobaud_restart_bytes < bad_bytes_count s")
  case True
  show ?thesis
  proof (cases "autobaud_rates s = []")
    case empty: True
    have t: "t = s\<lparr>warned_about_rate := True\<rparr>"
      using assms(6) True empty by (simp add: serial_check_framing_errors_def)
    have "serial_ok baud fixed t"
      using assms(1-5) by (auto simp: t serial_ok_def port_ok_def baud_ok_def parser_ok_def
        up_to_date_def wanted_settings_def)
    then show ?thesis using assms(1,2) by (auto simp: t port_ok_def sound_calls_def)
  next
    case False
    let ?s = "s\<lparr>autobauding := True\<rparr>"
    have a: "advance_autobaud ok ?s = Inr t"
      using assms(6) True False by (simp add: serial_check_framing_errors_def)
    have b: "baud_ok baud ?s" "port_open ?s" "fixed_settings ?s = fixed" "parser_ok ?s"
      using assms(1,3,4) False by (auto simp: port_ok_def baud_ok_def parser_ok_def split: if_splits)
    note n = advance_autobaud_ok [OF b(1,4,3) _ _ a]
    show ?thesis
      using n(1,2,4) n(3) b(2) by (auto simp: sound_calls_def split: if_splits)
  qed
next
  case False
  then have t: "t = s" using assms(6) by (simp add: serial_check_framing_errors_def split: if_splits)
  show ?thesis using assms(1-5) by (auto simp: t serial_ok_def port_ok_def sound_calls_def)
qed

text \<open>Another pending read or wait, within the bound.\<close>

lemma serial_ok_more_reads:
  assumes "serial_ok baud fixed s" and "m + n \<le> (if port_open s then 2 else 1)"
  shows "serial_ok baud fixed (s\<lparr>reads := m, read_waits := n\<rparr>)"
    "serial_ok baud fixed (s\<lparr>read_waits := n, reads := m\<rparr>)"
  using assms by (auto simp: serial_ok_def baud_ok_def parser_ok_def up_to_date_def wanted_settings_def)

lemma serial_read_handler_ok:
  assumes ok: "serial_ok baud fixed s" and "0 < reads s"
    and opened: "\<And>b. r = Received b \<Longrightarrow> port_open s" and "serial_read_handler ok r s = Inr t"
  shows "serial_ok baud fixed t \<and> sound_calls s t"
proof -
  let ?s = "s\<lparr>reads := reads s - 1\<rparr>"
  note e = ok [THEN serial_okE]
  have s: "serial_ok baud fixed ?s"
    using serial_ok_more_reads(1) [OF ok, of "reads s - 1" "read_waits s"] ok by (auto simp: serial_ok_def)
  have p: "port_ok baud (port_open s) (reads s - 1 + read_waits s) ?s"
    using ok by (simp add: serial_ok_def port_ok_def baud_ok_def)
  have n: "reads s - 1 + read_waits s \<le> (if port_open s then 1 else 0)"
    using ok assms(2) by (auto simp: serial_ok_def split: if_splits)
  have f: "parser_ok ?s" "fixed_settings ?s = fixed" using s by (simp_all add: serial_ok_def)
  show ?thesis
  proof (cases r)
    case Aborted
    then show ?thesis using assms(4) s by (auto simp: serial_read_handler_def Let_def sound_calls_def)
  next
    case Failed
    then have t: "t = serial_handle_error ?s" using assms(4) by (simp add: serial_read_handler_def Let_def)
    show ?thesis
      using serial_handle_error_ok(1) [OF p f] n
      by (auto simp: t sound_calls_def serial_handle_error_members split: if_splits)
  next
    case (Received b)
    then have o: "port_open s" using opened by blast
    obtain u w where u: "parse_input serial_virtuals b ?s = Inr u"
      and w: "serial_check_framing_errors ok u = Inr w"
      and t: "t = (if length b < read_buffer_size * 3 div 4 then w\<lparr>read_waits := read_waits w + 1\<rparr>
          else serial_start_reading w)"
      using assms(4) Received by (auto simp: serial_read_handler_def Let_def ebind_Inr_iff)
    have up: "port_ok baud True (reads s - 1 + read_waits s) u"
      using serial.own_parse_input [OF port_ok_own p f(1) u] o by simp
    have uf: "parser_ok u" "fixed_settings u = fixed" "up_to_date serial_virtuals u"
      using serial.parse_input_ok [OF f(1) u] serial.parse_input_config [OF f(1) u] f(2)
        serial.parse_input_up_to_date [OF _ _ f(1) u] s o
      by (simp_all add: config_def serial_link serial_ok_def)
    have us: "sound_calls s u"
      using serial.parse_input_sound [OF f(1), of b] u by (simp add: sound_calls_def)
    have nn: "reads s - 1 + read_waits s \<le> 1" using n o by simp
    have c: "serial_ok baud fixed w \<and> sound_calls u w \<and>
        reads w + read_waits w \<le> (if port_open w then 1 else 0)"
      by (rule serial_check_framing_ok [OF up nn uf w])
    have "serial_ok baud fixed t"
      using c serial_ok_more_reads(1) [of baud fixed w "reads w" "read_waits w + 1"]
        serial_ok_more_reads(2) [of baud fixed w "reads w + 1" 0]
      by (auto simp: t serial_start_reading_def split: if_splits)
    moreover have "sound_calls s w" using us c sound_calls_trans by blast
    then have "sound_calls s t" by (simp add: t serial_start_reading_def sound_calls_def)
    ultimately show ?thesis ..
  qed
qed

lemma serial_start_reading_times:
  "(serial_start_reading ^^ n) s = s\<lparr>reads := reads s + n, read_waits := (if n = 0 then read_waits s else 0)\<rparr>"
  by (induction n) (simp_all add: serial_start_reading_def)


text \<open>Sending the settings while the port is open keeps it.\<close>

lemma serial_ok_keep:
  assumes ok: "serial_ok baud fixed s" and "beast_input.more t = beast_input.more s"
    and "parser_ok t = parser_ok s \<and> fixed_settings t = fixed_settings s \<and>
      reconnect_timer t = reconnect_timer s"
    and "port_open s \<Longrightarrow> up_to_date serial_virtuals t"
  shows "serial_ok baud fixed t"
proof -
  have "port_ok baud (port_open s) (reads s + read_waits s) t"
    by (rule own_members [OF _ assms(2)]) (use ok in \<open>simp add: serial_ok_def port_ok_def\<close>)
  then show ?thesis
    by (rule serial_okI) (use assms in \<open>simp_all add: serial_ok_def\<close>)
qed

lemma serial_handler_ok:
  assumes "serial_handler s t" and ok: "serial_ok baud fixed s"
  shows "serial_ok baud fixed t \<and> sound_calls s t"
  using assms(1)
proof cases
  case (read r ok')
  then show ?thesis using serial_read_handler_ok [OF ok read(1) _ read(3)] by blast
next
  case read_timer
  have t: "t = s\<lparr>reads := reads s + read_waits s, read_waits := 0\<rparr>"
    using read_timer by (simp add: serial_read_timer_expired_def serial_start_reading_times)
  have "reads s + read_waits s + 0 \<le> (if port_open s then 2 else 1)" using ok by (simp add: serial_ok_def)
  then show ?thesis
    unfolding t using serial_ok_more_reads(1) [OF ok] by (simp add: sound_calls_def)
next
  case (autobaud ok')
  let ?s = "s\<lparr>autobaud_timer := False\<rparr>"
  have a: "advance_autobaud ok' ?s = Inr t" using autobaud(2) by (simp add: serial_autobaud_expired_def)
  have p: "port_open s" using ok autobaud(1) by (simp add: serial_ok_def)
  have b: "baud_ok baud ?s" "parser_ok ?s" "fixed_settings ?s = fixed"
    using ok by (simp_all add: serial_ok_def baud_ok_def parser_ok_def)
  show ?thesis
  proof (cases "autobauding s")
    case True
    show ?thesis
      using advance_autobaud_ok(1,2) [OF b _ _ a] True p by (simp add: sound_calls_def)
  next
    case False
    then have "t = ?s" using a by (simp add: advance_autobaud_def)
    then show ?thesis
      using ok False
      by (auto simp: serial_ok_def baud_ok_def parser_ok_def sound_calls_def up_to_date_def wanted_settings_def)
  qed
next
  case (reconnect ok')
  let ?s = "s\<lparr>reconnect_timer := False\<rparr>"
  have c: "serial_try_to_connect ok' ?s = Inr t" using reconnect(2) by (simp add: serial_reconnect_expired_def)
  have b: "baud_ok baud ?s" "parser_ok ?s" "fixed_settings ?s = fixed" "\<not> port_open ?s \<Longrightarrow> reads ?s \<le> 1"
    using ok by (auto simp: serial_ok_def baud_ok_def parser_ok_def)
  show ?thesis using serial_try_to_connect_ok(1,2) [OF b c] by (simp add: sound_calls_def)
next
  case liveness
  show ?thesis
    using ok
    by (auto simp: liveness serial_liveness_expired_def serial_disconnect_def connection_failed_def
        serial_ok_def baud_ok_def parser_ok_def sound_calls_def)
next
  case autodetect
  have "up_to_date serial_virtuals t" if "port_open s"
    using serial.autodetect_expired_result(1) [OF _ autodetect(2)] that by (simp add: serial_link)
  then show ?thesis
    using serial_ok_keep [OF ok _ serial.autodetect_keeps [OF autodetect(2)]]
      serial_send_more [OF autodetect(2) [unfolded autodetect_expired_def]]
      serial.autodetect_sound [OF autodetect(2)] by simp
next
  case write_failed
  have "port_ok baud (port_open s) (reads s + read_waits s) s"
    using ok by (simp add: serial_ok_def port_ok_def)
  from serial_handle_error_ok(1) [OF this] show ?thesis
    using ok by (auto simp: write_failed serial_ok_def sound_calls_def serial_handle_error_members
        split: if_splits)
qed

lemma serial_step_ok:
  assumes "serial_step s t" and ok: "serial_ok baud fixed s"
  shows "serial_ok baud fixed t \<and> sound_calls s t"
  using assms(1)
proof cases
  case handler
  then show ?thesis by (rule serial_handler_ok [OF _ ok])
next
  case (filter_set f)
  have m: "beast_input.more t = beast_input.more s"
    using filter_set serial_send_more [of "s\<lparr>input_filter := f\<rparr>" t] by (auto simp: set_filter_def split: if_splits)
  have "up_to_date serial_virtuals t" if "port_open s"
    using serial.set_filter_up_to_date(1) [OF _ _ filter_set] ok that by (simp add: serial_link serial_ok_def)
  then show ?thesis
    using serial_ok_keep [OF ok m serial.set_filter_keeps [OF filter_set]]
      serial.set_filter_sound [OF filter_set] by simp
next
  case notifier
  show ?thesis
    using ok by (auto simp: notifier set_message_notifier_def serial_ok_def baud_ok_def parser_ok_def
        up_to_date_def wanted_settings_def sound_calls_def)
qed

text \<open>Only \<open>set_filter\<close> and \<open>set_message_notifier\<close> change the filter and the notifier.\<close>

definition given :: "serial_input \<Rightarrow> filter \<times> bool" where
  "given s = (input_filter s, has_message_notifier s)"

lemma serial_connect_given:
  assumes "serial_try_to_connect ok s = Inr t"
  shows "given t = given s"
proof -
  have "given t = given u" if "connection_established serial_virtuals u = Inr r" "t = serial_start_reading r" for u r
    using serial.connection_established_config [OF that(1)]
    by (simp add: that(2) serial_start_reading_def given_def config_def)
  then show ?thesis
    using assms
    by (auto simp: serial_try_to_connect_def serial_handle_error_def connection_failed_def given_def Let_def
        ebind_Inr_iff split: if_splits)
qed

lemma serial_handler_given:
  assumes "serial_handler s t" and "serial_ok baud fixed s"
  shows "given t = given s"
proof -
  have err: "given (serial_handle_error u) = given u" for u
    by (simp add: serial_handle_error_def connection_failed_def given_def Let_def)
  have adv: "given w = given u" if "advance_autobaud ok u = Inr w" for ok u w
    using that serial_connect_given [of ok _ w]
    by (auto simp: advance_autobaud_next given_def next_rate_def Let_def split: if_splits)
  have chk: "given w = given u" if "serial_check_framing_errors ok u = Inr w" for ok u w
    using that adv by (auto simp: serial_check_framing_errors_def given_def split: if_splits)
  show ?thesis
    using assms(1)
  proof cases
    case (read r ok)
    let ?s = "s\<lparr>reads := reads s - 1\<rparr>"
    have "parser_ok ?s" using assms(2) by (simp add: serial_ok_def parser_ok_def)
    then have parse: "given u = given s" if "parse_input serial_virtuals b ?s = Inr u" for b u
      using serial.parse_input_config [OF _ that] by (simp add: given_def config_def)
    show ?thesis
    proof (cases r)
      case (Received b)
      then obtain u w where "parse_input serial_virtuals b ?s = Inr u"
        "serial_check_framing_errors ok u = Inr w" "given t = given w"
        using read(3)
        by (auto simp: serial_read_handler_def serial_start_reading_def given_def Let_def ebind_Inr_iff)
      then show ?thesis using parse chk by simp
    qed (use read(3) err [of ?s] in \<open>auto simp: serial_read_handler_def given_def Let_def\<close>)
  next
    case read_timer
    then show ?thesis by (simp add: serial_read_timer_expired_def serial_start_reading_times given_def)
  next
    case (autobaud ok)
    then show ?thesis using adv [of ok _ t] by (simp add: serial_autobaud_expired_def given_def)
  next
    case (reconnect ok)
    then show ?thesis using serial_connect_given [of ok _ t] by (simp add: serial_reconnect_expired_def given_def)
  next
    case liveness
    then show ?thesis
      by (simp add: serial_liveness_expired_def serial_disconnect_def connection_failed_def given_def)
  next
    case autodetect
    note e = autodetect(2) [unfolded autodetect_expired_def]
    show ?thesis using serial.send_settings_config [OF e] by (simp add: given_def config_def)
  qed (use err in simp)
qed

lemma new_serial_ok:
  "baud_ok baud ((new_serial_input baud fixed f)\<lparr>has_message_notifier := n\<rparr>)"
  "parser_ok ((new_serial_input baud fixed f)\<lparr>has_message_notifier := n\<rparr>)"
  "fixed_settings ((new_serial_input baud fixed f)\<lparr>has_message_notifier := n\<rparr>) = fixed"
  "reads ((new_serial_input baud fixed f)\<lparr>has_message_notifier := n\<rparr>) = 0"
  "calls ((new_serial_input baud fixed f)\<lparr>has_message_notifier := n\<rparr>) = []"
  by (simp_all add: new_serial_input_def new_beast_input_def baud_ok_def parser_ok_def beast_input.defs
      serial_input.defs autobaud_base_interval_def autobaud_standard_rates_def)

lemma serial_reachable_ok:
  assumes "serial_reachable baud fixed s"
  shows "serial_ok baud fixed s \<and> (\<forall>m. Notify m \<in> set (calls s) \<longrightarrow> sound_message m)"
  using assms
proof induction
  case (start ok n f s)
  show ?case
    using serial_try_to_connect_ok(1,2) [OF new_serial_ok(1-3) _ start [unfolded serial_start_def]]
      new_serial_ok(4,5) [where baud = baud and fixed = fixed and f = f and n = n]
    by (auto simp: sound_calls_def)
next
  case (step s t)
  then show ?case using serial_step_ok [OF step(2)] by (fastforce simp: sound_calls_def)
qed

subsection \<open>The search for the baud rate\<close>

lemma serial_connect_members:
  assumes "serial_try_to_connect True s = Inr t"
  shows "autobauding t = autobauding s" "autobaud_rates t = autobaud_rates s"
    "autobaud_rate t = autobaud_rate s" "baud_rate t = baud_rate s"
    "autobaud_interval t = autobaud_interval s" "port_open t"
    "autobaud_timer t = (autobaud_timer s \<or> 1 < length (autobaud_rates s))"
    "reads t = (if port_open s then 1 else reads s + 1)" "read_waits t = 0"
proof -
  let ?s = "if port_open s then s\<lparr>reads := 0\<rparr> else s\<lparr>port_open := True\<rparr>"
  define r where "r = (if 1 < length (autobaud_rates s) then ?s\<lparr>autobaud_timer := True\<rparr> else ?s)"
  obtain u where u: "connection_established serial_virtuals r = Inr u"
    and t: "t = serial_start_reading u"
    using assms by (auto simp: serial_try_to_connect_def Let_def r_def ebind_Inr_iff split: if_splits)
  note m = serial_more [OF serial_established_more [OF u]]
  show "autobauding t = autobauding s" "autobaud_rates t = autobaud_rates s"
    "autobaud_rate t = autobaud_rate s" "baud_rate t = baud_rate s"
    "autobaud_interval t = autobaud_interval s" "port_open t"
    "autobaud_timer t = (autobaud_timer s \<or> 1 < length (autobaud_rates s))"
    "reads t = (if port_open s then 1 else reads s + 1)" "read_waits t = 0"
    by (auto simp: t serial_start_reading_def m r_def)
qed

lemma serial_try_to_connect_ends: "\<exists>t. serial_try_to_connect ok s = Inr t"
proof (cases ok)
  case True
  have "\<exists>t. ebind (connection_established serial_virtuals r) (\<lambda>s. Inr (serial_start_reading s)) = Inr t" for r
    using serial.connection_established_ends [of r] by auto
  then show ?thesis using True by (simp add: serial_try_to_connect_def Let_def)
next
  case False
  then show ?thesis by (simp add: serial_try_to_connect_def Let_def)
qed

lemma serial_check_framing_ends: "\<exists>t. serial_check_framing_errors ok s = Inr t"
  using serial_try_to_connect_ends by (simp add: serial_check_framing_errors_def advance_autobaud_next)

text \<open>The state after \<open>n\<close> changes of the rate that found nothing.\<close>

definition searching :: "nat \<Rightarrow> serial_input \<Rightarrow> bool" where
  "searching n s \<longleftrightarrow> autobauding s \<and> port_open s \<and> autobaud_timer s \<and>
     autobaud_rates s = autobaud_standard_rates \<and> autobaud_rate s = n mod 2 \<and>
     baud_rate s = autobaud_standard_rates ! (n mod 2) \<and>
     autobaud_interval s = min autobaud_max_interval (autobaud_base_interval * 2 ^ (n div 2))"

lemma searching_step:
  assumes "searching n s"
  shows "\<exists>t. serial_autobaud_expired True s = Inr t \<and> searching (Suc n) t"
proof -
  let ?s = "s\<lparr>autobaud_timer := False\<rparr>"
  obtain t where t: "serial_try_to_connect True (next_rate ?s) = Inr t"
    using serial_try_to_connect_ends by blast
  have "serial_autobaud_expired True s = Inr t"
    using assms t by (simp add: serial_autobaud_expired_def advance_autobaud_next searching_def)
  moreover have "searching (Suc n) t"
  proof (cases "even n")
    case True
    then have n: "n mod 2 = 0" "Suc n mod 2 = 1" "Suc n div 2 = n div 2" by presburger+
    show ?thesis
      using assms serial_connect_members [OF t]
      by (simp add: searching_def n next_rate_def autobaud_standard_rates_def Let_def)
  next
    case False
    then have n: "n mod 2 = 1" "Suc n mod 2 = 0" "Suc n div 2 = Suc (n div 2)" by presburger+
    have "min autobaud_max_interval (min autobaud_max_interval (autobaud_base_interval * 2 ^ (n div 2)) * 2) =
        min autobaud_max_interval (autobaud_base_interval * 2 ^ Suc (n div 2))"
      by (simp add: min_def)
    then show ?thesis
      using assms serial_connect_members [OF t]
      by (simp add: searching_def n next_rate_def autobaud_standard_rates_def Let_def)
  qed
  ultimately show ?thesis by blast
qed

text \<open>A complete frame while searching is counted, and the fourth ends the search.\<close>

definition frame_bytes :: "message_type \<times> u64 \<times> byte \<times> bytebuf \<Rightarrow> bytebuf" where
  "frame_bytes = (\<lambda>(type, ts, sig, d). beast_frame type ts sig d)"

definition data_frame :: "message_type \<times> u64 \<times> byte \<times> bytebuf \<Rightarrow> bool" where
  "data_frame = (\<lambda>(type, ts, sig, d).
     type \<in> {MODE_AC, MODE_S_SHORT, MODE_S_LONG} \<and> length d = message_size type)"

definition between_frames :: "nat \<Rightarrow> serial_input \<Rightarrow> bool" where
  "between_frames n s \<longleftrightarrow> parser s = READ_1A \<and> has_message_notifier s \<and> autobauding s \<and>
     receiver_type s \<noteq> UNKNOWN_RECEIVER \<and> unat (good_messages_count s) = n"

lemma unat_Suc: "unat x = n \<Longrightarrow> n < 4 \<Longrightarrow> unat (x + 1) = Suc n" for x :: u32
  by (subst unat_add_lem [THEN iffD1]) simp_all

lemma serial_frame_counted:
  assumes "between_frames n s" and "n < 3" and "data_frame fr"
  shows "\<exists>u. efold (byte_step serial_virtuals) s (frame_bytes fr) = Inr u \<and> between_frames (Suc n) u \<and>
    calls u = calls s \<and> receiving_gps_timestamps u = receiving_gps_timestamps s \<and>
    baud_rate u = baud_rate s"
proof -
  obtain type ts sig d where fr: "fr = (type, ts, sig, d)" by (cases fr)
  let ?f = "framed type (timestamp_bytes ts @ [sig]) d s"
  let ?g = "serial_saw_good_message ?f"
  have c: "unat (good_messages_count s + 1) = Suc n" using assms by (simp add: between_frames_def unat_Suc)
  then have "\<not> autobaud_good_messages \<le> good_messages_count s + 1"
    using assms(2) by (simp add: autobaud_good_messages_def word_le_nat_alt)
  then have g: "?g = base_saw_good_message ?f"
    by (simp add: serial_saw_good_message_def base_saw_good_message_def framed_def Let_def)
  have "\<not> can_dispatch serial_virtuals ?g"
    using assms(1) unfolding g
    by (simp add: serial_virtuals_def serial_can_dispatch_def base_saw_good_message_def framed_def
        between_frames_def)
  then have "efold (byte_step serial_virtuals) s (frame_bytes fr) = Inr (?g\<lparr>parser := READ_1A\<rparr>)"
    using serial.fold_quiet [of s type d ts sig] assms(1,3)
    by (simp add: fr frame_bytes_def data_frame_def between_frames_def serial_virtuals_def)
  then show ?thesis
    using assms(1) c unfolding g
    by (simp add: between_frames_def base_saw_good_message_def framed_def)
qed

lemma serial_frame_locks:
  assumes "between_frames 3 s" and "data_frame (type, ts, sig, d)"
  shows "\<exists>m u. efold (byte_step serial_virtuals) s (frame_bytes (type, ts, sig, d)) = Inr u \<and>
    make_message type (if receiving_gps_timestamps s then GPS else TWELVEMEG) (take_bit 48 ts) sig d = Inr m \<and>
    calls u = calls s @ [Notify m] \<and> \<not> autobauding u \<and> \<not> autobaud_timer u \<and>
    baud_rate u = baud_rate s \<and> is_connected u"
proof -
  let ?f = "framed type (timestamp_bytes ts @ [sig]) d s"
  let ?g = "serial_saw_good_message ?f"
  have "unat (good_messages_count s + 1) = 4" using assms by (simp add: between_frames_def unat_Suc)
  then have "autobaud_good_messages \<le> good_messages_count s + 1"
    by (simp add: autobaud_good_messages_def word_le_nat_alt)
  then have g: "\<not> autobauding ?g" "\<not> autobaud_timer ?g" "baud_rate ?g = baud_rate s"
    "receiver_type ?g = receiver_type s"
    using assms(1)
    by (simp_all add: serial_saw_good_message_def base_saw_good_message_def framed_def between_frames_def Let_def)
  have "can_dispatch serial_virtuals (saw_good_message serial_virtuals ?f)"
    using assms(1) g by (simp add: serial_virtuals_def serial_can_dispatch_def base_can_dispatch_def between_frames_def)
  from serial.fold_delivers [OF _ _ _ _ this] assms obtain m u where
    "make_message type (if receiving_gps_timestamps s then GPS else TWELVEMEG) (take_bit 48 ts) sig d = Inr m"
    "efold (byte_step serial_virtuals) s (beast_frame type ts sig d) = Inr u"
    "calls u = calls s @ [Notify m]" "is_connected u"
    and more: "beast_input.more u = beast_input.more ?g"
    by (auto simp: between_frames_def data_frame_def serial_virtuals_def)
  then show ?thesis
    using g serial_more [OF more] by (intro exI [of _ m] exI [of _ u]) (simp add: frame_bytes_def)
qed

text \<open>Reads fail only by the assertion of a message's constructor, the other handlers never.\<close>

lemma serial_read_fails:
  assumes "serial_ok baud fixed s" and failed: "serial_read_handler ok r s = Inl e"
  shows "e = Assertion_failed \<and> (\<exists>b. r = Received b \<and> (position_pending s \<or> 0x35 \<in> set b))"
proof -
  let ?s = "s\<lparr>reads := reads s - 1\<rparr>"
  obtain b where r: "r = Received b" using failed by (cases r) (auto simp: serial_read_handler_def Let_def)
  note c = serial_check_framing_ends [of ok]
  have "parse_input serial_virtuals b ?s = Inl e"
  proof (cases "parse_input serial_virtuals b ?s")
    case (Inl e')
    then show ?thesis using failed r by (simp add: serial_read_handler_def Let_def)
  next
    case (Inr u)
    then show ?thesis using failed r c [of u] by (auto simp: serial_read_handler_def Let_def)
  qed
  moreover have "parser_ok ?s" "position_pending ?s = position_pending s"
    using assms by (simp_all add: serial_ok_def parser_ok_def position_pending_def)
  ultimately have "e = Assertion_failed" "position_pending s \<or> 0x35 \<in> set b"
    using serial.parse_input_sound [of ?s b] by simp_all
  then show ?thesis using r by blast
qed

lemma serial_handlers_end:
  "\<exists>t. serial_autobaud_expired ok s = Inr t" "\<exists>t. serial_reconnect_expired ok s = Inr t"
  "\<exists>t. autodetect_expired serial_virtuals s = Inr t"
  using serial_try_to_connect_ends serial.autodetect_ends
  by (simp_all add: serial_autobaud_expired_def serial_reconnect_expired_def advance_autobaud_next)

lemma serial_fails_only:
  assumes "serial_fails s e" and "serial_ok baud fixed s"
  shows "e = Assertion_failed \<and> (\<exists>ok b. serial_read_handler ok (Received b) s = Inl e \<and>
    length b \<le> read_buffer_size \<and> (position_pending s \<or> 0x35 \<in> set b))"
  using assms(1)
proof cases
  case (read r ok)
  from serial_read_fails [OF assms(2) read(3)] read(2,3) show ?thesis by auto
qed (use serial_handlers_end in \<open>metis sum.distinct(1)\<close>)+

subsection \<open>Properties\<close>

text \<open>A serial input at a fixed rate, connected to a Mode-S Beast, for the witnesses.\<close>

definition sample_serial :: serial_input where
  "sample_serial = (new_serial_input 3000000 (default_settings\<lparr>radarcape := OFF\<rparr>) default_filter)
     \<lparr>has_message_notifier := True, receiver_type := BEAST, parser := READ_1A, port_open := True,
      reads := 1\<rparr>"

lemma sample_serial_members:
  "has_message_notifier sample_serial" "receiver_type sample_serial = BEAST"
  "parser sample_serial = READ_1A" "port_open sample_serial" "reads sample_serial = 1"
  "read_waits sample_serial = 0" "\<not> autobauding sample_serial" "good_messages_count sample_serial = 0"
  "calls sample_serial = []" "\<not> receiving_gps_timestamps sample_serial" "autobaud_rates sample_serial = []"
  by (simp_all add: sample_serial_def new_serial_input_def new_beast_input_def beast_input.defs
      serial_input.defs)

text \<open>
  C4: parsing a buffer, with the source's look-ahead over the bytes of the buffer, does what
  reading it one byte at a time does, up to the count of bad bytes; hence it does not matter
  how the stream is cut into buffers.
\<close>

theorem serial_parse_bytewise:
  assumes "parser_ok s"
  shows "map_sum id (bad_bytes_count_update (\<lambda>_. 0)) (parse_input serial_virtuals p s) =
      map_sum id (bad_bytes_count_update (\<lambda>_. 0)) (efold (byte_step serial_virtuals) s p) \<and>
    map_sum id (bad_bytes_count_update (\<lambda>_. 0)) (parse_input serial_virtuals (p @ q) s) =
      map_sum id (bad_bytes_count_update (\<lambda>_. 0))
        (ebind (parse_input serial_virtuals p s) (parse_input serial_virtuals q))"
  using serial.parse_input_fold [OF assms, of p] serial.parse_input_chunks [OF assms, of p q] by simp

theorem serial_parse_bytewise_witness:
  "map_sum id (bad_bytes_count_update (\<lambda>_. 0)) (parse_input serial_virtuals [0x1A, 0x31, 7] sample_serial) =
    map_sum id (bad_bytes_count_update (\<lambda>_. 0))
      (efold (byte_step serial_virtuals) sample_serial [0x1A, 0x31, 7])"
  by (rule serial_parse_bytewise [THEN conjunct1]) (simp add: parser_ok_def sample_serial_members)

text \<open>
  C10: in every state the serial input can reach, the autobaud state is consistent (a fixed rate
  is never changed, otherwise the rate is the one the iterator points to and the interval one of
  1, 2, 4, 8 and 16 seconds), while searching the timer that ends the interval runs, the port
  is open or a reconnection is pending, an open port has been sent the settings now wanted,
  the parser's state is consistent, and there are at most two reads or waits for a read;
  and every message it has handed to its listener is well formed, its type is known and not a
  position, its cached properties are those of its data, and its timestamp has 48 bits.
\<close>

theorem serial_invariant:
  assumes "serial_reachable baud fixed s"
  shows "serial_ok baud fixed s \<and> (\<forall>m. Notify m \<in> set (calls s) \<longrightarrow>
    wf_message m \<and> caches_ok m \<and> m_type m \<in> {MODE_AC, MODE_S_SHORT, MODE_S_LONG, STATUS} \<and>
    unat (m_timestamp m) < 2 ^ 48)"
proof -
  have "m_type m \<in> {MODE_AC, MODE_S_SHORT, MODE_S_LONG, STATUS}" if "sound_message m" for m
    using that by (cases "m_type m") (simp_all add: sound_message_def)
  then show ?thesis using serial_reachable_ok [OF assms] by (simp add: sound_message_def)
qed

theorem serial_invariant_witness:
  "\<exists>s. serial_start True (new_serial_input 0 default_settings default_filter) = Inr s \<and>
    port_open s \<and> serial_ok 0 default_settings s"
proof -
  obtain s where s: "serial_start True (new_serial_input 0 default_settings default_filter) = Inr s"
    using serial_try_to_connect_ends unfolding serial_start_def by blast
  moreover have "(new_serial_input 0 default_settings default_filter)\<lparr>has_message_notifier := False\<rparr> =
      new_serial_input 0 default_settings default_filter"
    by (simp add: new_serial_input_def new_beast_input_def beast_input.defs serial_input.defs)
  ultimately have "serial_reachable 0 default_settings s" using serial_reachable.start by metis
  moreover have "port_open s" using serial_connect_members(6) s by (simp add: serial_start_def)
  ultimately show ?thesis using s serial_invariant [THEN conjunct1] by blast
qed

text \<open>
  C24: a read can only fail by the assertion in the constructor of a message, and only when
  the buffer completes or starts a position message; every other handler succeeds.
\<close>

theorem serial_failures:
  assumes "serial_ok baud fixed s"
  shows "(\<forall>e. serial_read_handler ok r s = Inl e \<longrightarrow>
      e = Assertion_failed \<and> (\<exists>b. r = Received b \<and> (position_pending s \<or> 0x35 \<in> set b))) \<and>
    (\<exists>t. serial_autobaud_expired ok s = Inr t) \<and> (\<exists>t. serial_reconnect_expired ok s = Inr t) \<and>
    (\<exists>t. autodetect_expired serial_virtuals s = Inr t) \<and> (\<exists>t. set_filter serial_virtuals f s = Inr t)"
proof (intro conjI allI impI)
  show "\<exists>t. set_filter serial_virtuals f s = Inr t" by (rule serial.set_filter_ends)
qed (use serial_read_fails [OF assms] serial_handlers_end in blast)+

text \<open>
  C35: a position frame that arrives in sync, while messages are passed on, fails the
  assertion and so ends the program: \<open>dispatch_message\<close> prepends the metadata to the
  fourteen bytes the constructor expects.
\<close>

theorem serial_position_aborts:
  assumes "parser s = READ_1A" and "length ms = 7" and "length d = 14" and "has_message_notifier s"
    and "\<not> autobauding s" and "receiver_type s \<noteq> UNKNOWN_RECEIVER"
  shows "parse_input serial_virtuals ([0x1A, 0x35] @ escape_1A (ms @ d)) s = Inl Assertion_failed"
proof (rule serial.parse_input_failure [OF _ serial.fold_position [OF assms(1-4)]])
  show "parser_ok s" using assms(1) by (simp add: parser_ok_def)
  show "can_dispatch serial_virtuals (saw_good_message serial_virtuals (framed POSITION ms d s))"
    using assms(5,6)
    by (simp add: serial_virtuals_def serial_can_dispatch_def serial_saw_good_message_def
        base_can_dispatch_def base_saw_good_message_def framed_def)
qed

theorem serial_position_aborts_witness:
  "parse_input serial_virtuals ([0x1A, 0x35] @ escape_1A (replicate 7 1 @ replicate 14 2)) sample_serial =
    Inl Assertion_failed"
  by (rule serial_position_aborts) (simp_all add: sample_serial_members)

theorem serial_failures_witness:
  "\<exists>e. serial_read_handler True (Received ([0x1A, 0x35] @ escape_1A (replicate 7 1 @ replicate 14 2)))
      (sample_serial\<lparr>current_settings := wanted_settings serial_virtuals sample_serial\<rparr>) = Inl e \<and>
    e = Assertion_failed"
proof -
  let ?s = "sample_serial\<lparr>current_settings := wanted_settings serial_virtuals sample_serial\<rparr>"
  let ?b = "[0x1A, 0x35] @ escape_1A (replicate 7 1 @ replicate 14 2)"
  have "serial_ok 3000000 (fixed_settings ?s) ?s"
    by (simp add: serial_ok_def baud_ok_def parser_ok_def up_to_date_def settings_eq_def
        sample_serial_members wanted_settings_def)
       (simp add: sample_serial_def new_serial_input_def new_beast_input_def beast_input.defs
        serial_input.defs autobaud_base_interval_def)
  moreover have "parse_input serial_virtuals ?b (?s\<lparr>reads := reads ?s - 1\<rparr>) = Inl Assertion_failed"
    by (rule serial.parse_input_failure [OF _ serial.fold_position])
       (simp_all add: sample_serial_members parser_ok_def serial_virtuals_def serial_can_dispatch_def
        serial_saw_good_message_def base_can_dispatch_def base_saw_good_message_def framed_def)
  then have e: "serial_read_handler True (Received ?b) ?s = Inl Assertion_failed"
    by (simp add: serial_read_handler_def Let_def)
  ultimately have "Assertion_failed = Assertion_failed \<and>
      (\<exists>b. Received ?b = Received b \<and> (position_pending ?s \<or> 0x35 \<in> set b))"
    using serial_failures by blast
  then show ?thesis using e by blast
qed

text \<open>
  C29: while no rate gives messages, each expiry of the autobaud timer moves to the next rate
  of the list, around and around, the interval doubles after each round up to sixteen seconds,
  and the port stays open with the timer running.
\<close>

theorem serial_autobaud_sweep:
  "\<exists>t. ebind (serial_start True (new_serial_input 0 fixed f))
      (\<lambda>s. efold (\<lambda>s ok. serial_autobaud_expired ok s) s (replicate n True)) = Inr t \<and>
    autobauding t \<and> port_open t \<and> autobaud_timer t \<and>
    baud_rate t = [3000000, 1000000] ! (n mod 2) \<and>
    autobaud_interval t = min 16000 (1000 * 2 ^ (n div 2))"
proof -
  have sweep: "\<exists>t. efold (\<lambda>s ok. serial_autobaud_expired ok s) s (replicate n True) = Inr t \<and>
      searching (k + n) t" if "searching k s" for k s
    using that
  proof (induction n arbitrary: k s)
    case (Suc n)
    then show ?case using searching_step [OF Suc.prems] by fastforce
  qed simp
  obtain s where s: "serial_try_to_connect True (new_serial_input 0 fixed f) = Inr s"
    using serial_try_to_connect_ends by blast
  have "searching 0 s"
    using serial_connect_members [OF s]
    by (simp add: searching_def new_serial_input_def beast_input.defs serial_input.defs
        autobaud_standard_rates_def autobaud_base_interval_def autobaud_max_interval_def new_beast_input_def)
  from sweep [OF this] s show ?thesis
    by (auto simp: serial_start_def searching_def autobaud_standard_rates_def
        autobaud_base_interval_def autobaud_max_interval_def)
qed

text \<open>
  C18: the rate is kept as soon as four complete frames have arrived at it in sync: the search
  ends, its timer is cancelled, the rate stays, and the listener gets the fourth message but
  none of the first three.
\<close>

theorem serial_autobaud_locks:
  assumes "between_frames 0 s" and "data_frame f1" and "data_frame f2" and "data_frame f3"
    and "data_frame (type, ts, sig, d)"
  shows "\<exists>t m. parse_input serial_virtuals
      (frame_bytes f1 @ frame_bytes f2 @ frame_bytes f3 @ frame_bytes (type, ts, sig, d)) s = Inr t \<and>
    make_message type (if receiving_gps_timestamps s then GPS else TWELVEMEG) (take_bit 48 ts) sig d = Inr m \<and>
    calls t = calls s @ [Notify m] \<and> is_connected t \<and>
    \<not> autobauding t \<and> \<not> autobaud_timer t \<and> baud_rate t = baud_rate s"
proof -
  let ?f = "\<lambda>s fr. efold (byte_step serial_virtuals) s (frame_bytes fr)"
  obtain a where a: "?f s f1 = Inr a" "between_frames 1 a" "calls a = calls s"
      "receiving_gps_timestamps a = receiving_gps_timestamps s" "baud_rate a = baud_rate s"
    using serial_frame_counted [OF assms(1) _ assms(2)] by auto
  obtain b where b: "?f a f2 = Inr b" "between_frames 2 b" "calls b = calls s"
      "receiving_gps_timestamps b = receiving_gps_timestamps s" "baud_rate b = baud_rate s"
    using serial_frame_counted [OF a(2) _ assms(3)] a by (auto simp: numeral_2_eq_2)
  obtain c where c: "?f b f3 = Inr c" "between_frames 3 c" "calls c = calls s"
      "receiving_gps_timestamps c = receiving_gps_timestamps s" "baud_rate c = baud_rate s"
    using serial_frame_counted [OF b(2) _ assms(4)] b by (auto simp: numeral_3_eq_3 numeral_2_eq_2)
  obtain m u where u: "?f c (type, ts, sig, d) = Inr u"
      "make_message type (if receiving_gps_timestamps s then GPS else TWELVEMEG) (take_bit 48 ts) sig d = Inr m"
      "calls u = calls s @ [Notify m]" "is_connected u"
    and rates: "\<not> autobauding u" "\<not> autobaud_timer u" "baud_rate u = baud_rate s"
    using serial_frame_locks [OF c(2) assms(5)] c by auto
  have e: "efold (byte_step serial_virtuals) s
      (frame_bytes f1 @ frame_bytes f2 @ frame_bytes f3 @ frame_bytes (type, ts, sig, d)) = Inr u"
    by (simp add: efold_append a(1) b(1) c(1) u(1))
  have "parser_ok s" using assms(1) by (simp add: between_frames_def parser_ok_def)
  then obtain t where t: "parse_input serial_virtuals
      (frame_bytes f1 @ frame_bytes f2 @ frame_bytes f3 @ frame_bytes (type, ts, sig, d)) s = Inr t"
    "calls t = calls u" "is_connected t = is_connected u" "beast_input.more t = beast_input.more u"
    using e by (rule serial.parse_input_delivers)
  have "calls t = calls s @ [Notify m]" "is_connected t"
    "\<not> autobauding t \<and> \<not> autobaud_timer t \<and> baud_rate t = baud_rate s"
    using t(2,3) u(3,4) rates serial_more(1,4,6) [OF t(4)] by simp_all
  then show ?thesis using t(1) u(2) by blast
qed

theorem serial_autobaud_locks_witness:
  "\<exists>t m. parse_input serial_virtuals
      (concat (replicate 4 (beast_frame MODE_AC 5 9 [0x12, 0x34])))
      (sample_serial\<lparr>autobauding := True\<rparr>) = Inr t \<and>
    make_message MODE_AC TWELVEMEG 5 9 [0x12, 0x34] = Inr m \<and> calls t = [Notify m] \<and> \<not> autobauding t"
proof -
  let ?fr = "(MODE_AC, 5 :: u64, 9 :: byte, [0x12, 0x34 :: byte])"
  let ?s = "sample_serial\<lparr>autobauding := True\<rparr>"
  have fr: "data_frame ?fr" by (simp add: data_frame_def)
  have "between_frames 0 ?s" by (simp add: between_frames_def sample_serial_members)
  note w = serial_autobaud_locks [OF this fr fr fr fr]
  have "concat (replicate 4 (beast_frame MODE_AC 5 9 [0x12, 0x34])) =
      frame_bytes ?fr @ frame_bytes ?fr @ frame_bytes ?fr @ frame_bytes ?fr"
    by (simp add: frame_bytes_def numeral_eq_Suc)
  moreover have "take_bit 48 (5 :: u64) = 5" by (simp add: take_bit_eq_mod word_eq_iff_unsigned)
  ultimately show ?thesis using w by (auto simp: sample_serial_members)
qed

text \<open>
  C38: a read that leaves the input out of sync after more than a thousand bad bytes restarts
  the search for the rate, and then two reads are under way on the port, the one
  \<open>try_to_connect\<close> starts and the handler's own; otherwise there is one.
\<close>

theorem serial_restart_reads_twice:
  assumes "parser_ok s" and "port_open s" and "reads s = 1" and "read_waits s = 0"
    and "parse_input serial_virtuals b (s\<lparr>reads := 0\<rparr>) = Inr u"
    and "serial_read_handler True (Received b) s = Inr t"
  shows "reads t + read_waits t =
    (if \<not> autobauding u \<and> \<not> good_sync u \<and> 1000 < bad_bytes_count u \<and> autobaud_rates u \<noteq> []
     then 2 else 1)"
proof -
  let ?P = "\<lambda>s. reads s = 0 \<and> read_waits s = 0 \<and> port_open s"
  have "own_invariant serial_virtuals ?P"
    by (auto simp: own_invariant_def serial_virtuals_def serial_saw_good_message_def
        base_saw_good_message_def serial_low_level_write_def Let_def dest: serial_more)
  from serial.own_parse_input [OF this _ _ assms(5)]
  have u: "reads u = 0" "read_waits u = 0" "port_open u"
    using assms(1-4) by (simp_all add: parser_ok_def)
  obtain w where w: "serial_check_framing_errors True u = Inr w"
    and t: "t = (if length b < read_buffer_size * 3 div 4 then w\<lparr>read_waits := read_waits w + 1\<rparr>
        else serial_start_reading w)"
    using assms(3,5,6) by (auto simp: serial_read_handler_def Let_def ebind_Inr_iff)
  define k :: nat where "k = (if \<not> autobauding u \<and> \<not> good_sync u \<and> 1000 < bad_bytes_count u \<and>
      autobaud_rates u \<noteq> [] then 1 else 0)"
  have "reads w = k \<and> read_waits w = 0"
  proof (cases "\<not> autobauding u \<and> \<not> good_sync u \<and> 1000 < bad_bytes_count u \<and> autobaud_rates u \<noteq> []")
    case True
    then have "serial_try_to_connect True (next_rate (u\<lparr>autobauding := True\<rparr>)) = Inr w"
      using w by (simp add: serial_check_framing_errors_def advance_autobaud_next autobaud_restart_bytes_def)
    from serial_connect_members(8,9) [OF this] show ?thesis
      using True u by (simp add: next_rate_members k_def)
  next
    case False
    then have "w = u \<or> w = u\<lparr>warned_about_rate := True\<rparr>"
      using w by (auto simp: serial_check_framing_errors_def autobaud_restart_bytes_def split: if_splits)
    then show ?thesis unfolding k_def if_not_P [OF False] using u by auto
  qed
  then have "reads t + read_waits t = k + 1" by (simp add: t serial_start_reading_def)
  then show ?thesis by (simp add: k_def)
qed

theorem serial_restart_reads_twice_witness:
  "\<exists>t. serial_read_handler True (Received [0, 0])
      (sample_serial\<lparr>parser := RESYNC, bad_bytes_count := 1000, autobaud_rates := [3000000, 1000000]\<rparr>) = Inr t \<and>
    reads t + read_waits t = 2"
proof -
  let ?s = "sample_serial\<lparr>parser := RESYNC, bad_bytes_count := 1000, autobaud_rates := [3000000, 1000000]\<rparr>"
  let ?u = "?s\<lparr>reads := 0, parser := READ_1A, bad_bytes_count := 1002\<rparr>"
  have gs: "\<not> good_sync sample_serial"
    by (simp add: sample_serial_def new_serial_input_def new_beast_input_def beast_input.defs serial_input.defs)
  have p: "parse_input serial_virtuals [0, 0] (?s\<lparr>reads := 0\<rparr>) = Inr ?u"
    by (simp add: parse_input_def parse_loop.simps [of _ _ "_ # _"] parse_loop.simps [of _ _ "[]"] parse_round_def gs)
  obtain w where "serial_check_framing_errors True ?u = Inr w" using serial_check_framing_ends by blast
  then obtain t where t: "serial_read_handler True (Received [0, 0]) ?s = Inr t"
    using p by (simp add: serial_read_handler_def Let_def sample_serial_members)
  have "reads t + read_waits t = (if \<not> autobauding ?u \<and> \<not> good_sync ?u \<and> 1000 < bad_bytes_count ?u \<and>
      autobaud_rates ?u \<noteq> [] then 2 else 1)"
    by (rule serial_restart_reads_twice [OF _ _ _ _ p t]) (simp_all add: sample_serial_members parser_ok_def gs)
  then show ?thesis using t gs by (simp add: sample_serial_members)
qed

end
