(* ===== verification/NetInput.thy ===== *)
theory NetInput
  imports BeastInput
begin

section \<open>The network receiver (beast_input_net.h, beast_input_net.cc)\<close>

text \<open>
  \<open>NetInput\<close> resolves a host name, tries the addresses it gets in turn and reads from the one
  that accepts. What the resolver, the connection attempts and the reads answer are arguments
  of the handlers. Closing the socket ends the operations pending on it, whose handlers then
  do nothing.
\<close>

subsection \<open>State\<close>

text \<open>
  \<open>next_endpoint\<close> is the iterator, as the list of the endpoints from it on. \<open>resolving\<close> counts
  the resolver's pending queries, \<open>connecting\<close> lists the endpoints of the pending connection
  attempts and \<open>net_reads\<close> counts the pending reads. \<open>reconnect_timer\<close> is the one of the base
  class: the one \<open>NetInput\<close> declares is never used, and the cached buffer has no effect.
\<close>

record net_input = beast_input +
  sock_open :: bool
  next_endpoint :: "string list"
  resolving :: nat
  connecting :: "string list"
  net_reads :: nat
  warned_about_framing :: bool

definition net_read_buffer_size :: nat where
  "net_read_buffer_size = 4096"

definition new_net_input :: "settings \<Rightarrow> filter \<Rightarrow> net_input" where
  "new_net_input fixed f =
     beast_input.extend (new_beast_input fixed f) (net_input.fields False [] 0 [] 0 False)"

subsection \<open>The virtual functions\<close>

definition net_low_level_write :: "bytebuf \<Rightarrow> net_input \<Rightarrow> bool \<times> net_input" where
  "net_low_level_write message s =
     (if \<not> sock_open s then (False, s)
      else (True, s\<lparr>calls := calls s @ [Write_out message]\<rparr>))"

definition net_virtuals :: "net_input virtuals" where
  "net_virtuals =
     \<lparr>saw_good_message = base_saw_good_message, can_dispatch = base_can_dispatch,
      low_level_write = net_low_level_write, apply_connection_settings = id\<rparr>"

lemma net_more:
  fixes s t :: net_input
  assumes "beast_input.more s = beast_input.more t"
  shows "sock_open s = sock_open t" "next_endpoint s = next_endpoint t" "resolving s = resolving t"
    "connecting s = connecting t" "net_reads s = net_reads t"
    "warned_about_framing s = warned_about_framing t"
  using assms by (cases s; cases t; simp)+

interpretation net: input_virtuals net_virtuals
  by unfold_locales
     (auto simp: net_virtuals_def net_low_level_write_def base_saw_good_message_def
       base_can_dispatch_def beast_input.defs Let_def dest: net_more)

subsection \<open>The handlers\<close>

definition net_close_socket :: "net_input \<Rightarrow> net_input" where
  "net_close_socket s = s\<lparr>sock_open := False, connecting := [], net_reads := 0\<rparr>"

definition net_disconnect :: "net_input \<Rightarrow> net_input" where
  "net_disconnect s = (if sock_open s then net_close_socket s else s)"

text \<open>An error other than \<open>operation_aborted\<close>.\<close>

definition net_handle_error :: "net_input \<Rightarrow> net_input" where
  "net_handle_error s =
     (let s = connection_failed s in if sock_open s then net_close_socket s else s)"

definition net_check_framing_errors :: "net_input \<Rightarrow> net_input" where
  "net_check_framing_errors s =
     (if \<not> good_sync s \<and> 20 < bad_bytes_count s then s\<lparr>warned_about_framing := True\<rparr> else s)"

definition net_start_reading :: "net_input \<Rightarrow> net_input" where
  "net_start_reading s = s\<lparr>net_reads := net_reads s + 1\<rparr>"

datatype read_outcome = Read_aborted | Read_failed | Read_data bytebuf

definition net_read_handler :: "read_outcome \<Rightarrow> net_input \<Rightarrow> failure + net_input" where
  "net_read_handler r s =
     (let s = s\<lparr>net_reads := net_reads s - 1\<rparr> in
      case r of
        Read_aborted \<Rightarrow> Inr s
      | Read_failed \<Rightarrow> Inr (net_handle_error s)
      | Read_data buf \<Rightarrow>
          ebind (parse_input net_virtuals buf s) (\<lambda>s.
            Inr (net_start_reading (net_check_framing_errors s))))"

definition net_connection_established :: "net_input \<Rightarrow> failure + net_input" where
  "net_connection_established s =
     ebind (connection_established net_virtuals s) (\<lambda>s.
       Inr (net_start_reading (s\<lparr>warned_about_framing := False\<rparr>)))"

text \<open>\<open>async_connect\<close> opens the socket at once and connects it later.\<close>

definition try_next_endpoint :: "net_input \<Rightarrow> net_input" where
  "try_next_endpoint s =
     (case next_endpoint s of
        [] \<Rightarrow> connection_failed s
      | endpoint # rest \<Rightarrow>
          s\<lparr>next_endpoint := rest, sock_open := True, connecting := connecting s @ [endpoint]\<rparr>)"

datatype connect_result = Connected | Connect_aborted | Connect_failed

definition net_connect_handler :: "string \<Rightarrow> connect_result \<Rightarrow> net_input \<Rightarrow> failure + net_input" where
  "net_connect_handler endpoint r s =
     (let s = s\<lparr>connecting := remove1 endpoint (connecting s)\<rparr> in
      case r of
        Connected \<Rightarrow> net_connection_established s
      | Connect_aborted \<Rightarrow> Inr s
      | Connect_failed \<Rightarrow> Inr (try_next_endpoint (net_close_socket s)))"

definition net_try_to_connect :: "net_input \<Rightarrow> net_input" where
  "net_try_to_connect s = s\<lparr>resolving := resolving s + 1\<rparr>"

datatype resolve_result = Resolved "string list" | Resolve_aborted | Resolve_failed

definition net_resolve_handler :: "resolve_result \<Rightarrow> net_input \<Rightarrow> net_input" where
  "net_resolve_handler r s =
     (let s = s\<lparr>resolving := resolving s - 1\<rparr> in
      case r of
        Resolved it \<Rightarrow> try_next_endpoint (s\<lparr>next_endpoint := it\<rparr>)
      | Resolve_aborted \<Rightarrow> s
      | Resolve_failed \<Rightarrow> connection_failed s)"

definition net_reconnect_expired :: "net_input \<Rightarrow> net_input" where
  "net_reconnect_expired s = net_try_to_connect (s\<lparr>reconnect_timer := False\<rparr>)"

definition net_liveness_expired :: "net_input \<Rightarrow> net_input" where
  "net_liveness_expired s = connection_failed (net_disconnect (s\<lparr>liveness_timer := False\<rparr>))"

definition net_start :: "net_input \<Rightarrow> net_input" where
  "net_start s = net_try_to_connect s"

definition net_close :: "net_input \<Rightarrow> net_input" where
  "net_close s = net_disconnect (s\<lparr>good_sync := False\<rparr>)"

subsection \<open>Everything that can happen to it\<close>

text \<open>
  A handler runs only for an operation that is pending; the operations of a closed socket are
  not, so their handlers are not called with \<open>operation_aborted\<close> here.
\<close>

inductive net_handler :: "net_input \<Rightarrow> net_input \<Rightarrow> bool" where
  resolve: "0 < resolving s \<Longrightarrow> r \<noteq> Resolve_aborted \<Longrightarrow> net_handler s (net_resolve_handler r s)"
| connect: "endpoint \<in> set (connecting s) \<Longrightarrow> r \<noteq> Connect_aborted \<Longrightarrow>
    net_connect_handler endpoint r s = Inr t \<Longrightarrow> net_handler s t"
| read: "0 < net_reads s \<Longrightarrow> r \<noteq> Read_aborted \<Longrightarrow>
    (\<And>b. r = Read_data b \<Longrightarrow> length b \<le> net_read_buffer_size) \<Longrightarrow>
    net_read_handler r s = Inr t \<Longrightarrow> net_handler s t"
| reconnect: "reconnect_timer s \<Longrightarrow> net_handler s (net_reconnect_expired s)"
| liveness: "liveness_timer s \<Longrightarrow> net_handler s (net_liveness_expired s)"
| autodetect: "autodetect_timer s \<Longrightarrow> autodetect_expired net_virtuals s = Inr t \<Longrightarrow> net_handler s t"
| write_failed: "sock_open s \<Longrightarrow> net_handler s (net_handle_error s)"

inductive net_fails :: "net_input \<Rightarrow> failure \<Rightarrow> bool" where
  connect: "endpoint \<in> set (connecting s) \<Longrightarrow> net_connect_handler endpoint r s = Inl e \<Longrightarrow> net_fails s e"
| read: "0 < net_reads s \<Longrightarrow> (\<And>b. r = Read_data b \<Longrightarrow> length b \<le> net_read_buffer_size) \<Longrightarrow>
    net_read_handler r s = Inl e \<Longrightarrow> net_fails s e"
| autodetect: "autodetect_timer s \<Longrightarrow> autodetect_expired net_virtuals s = Inl e \<Longrightarrow> net_fails s e"

inductive net_step :: "net_input \<Rightarrow> net_input \<Rightarrow> bool" where
  handler: "net_handler s t \<Longrightarrow> net_step s t"
| filter_set: "set_filter net_virtuals f s = Inr t \<Longrightarrow> net_step s t"
| notifier: "net_step s (set_message_notifier s)"

inductive net_reachable :: "settings \<Rightarrow> net_input \<Rightarrow> bool" for fixed where
  start: "net_reachable fixed (net_start ((new_net_input fixed f)\<lparr>has_message_notifier := n\<rparr>))"
| step: "net_reachable fixed s \<Longrightarrow> net_step s t \<Longrightarrow> net_reachable fixed t"

text \<open>
  The input is never idle: a name is being resolved, a connection attempted, data read or a
  reconnection awaited; operations are pending only on an open socket; a connection that is
  read from has been sent the settings now wanted.
\<close>

definition net_socket_ok :: "net_input \<Rightarrow> bool" where
  "net_socket_ok s \<longleftrightarrow> (\<not> sock_open s \<longrightarrow> connecting s = [] \<and> net_reads s = 0)"

definition net_busy :: "net_input \<Rightarrow> bool" where
  "net_busy s \<longleftrightarrow> 0 < resolving s \<or> connecting s \<noteq> [] \<or> 0 < net_reads s"

definition net_ok :: "settings \<Rightarrow> net_input \<Rightarrow> bool" where
  "net_ok fixed s \<longleftrightarrow> parser_ok s \<and> fixed_settings s = fixed \<and> net_socket_ok s \<and>
     (net_busy s \<or> reconnect_timer s) \<and> (0 < net_reads s \<longrightarrow> up_to_date net_virtuals s)"

lemma net_link: "link_up net_virtuals s \<longleftrightarrow> sock_open s"
  by (simp add: link_up_def net_virtuals_def net_low_level_write_def)

lemma net_own: "own_invariant net_virtuals (\<lambda>s. F (sock_open s) (resolving s) (connecting s) (net_reads s))"
proof -
  have "F (sock_open t) (resolving t) (connecting t) (net_reads t)"
    if "F (sock_open s) (resolving s) (connecting s) (net_reads s)"
      and "beast_input.more s = beast_input.more t" for s t :: net_input
    using that(1) by (simp add: net_more [OF that(2)])
  then show ?thesis
    by (auto simp: own_invariant_def net_virtuals_def base_saw_good_message_def net_low_level_write_def)
qed

lemma net_send_more:
  assumes "send_settings_message net_virtuals s = Inr t"
  shows "beast_input.more t = beast_input.more s"
  using assms
  by (auto simp: send_settings_message_def net_virtuals_def net_low_level_write_def Let_def
      ebind_Inr_iff split: if_splits)

lemma net_established_more:
  assumes "connection_established net_virtuals s = Inr t"
  shows "beast_input.more t = beast_input.more s"
proof -
  obtain u where "send_settings_message net_virtuals u = Inr t"
    "beast_input.more u = beast_input.more s"
    using assms by (rule connection_established_sends)
  then show ?thesis using net_send_more by simp
qed

lemma net_okI:
  assumes "parser_ok s" and "fixed_settings s = fixed" and "net_socket_ok s"
    and "net_busy s \<or> reconnect_timer s" and "0 < net_reads s \<Longrightarrow> up_to_date net_virtuals s"
  shows "net_ok fixed s"
  using assms by (simp add: net_ok_def)

lemma try_next_endpoint_ok:
  assumes "parser_ok s" and "fixed_settings s = fixed" and "net_socket_ok s"
    and "0 < net_reads s \<longrightarrow> up_to_date net_virtuals s"
  shows "net_ok fixed (try_next_endpoint s)"
  using assms
  by (cases "next_endpoint s")
     (auto simp: net_ok_def try_next_endpoint_def connection_failed_def parser_ok_def net_socket_ok_def
       net_busy_def up_to_date_def wanted_settings_def)

lemma net_connect_handler_ok:
  assumes ok: "net_ok fixed s" and c: "endpoint \<in> set (connecting s)" and "r \<noteq> Connect_aborted"
    and "net_connect_handler endpoint r s = Inr t"
  shows "net_ok fixed t \<and> sound_calls s t"
proof (cases r)
  case Connected
  let ?s = "s\<lparr>connecting := remove1 endpoint (connecting s)\<rparr>"
  obtain u where u: "connection_established net_virtuals ?s = Inr u"
    and t: "t = net_start_reading (u\<lparr>warned_about_framing := False\<rparr>)"
    using assms(4) Connected
    by (auto simp: net_connect_handler_def net_connection_established_def Let_def ebind_Inr_iff)
  note e = net.connection_established_result [OF u]
  note m = net_more [OF net_established_more [OF u]]
  have o: "sock_open s" using ok c by (auto simp: net_ok_def net_socket_ok_def)
  then have up: "up_to_date net_virtuals u" using e(6) by (simp add: net_link)
  have "net_ok fixed t"
  proof (rule net_okI)
    show "parser_ok t" using e(1) by (simp add: t net_start_reading_def parser_ok_def)
    show "fixed_settings t = fixed" using e(4) ok by (simp add: t net_start_reading_def net_ok_def)
    show "net_socket_ok t" using m o by (simp add: t net_start_reading_def net_socket_ok_def)
    show "net_busy t \<or> reconnect_timer t" by (simp add: t net_start_reading_def net_busy_def)
    show "up_to_date net_virtuals t"
      using up by (simp add: t net_start_reading_def up_to_date_def wanted_settings_def)
  qed
  moreover have "sound_calls s t"
    using net.connection_established_sound [OF u] by (simp add: t net_start_reading_def sound_calls_def)
  ultimately show ?thesis ..
next
  case Connect_failed
  let ?s = "net_close_socket (s\<lparr>connecting := remove1 endpoint (connecting s)\<rparr>)"
  have t: "t = try_next_endpoint ?s" using assms(4) Connect_failed by (simp add: net_connect_handler_def Let_def)
  have "net_ok fixed t"
    unfolding t
    by (rule try_next_endpoint_ok)
       (use ok in \<open>simp_all add: net_ok_def net_close_socket_def parser_ok_def net_socket_ok_def\<close>)
  moreover have "sound_calls s t"
    by (cases "next_endpoint s")
       (auto simp: t try_next_endpoint_def net_close_socket_def connection_failed_def)
  ultimately show ?thesis ..
qed (use assms in simp)

lemma net_handle_error_ok:
  assumes "parser_ok s" and "fixed_settings s = fixed" and "net_socket_ok s"
  shows "net_ok fixed (net_handle_error s) \<and> sound_calls s (net_handle_error s)"
  using assms
  by (auto simp: net_ok_def net_handle_error_def net_close_socket_def connection_failed_def
      parser_ok_def net_socket_ok_def Let_def)

lemma net_read_handler_ok:
  assumes ok: "net_ok fixed s" and n: "0 < net_reads s" and "r \<noteq> Read_aborted"
    and "net_read_handler r s = Inr t"
  shows "net_ok fixed t \<and> sound_calls s t"
proof -
  let ?s = "s\<lparr>net_reads := net_reads s - 1\<rparr>"
  have f: "parser_ok ?s" "fixed_settings ?s = fixed" "net_socket_ok ?s" "sock_open ?s"
    "up_to_date net_virtuals ?s"
    using ok n by (auto simp: net_ok_def parser_ok_def net_socket_ok_def up_to_date_def wanted_settings_def)
  show ?thesis
  proof (cases r)
    case Read_failed
    then show ?thesis
      using net_handle_error_ok [OF f(1-3)] assms(4) by (simp add: net_read_handler_def Let_def sound_calls_def)
  next
    case (Read_data b)
    obtain u where u: "parse_input net_virtuals b ?s = Inr u"
      and t: "t = net_start_reading (net_check_framing_errors u)"
      using assms(4) Read_data by (auto simp: net_read_handler_def Let_def ebind_Inr_iff)
    have o: "sock_open u"
      by (rule net.own_parse_input [OF net_own [of "\<lambda>up r c n. up"] f(4,1) u])
    have p: "parser_ok u" "fixed_settings u = fixed" "up_to_date net_virtuals u" "sound_calls s u"
      using net.parse_input_ok [OF f(1) u] net.parse_input_config [OF f(1) u] f(2,4,5)
        net.parse_input_up_to_date [OF _ f(5,1) u] net.parse_input_sound [OF f(1), of b] u
      by (simp_all add: config_def net_link sound_calls_def)
    have "net_ok fixed t"
      using p o
      by (auto simp: t net_ok_def net_start_reading_def net_check_framing_errors_def parser_ok_def
          net_socket_ok_def net_busy_def up_to_date_def wanted_settings_def)
    moreover have "sound_calls s t"
      using p(4) by (simp add: t net_start_reading_def net_check_framing_errors_def sound_calls_def)
    ultimately show ?thesis ..
  qed (use assms in simp)
qed

text \<open>Sending the settings while the socket is open keeps it.\<close>

lemma net_ok_keep:
  assumes ok: "net_ok fixed s" and m: "beast_input.more t = beast_input.more s"
    and "parser_ok t = parser_ok s \<and> fixed_settings t = fixed_settings s \<and>
      reconnect_timer t = reconnect_timer s"
    and "sock_open s \<Longrightarrow> 0 < net_reads s \<Longrightarrow> up_to_date net_virtuals t"
  shows "net_ok fixed t"
  using ok assms(3,4) net_more [OF m]
  by (auto simp: net_ok_def net_socket_ok_def net_busy_def)

lemma net_handler_ok:
  assumes "net_handler s t" and ok: "net_ok fixed s"
  shows "net_ok fixed t \<and> sound_calls s t"
  using assms(1)
proof cases
  case (resolve r)
  let ?s = "s\<lparr>resolving := resolving s - 1\<rparr>"
  have f: "parser_ok ?s" "fixed_settings ?s = fixed" "net_socket_ok ?s"
    "0 < net_reads ?s \<longrightarrow> up_to_date net_virtuals ?s"
    using ok by (auto simp: net_ok_def parser_ok_def net_socket_ok_def up_to_date_def wanted_settings_def)
  show ?thesis
  proof (cases r)
    case (Resolved it)
    have "net_ok fixed (try_next_endpoint (?s\<lparr>next_endpoint := it\<rparr>))"
      by (rule try_next_endpoint_ok)
         (use f in \<open>simp_all add: parser_ok_def net_socket_ok_def up_to_date_def wanted_settings_def\<close>)
    moreover have "calls t = calls s"
      using resolve Resolved
      by (cases it) (simp_all add: net_resolve_handler_def try_next_endpoint_def connection_failed_def Let_def)
    ultimately show ?thesis using resolve Resolved by (auto simp: net_resolve_handler_def Let_def)
  next
    case Resolve_failed
    then have t: "t = connection_failed ?s" using resolve by (simp add: net_resolve_handler_def Let_def)
    have "wanted_settings net_virtuals t = wanted_settings net_virtuals s"
      "parser_ok t" "net_socket_ok t"
      using ok by (simp_all add: t connection_failed_def wanted_settings_def parser_ok_def net_socket_ok_def net_ok_def)
    then show ?thesis
      using ok by (simp add: net_ok_def up_to_date_def sound_calls_def) (simp add: t connection_failed_def)
  qed (use resolve in simp)
next
  case (connect endpoint r)
  then show ?thesis using net_connect_handler_ok [OF ok] by blast
next
  case (read r)
  then show ?thesis using net_read_handler_ok [OF ok] by blast
next
  case reconnect
  have "wanted_settings net_virtuals t = wanted_settings net_virtuals s" "parser_ok t" "net_socket_ok t" "net_busy t"
    using ok by (simp_all add: reconnect net_reconnect_expired_def net_try_to_connect_def wanted_settings_def
        parser_ok_def net_socket_ok_def net_busy_def net_ok_def)
  then show ?thesis
    using ok by (simp add: net_ok_def up_to_date_def sound_calls_def)
      (simp add: reconnect net_reconnect_expired_def net_try_to_connect_def)
next
  case liveness
  show ?thesis
    using ok unfolding liveness(1)
    by (cases "sock_open s")
       (simp_all add: net_liveness_expired_def net_disconnect_def net_close_socket_def connection_failed_def
         net_ok_def parser_ok_def net_socket_ok_def sound_calls_def)
next
  case autodetect
  have "up_to_date net_virtuals t" if "sock_open s"
    using net.autodetect_expired_result(1) [OF _ autodetect(2)] that by (simp add: net_link)
  then show ?thesis
    using net_ok_keep [OF ok _ net.autodetect_keeps [OF autodetect(2)]]
      net_send_more [OF autodetect(2) [unfolded autodetect_expired_def]]
      net.autodetect_sound [OF autodetect(2)] by simp
next
  case write_failed
  then show ?thesis using net_handle_error_ok ok by (simp add: net_ok_def)
qed

lemma net_step_ok:
  assumes "net_step s t" and ok: "net_ok fixed s"
  shows "net_ok fixed t \<and> sound_calls s t"
  using assms(1)
proof cases
  case handler
  then show ?thesis by (rule net_handler_ok [OF _ ok])
next
  case (filter_set f)
  have m: "beast_input.more t = beast_input.more s"
    using filter_set net_send_more [of "s\<lparr>input_filter := f\<rparr>" t] by (auto simp: set_filter_def split: if_splits)
  have "up_to_date net_virtuals t" if "sock_open s" "0 < net_reads s"
    using net.set_filter_up_to_date(1) [OF _ _ filter_set] ok that by (simp add: net_link net_ok_def)
  then show ?thesis
    using net_ok_keep [OF ok m net.set_filter_keeps [OF filter_set]]
      net.set_filter_sound [OF filter_set] by simp
next
  case notifier
  have "wanted_settings net_virtuals t = wanted_settings net_virtuals s" "parser_ok t" "net_socket_ok t"
    "net_busy t = net_busy s"
    using ok by (simp_all add: notifier set_message_notifier_def wanted_settings_def
        parser_ok_def net_socket_ok_def net_busy_def net_ok_def)
  then show ?thesis
    using ok by (simp add: net_ok_def up_to_date_def sound_calls_def)
      (simp add: notifier set_message_notifier_def)
qed

text \<open>Only \<open>set_filter\<close> and \<open>set_message_notifier\<close> change the filter and the notifier.\<close>

definition net_given :: "net_input \<Rightarrow> filter \<times> bool" where
  "net_given s = (input_filter s, has_message_notifier s)"

lemma try_next_endpoint_given: "net_given (try_next_endpoint s) = net_given s"
  by (simp add: try_next_endpoint_def connection_failed_def net_given_def split: list.split)

lemma net_handler_given:
  assumes "net_handler s t" and "net_ok fixed s"
  shows "net_given t = net_given s"
proof -
  have err: "net_given (net_handle_error u) = net_given u" for u
    by (simp add: net_handle_error_def net_close_socket_def connection_failed_def net_given_def Let_def)
  have est: "net_given w = net_given u" if "net_connection_established u = Inr w" for u w
    using that net.connection_established_config
    by (fastforce simp: net_connection_established_def net_start_reading_def net_given_def config_def
        ebind_Inr_iff)
  show ?thesis
    using assms(1)
  proof cases
    case (resolve r)
    then show ?thesis
      using try_next_endpoint_given
      by (cases r) (simp_all add: net_resolve_handler_def connection_failed_def net_given_def Let_def)
  next
    case (connect endpoint r)
    then show ?thesis
      using est [of _ t] try_next_endpoint_given
      by (cases r) (auto simp: net_connect_handler_def net_close_socket_def net_given_def Let_def)
  next
    case (read r)
    let ?s = "s\<lparr>net_reads := net_reads s - 1\<rparr>"
    have "parser_ok ?s" using assms(2) by (simp add: net_ok_def parser_ok_def)
    then have parse: "net_given u = net_given s" if "parse_input net_virtuals b ?s = Inr u" for b u
      using net.parse_input_config [OF _ that] by (simp add: net_given_def config_def)
    show ?thesis
    proof (cases r)
      case (Read_data b)
      then obtain u where "parse_input net_virtuals b ?s = Inr u" "net_given t = net_given u"
        using read(4)
        by (auto simp: net_read_handler_def net_check_framing_errors_def net_start_reading_def
            net_disconnect_def net_close_socket_def net_given_def Let_def ebind_Inr_iff)
      then show ?thesis using parse by simp
    qed (use read err [of ?s] in \<open>auto simp: net_read_handler_def net_given_def Let_def\<close>)
  next
    case reconnect
    then show ?thesis by (simp add: net_reconnect_expired_def net_try_to_connect_def net_given_def)
  next
    case liveness
    then show ?thesis
      by (simp add: net_liveness_expired_def net_disconnect_def net_close_socket_def connection_failed_def
          net_given_def)
  next
    case autodetect
    note e = autodetect(2) [unfolded autodetect_expired_def]
    show ?thesis using net.send_settings_config [OF e] by (simp add: net_given_def config_def)
  qed (use err in simp)
qed

lemma net_reachable_ok:
  assumes "net_reachable fixed s"
  shows "net_ok fixed s \<and> (\<forall>m. Notify m \<in> set (calls s) \<longrightarrow> sound_message m)"
  using assms
proof induction
  case (start n f)
  show ?case
    by (simp add: net_start_def net_try_to_connect_def new_net_input_def new_beast_input_def
        beast_input.defs net_input.defs net_ok_def parser_ok_def net_socket_ok_def net_busy_def)
next
  case (step s t)
  then show ?case using net_step_ok [OF step(2)] by (fastforce simp: sound_calls_def)
qed

subsection \<open>Properties\<close>



text \<open>A failing handler is a read with a position message.\<close>

lemma net_connect_ends: "\<exists>t. net_connect_handler endpoint r s = Inr t"
proof (cases r)
  case Connected
  obtain u where "connection_established net_virtuals (s\<lparr>connecting := remove1 endpoint (connecting s)\<rparr>) = Inr u"
    using net.connection_established_ends by blast
  then show ?thesis
    using Connected by (simp add: net_connect_handler_def net_connection_established_def Let_def)
qed (simp_all add: net_connect_handler_def Let_def)

lemma net_fails_only:
  assumes "net_fails s e" and "net_ok fixed s"
  shows "e = Assertion_failed \<and> (\<exists>b. net_read_handler (Read_data b) s = Inl e \<and>
    length b \<le> net_read_buffer_size \<and> (position_pending s \<or> 0x35 \<in> set b))"
  using assms(1)
proof cases
  case (connect endpoint r)
  then show ?thesis using net_connect_ends [of endpoint r s] by simp
next
  case autodetect
  then show ?thesis using net.autodetect_ends [of s] by simp
next
  case (read r)
  let ?s = "s\<lparr>net_reads := net_reads s - 1\<rparr>"
  obtain b where r: "r = Read_data b" using read(3) by (cases r) (auto simp: net_read_handler_def Let_def)
  then have "parse_input net_virtuals b ?s = Inl e"
    using read(3) by (cases "parse_input net_virtuals b ?s") (simp_all add: net_read_handler_def Let_def)
  moreover have "parser_ok ?s" "position_pending ?s = position_pending s"
    using assms(2) by (simp_all add: net_ok_def parser_ok_def position_pending_def)
  ultimately have "e = Assertion_failed" "position_pending s \<or> 0x35 \<in> set b"
    using net.parse_input_sound [of ?s b] by simp_all
  then show ?thesis using read(2,3) r by blast
qed

text \<open>The attempts left, the one under way first.\<close>

definition trying :: "string list \<Rightarrow> net_input \<Rightarrow> bool" where
  "trying es s \<longleftrightarrow>
     (case es of
        [] \<Rightarrow> \<not> sock_open s \<and> connecting s = [] \<and> reconnect_timer s
      | e # rest \<Rightarrow> sock_open s \<and> connecting s = [e] \<and> next_endpoint s = rest)"

lemma trying_next: "connecting s = [] \<Longrightarrow> \<not> sock_open s \<Longrightarrow> trying (next_endpoint s) (try_next_endpoint s)"
  by (cases "next_endpoint s") (simp_all add: trying_def try_next_endpoint_def connection_failed_def)

lemma trying_failed:
  assumes "trying (e # es) s"
  shows "\<exists>t. net_connect_handler e Connect_failed s = Inr t \<and> trying es t"
  using assms trying_next [of "net_close_socket (s\<lparr>connecting := []\<rparr>)"]
  by (simp add: trying_def net_connect_handler_def net_close_socket_def Let_def)

lemma trying_connected:
  assumes "trying (e # es) s"
  shows "\<exists>t. net_connect_handler e Connected s = Inr t \<and> sock_open t \<and> connecting t = [] \<and>
    next_endpoint t = es \<and> resolving t = resolving s \<and> net_reads t = Suc (net_reads s) \<and>
    up_to_date net_virtuals t \<and> parser t = READ_1A"
proof -
  let ?s = "s\<lparr>connecting := []\<rparr>"
  obtain u where u: "connection_established net_virtuals ?s = Inr u"
    using net.connection_established_ends by blast
  note m = net_more [OF net_established_more [OF u]] and e = net.connection_established_result [OF u]
  have "sock_open s" "connecting s = [e]" "next_endpoint s = es" using assms by (simp_all add: trying_def)
  moreover from this have "up_to_date net_virtuals u" using e(6) by (simp add: net_link)
  ultimately show ?thesis
    using u m e(2)
    by (simp add: net_connect_handler_def net_connection_established_def net_start_reading_def Let_def
        up_to_date_def wanted_settings_def)
qed



end
