(* ===== verification/StatusWriter.thy ===== *)
theory StatusWriter
  imports Distributor BeastInput
begin

section \<open>The status file (status_writer.h, status_writer.cc)\<close>

text \<open>
  \<open>StatusWriter\<close> is a client of the distributor that asks for status messages only. Each one
  re-arms its timer and rewrites the status file; so does the timer, when no message came. The
  file is written under another name and moved into place. The model keeps the timer, the
  handle and the contents of the file; the time and whether writing succeeded are arguments.
\<close>

subsection \<open>Text\<close>

definition endl :: string where
  "endl = [CHR 0x0A]"

fun show_nat :: "nat \<Rightarrow> string" where
  "show_nat n = (if n < 10 then [char_of (48 + n)] else show_nat (n div 10) @ [char_of (48 + n mod 10)])"

declare show_nat.simps [simp del]

definition show_int :: "int \<Rightarrow> string" where
  "show_int i = (if i < 0 then CHR ''-'' # show_nat (nat (- i)) else show_nat (nat i))"

subsection \<open>State\<close>

record status_writer =
  status_timer :: bool
  filter_handle :: "handle option"
  status_file :: "string option"

definition new_status_writer :: status_writer where
  "new_status_writer = \<lparr>status_timer = False, filter_handle = None, status_file = None\<rparr>"

definition timeout_interval :: nat where
  "timeout_interval = 2500"

text \<open>The sentinel of \<open>write_status_file\<close> for no offset.\<close>

definition no_offset :: int where
  "no_offset = -9999"

subsection \<open>Writing the file\<close>

text \<open>
  The input as the writer sees it: no input, or one that is connected or not and its receiver
  type. \<open>now\<close> is the system clock in nanoseconds since the epoch.
\<close>

type_synonym input_view = "(bool \<times> receiver_type) option"

definition input_view :: "'x beast_input_scheme \<Rightarrow> input_view" where
  "input_view s = Some (is_connected s, receiver_type s)"

definition radio_text :: "bool \<Rightarrow> string" where
  "radio_text connected =
     ''  \"radio\"    : {'' @ endl @
     ''    \"status\"  : \"'' @ (if connected then ''green'' else ''red'') @ ''\",'' @ endl @
     ''    \"message\" : \"'' @
       (if connected then ''Connected to receiver'' else ''Not connected to receiver'') @ ''\"'' @ endl @
     ''  },'' @ endl"

definition gps_text :: "string \<Rightarrow> string \<Rightarrow> int \<Rightarrow> string" where
  "gps_text gps_color gps_message pps_offset =
     ''  \"gps\"      : {'' @ endl @
     ''    \"status\"     : \"'' @ gps_color @ ''\",'' @ endl @
     (if pps_offset \<noteq> no_offset
      then ''    \"pps_offset\" : '' @ show_int pps_offset @ '','' @ endl else []) @
     ''    \"message\"    : \"'' @ gps_message @ ''\"'' @ endl @
     ''  },'' @ endl"

definition times_text :: "nat \<Rightarrow> nat \<Rightarrow> string" where
  "times_text time expiry =
     ''  \"time\"     : '' @ show_nat time @ '','' @ endl @
     ''  \"expiry\"   : '' @ show_nat expiry @ '','' @ endl @
     ''  \"interval\" : '' @ show_nat timeout_interval @ endl"

definition status_text :: "input_view \<Rightarrow> nat \<Rightarrow> string \<Rightarrow> string \<Rightarrow> int \<Rightarrow> string" where
  "status_text input now gps_color gps_message pps_offset =
     (let expiry = now + timeout_interval * 1000000 * 2 in
      ''{'' @ endl @
      (case input of None \<Rightarrow> [] | Some (connected, receiver) \<Rightarrow> radio_text connected) @
      (if gps_color \<noteq> [] then gps_text gps_color gps_message pps_offset else []) @
      times_text (now div 1000000) (expiry div 1000000) @
      ''}'' @ endl)"

text \<open>\<open>ok\<close>: the whole text was written and the file moved into place.\<close>

definition write_status_file ::
  "bool \<Rightarrow> input_view \<Rightarrow> nat \<Rightarrow> string \<Rightarrow> string \<Rightarrow> int \<Rightarrow> status_writer \<Rightarrow> status_writer" where
  "write_status_file ok input now gps_color gps_message pps_offset w =
     (if ok then w\<lparr>status_file := Some (status_text input now gps_color gps_message pps_offset)\<rparr>
      else w)"

subsection \<open>The handlers\<close>

definition reset_timeout :: "status_writer \<Rightarrow> status_writer" where
  "reset_timeout w = w\<lparr>status_timer := True\<rparr>"

definition status_timeout ::
  "bool \<Rightarrow> bool \<Rightarrow> input_view \<Rightarrow> nat \<Rightarrow> status_writer \<Rightarrow> status_writer" where
  "status_timeout aborted ok input now w =
     (if aborted then w
      else
        (let w = reset_timeout w in
         if (case input of None \<Rightarrow> False
             | Some (connected, receiver) \<Rightarrow> connected \<and> receiver = RADARCAPE)
         then write_status_file ok input now ''red'' ''No recent GPS status message received'' no_offset w
         else write_status_file ok input now [] [] no_offset w))"

text \<open>Why the FPGA does not use GPS time, from the third byte of the message.\<close>

definition fault_messages :: "byte \<Rightarrow> string list" where
  "fault_messages b =
     (let status_messages = (if b AND 0x08 = 0 then [''GPS/UTC time offset not known''] else []);
          status_messages =
            (if b AND 0x02 = 0 then status_messages @ [''Not tracking any satellites'']
             else if b AND 0x04 = 0 then status_messages @ [''Not tracking sufficient satellites'']
             else status_messages);
          status_messages =
            (if b AND 0x01 = 0 then status_messages @ [''Antenna fault''] else status_messages)
      in if status_messages = [] then [''Unrecognized GPS fault''] else status_messages)"

fun join_messages :: "string list \<Rightarrow> string" where
  "join_messages [] = []"
| "join_messages [m] = m"
| "join_messages (m # ms) = m @ ''; '' @ join_messages ms"

text \<open>The colour and the message for a status message's data and its offset.\<close>

definition gps_report :: "bytebuf \<Rightarrow> int \<Rightarrow> string \<times> string" where
  "gps_report data pps_offset =
     (if data ! 0 AND 0x10 = 0 then (''red'', ''Not in GPS timestamp mode'')
      else if data ! 2 AND 0x80 = 0 then
        (if pps_offset \<le> 3 \<or> -3 \<le> pps_offset then (''green'', ''Receiver synchronized to GPS time'')
         else (''amber'', ''Receiver more than 45ns from GPS time''))
      else if data ! 2 AND 0x20 = 0 then
        (if data ! 2 AND 0x10 \<noteq> 0 then (''green'', ''Receiver synchronized to GPS time'')
         else (''amber'', ''Receiver more than 45ns from GPS time''))
      else (''red'', join_messages (fault_messages (data ! 2))))"

definition status_write ::
  "bool \<Rightarrow> input_view \<Rightarrow> nat \<Rightarrow> message \<Rightarrow> status_writer \<Rightarrow> status_writer" where
  "status_write ok input now m w =
     (if m_type m \<noteq> STATUS then w
      else
        (let w = reset_timeout w;
             pps_offset = sint (m_data m ! 1);
             (color, text) = gps_report (m_data m) pps_offset
         in write_status_file ok input now color text pps_offset w))"

subsection \<open>Starting and closing\<close>

text \<open>\<open>n\<close> is the notifier bound to the writer.\<close>

definition status_filter :: filter where
  "status_filter = default_filter\<lparr>receive_status := True\<rparr>"

definition status_start ::
  "'n \<Rightarrow> 'n distributor \<times> status_writer \<Rightarrow> ('n distributor \<times> status_writer) \<times> filter option" where
  "status_start n dw =
     (let (d, w) = dw;
          (h, d, up) = add_client n status_filter d
      in ((d, reset_timeout (w\<lparr>filter_handle := Some h\<rparr>)), up))"

definition status_close ::
  "'n distributor \<times> status_writer \<Rightarrow> ('n distributor \<times> status_writer) \<times> filter option" where
  "status_close dw =
     (let (d, w) = dw;
          w = w\<lparr>status_timer := False\<rparr>;
          (d, up) = (case filter_handle w of None \<Rightarrow> (d, None) | Some h \<Rightarrow> remove_client h d)
      in ((d, w), up))"

subsection \<open>Reading the file\<close>

text \<open>
  A reader for the part of JSON the file uses: strings without escapes, integers and objects
  that are not empty. The first argument bounds the depth and the number of fields.
\<close>

datatype json = Str string | Num int | Obj "(string \<times> json) list"

definition blank :: "char \<Rightarrow> bool" where
  "blank c \<longleftrightarrow> c = CHR '' '' \<or> c = CHR 0x0A"

definition skip_blanks :: "string \<Rightarrow> string" where
  "skip_blanks t = dropWhile blank t"

definition plain :: "char \<Rightarrow> bool" where
  "plain c \<longleftrightarrow> c \<noteq> CHR 0x22 \<and> c \<noteq> CHR 0x5C \<and> 32 \<le> (of_char c :: nat)"

fun read_string :: "string \<Rightarrow> (string \<times> string) option" where
  "read_string [] = None"
| "read_string (c # r) =
     (if c = CHR 0x22 then Some ([], r)
      else if \<not> plain c then None
      else map_option (\<lambda>(s, r). (c # s, r)) (read_string r))"

definition is_digit :: "char \<Rightarrow> bool" where
  "is_digit c \<longleftrightarrow> 48 \<le> (of_char c :: nat) \<and> (of_char c :: nat) \<le> 57"

fun read_digits :: "nat \<Rightarrow> string \<Rightarrow> nat \<times> string" where
  "read_digits n [] = (n, [])"
| "read_digits n (c # r) =
     (if is_digit c then read_digits (10 * n + (of_char c - 48)) r else (n, c # r))"

definition read_number :: "string \<Rightarrow> (json \<times> string) option" where
  "read_number t =
     (case t of
        [] \<Rightarrow> None
      | c # r \<Rightarrow>
          if c = CHR ''-'' then
            (if r \<noteq> [] \<and> is_digit (hd r) then (case read_digits 0 r of (n, r) \<Rightarrow> Some (Num (- int n), r))
             else None)
          else if is_digit c then (case read_digits 0 t of (n, r) \<Rightarrow> Some (Num (int n), r))
          else None)"

fun read_value :: "nat \<Rightarrow> string \<Rightarrow> (json \<times> string) option"
  and read_fields :: "nat \<Rightarrow> string \<Rightarrow> ((string \<times> json) list \<times> string) option" where
  "read_value 0 t = None"
| "read_value (Suc n) t =
     (case skip_blanks t of
        [] \<Rightarrow> None
      | c # r \<Rightarrow>
          if c = CHR 0x22 then map_option (\<lambda>(s, r). (Str s, r)) (read_string r)
          else if c = CHR ''{'' then map_option (\<lambda>(fs, r). (Obj fs, r)) (read_fields n r)
          else read_number (c # r))"
| "read_fields 0 t = None"
| "read_fields (Suc n) t =
     (case skip_blanks t of
        [] \<Rightarrow> None
      | q # r \<Rightarrow>
          if q \<noteq> CHR 0x22 then None
          else case read_string r of
              None \<Rightarrow> None
            | Some (k, r) \<Rightarrow>
                (case skip_blanks r of
                   [] \<Rightarrow> None
                 | c # r \<Rightarrow>
                     if c \<noteq> CHR '':'' then None
                     else case read_value n r of
                         None \<Rightarrow> None
                       | Some (v, r) \<Rightarrow>
                           (case skip_blanks r of
                              [] \<Rightarrow> None
                            | d # r \<Rightarrow>
                                if d = CHR '','' then map_option (\<lambda>(fs, r). ((k, v) # fs, r)) (read_fields n r)
                                else if d = CHR ''}'' then Some ([(k, v)], r)
                                else None)))"

text \<open>What is read of numbers and strings that were written.\<close>

lemma show_nat_digits: "show_nat n \<noteq> [] \<and> list_all is_digit (show_nat n)"
proof (induction n rule: show_nat.induct)
  case (1 n)
  show ?case
  proof (cases "n < 10")
    case True
    then show ?thesis by (simp add: show_nat.simps [of n] is_digit_def)
  next
    case False
    have "n mod 10 < 10" by simp
    then show ?thesis using 1 False by (simp add: show_nat.simps [of n] is_digit_def)
  qed
qed

definition stops_number :: "string \<Rightarrow> bool" where
  "stops_number r \<longleftrightarrow> (case r of [] \<Rightarrow> True | c # _ \<Rightarrow> \<not> is_digit c)"

lemma read_digits_stop: "stops_number r \<Longrightarrow> read_digits n r = (n, r)"
  by (cases r) (simp_all add: stops_number_def)

lemma read_digits_append:
  "list_all is_digit a \<Longrightarrow> read_digits n (a @ b) = (case read_digits n a of (m, _) \<Rightarrow> read_digits m b)"
  by (induction a arbitrary: n) simp_all

lemma read_show_nat: "read_digits 0 (show_nat n) = (n, [])"
proof (induction n rule: show_nat.induct)
  case (1 n)
  show ?case
  proof (cases "n < 10")
    case True
    then show ?thesis by (simp add: show_nat.simps [of n] is_digit_def)
  next
    case False
    have m: "n mod 10 < 10" by simp
    have "10 * (n div 10) + n mod 10 = n" by simp
    then show ?thesis
      using 1 False m show_nat_digits [of "n div 10"]
      by (simp add: show_nat.simps [of n] is_digit_def read_digits_append)
  qed
qed

lemma read_number_show_nat:
  assumes "stops_number r"
  shows "read_number (show_nat n @ r) = Some (Num (int n), r)"
proof -
  obtain c cs where c: "show_nat n = c # cs" "is_digit c"
    using show_nat_digits [of n] by (cases "show_nat n") auto
  have "read_digits 0 (show_nat n @ r) = (n, r)"
    using show_nat_digits [of n] by (simp add: read_digits_append read_show_nat read_digits_stop assms)
  moreover have "c \<noteq> CHR ''-''" using c(2) by (auto simp: is_digit_def)
  ultimately show ?thesis using c by (simp add: read_number_def)
qed

lemma read_number_show_int:
  assumes "stops_number r"
  shows "read_number (show_int i @ r) = Some (Num i, r)"
proof (cases "i < 0")
  case True
  have "read_digits 0 (show_nat (nat (- i)) @ r) = (nat (- i), r)"
    using show_nat_digits [of "nat (- i)"] by (simp add: read_digits_append read_show_nat read_digits_stop assms)
  moreover obtain c cs where "show_nat (nat (- i)) = c # cs" "is_digit c"
    using show_nat_digits [of "nat (- i)"] by (cases "show_nat (nat (- i))") auto
  ultimately show ?thesis using True by (simp add: read_number_def show_int_def)
next
  case False
  then show ?thesis using read_number_show_nat [OF assms, of "nat i"] by (simp add: show_int_def)
qed

lemma read_string_plain: "list_all plain s \<Longrightarrow> read_string (s @ CHR 0x22 # r) = Some (s, r)"
  by (induction s) (auto simp: plain_def)

lemma show_nat_first: "skip_blanks (show_nat n @ r) = show_nat n @ r"
proof -
  obtain c cs where "show_nat n = c # cs" "is_digit c"
    using show_nat_digits [of n] by (cases "show_nat n") auto
  then show ?thesis by (auto simp: skip_blanks_def blank_def is_digit_def)
qed

lemma show_int_first: "skip_blanks (show_int i @ r) = show_int i @ r"
  using show_nat_first by (simp add: show_int_def skip_blanks_def blank_def)

definition status_json :: "input_view \<Rightarrow> nat \<Rightarrow> string \<Rightarrow> string \<Rightarrow> int \<Rightarrow> json" where
  "status_json input now gps_color gps_message pps_offset =
     Obj ((case input of
             None \<Rightarrow> []
           | Some (connected, receiver) \<Rightarrow>
               [(''radio'', Obj [(''status'', Str (if connected then ''green'' else ''red'')),
                  (''message'', Str (if connected then ''Connected to receiver''
                    else ''Not connected to receiver''))])]) @
          (if gps_color = [] then []
           else [(''gps'', Obj ((''status'', Str gps_color) #
              (if pps_offset = no_offset then [] else [(''pps_offset'', Num pps_offset)]) @
              [(''message'', Str gps_message)]))]) @
          [(''time'', Num (int (now div 1000000))), (''expiry'', Num (int (now div 1000000) + 5000)),
           (''interval'', Num 2500)])"

lemma expiry_ms: "(now + timeout_interval * 1000000 * 2) div 1000000 = now div 1000000 + 5000"
  by (simp add: timeout_interval_def)

text \<open>A number after its colon.\<close>

lemma number_value:
  assumes "skip_blanks t = t" and "t = c # cs" and "c \<noteq> CHR 0x22" and "c \<noteq> CHR ''{''"
  shows "read_value (Suc n) (CHR '' '' # t) = read_number t"
proof -
  have "skip_blanks (CHR '' '' # t) = c # cs"
    using assms(1,2) by (simp add: skip_blanks_def blank_def)
  then show ?thesis using assms(2-4) by simp
qed

lemma read_value_nat:
  assumes "stops_number r"
  shows "read_value (Suc n) (CHR '' '' # show_nat i @ r) = Some (Num (int i), r)"
proof -
  obtain c cs where c: "show_nat i = c # cs" "is_digit c"
    using show_nat_digits [of i] by (cases "show_nat i") auto
  have "read_value (Suc n) (CHR '' '' # show_nat i @ r) = read_number (show_nat i @ r)"
    by (rule number_value [OF show_nat_first, of _ _ c "cs @ r"]) (use c in \<open>auto simp: is_digit_def\<close>)
  then show ?thesis using read_number_show_nat [OF assms] by simp
qed

lemma read_value_int:
  assumes "stops_number r"
  shows "read_value (Suc n) (CHR '' '' # show_int i @ r) = Some (Num i, r)"
proof (cases "i < 0")
  case True
  have "read_value (Suc n) (CHR '' '' # show_int i @ r) = read_number (show_int i @ r)"
    by (rule number_value [OF show_int_first, of _ _ "CHR ''-''" "show_nat (nat (- i)) @ r"])
       (use True in \<open>simp_all add: show_int_def\<close>)
  then show ?thesis using read_number_show_int [OF assms] by simp
next
  case False
  then show ?thesis using read_value_nat [OF assms, of n "nat i"] by (simp add: show_int_def)
qed

lemma read_value_text:
  "read_value (Suc n) (CHR '' '' # CHR 0x22 # r) = map_option (\<lambda>(s, r). (Str s, r)) (read_string r)"
  "read_value (Suc n) (CHR '' '' # CHR ''{'' # r) = map_option (\<lambda>(fs, r). (Obj fs, r)) (read_fields n r)"
  "read_value (Suc n) (CHR ''{'' # r) = map_option (\<lambda>(fs, r). (Obj fs, r)) (read_fields n r)"
  by (simp_all add: skip_blanks_def blank_def)

lemmas read_value_simps = read_value_text read_value_nat read_value_int read_string_plain

lemma stops_number_simps [simp]:
  "stops_number (CHR '','' # r)" "stops_number (CHR 0x0A # r)"
  by (simp_all add: stops_number_def is_digit_def)

lemma read_radio:
  "read_fields (Suc (Suc (Suc (Suc (Suc n))))) (radio_text c @ t) =
    map_option (\<lambda>(fs, r). ((''radio'', Obj [(''status'', Str (if c then ''green'' else ''red'')),
      (''message'', Str (if c then ''Connected to receiver'' else ''Not connected to receiver''))]) # fs, r))
      (read_fields (Suc (Suc (Suc (Suc n)))) t)"
  by (cases c) (simp_all del: read_value.simps
      add: read_value_simps radio_text_def endl_def skip_blanks_def blank_def plain_def)

lemma read_gps:
  assumes "list_all plain color" and "list_all plain msg"
  shows "read_fields (Suc (Suc (Suc (Suc (Suc (Suc n)))))) (gps_text color msg off @ t) =
    map_option (\<lambda>(fs, r). ((''gps'', Obj ((''status'', Str color) #
        (if off = no_offset then [] else [(''pps_offset'', Num off)]) @ [(''message'', Str msg)])) # fs, r))
      (read_fields (Suc (Suc (Suc (Suc (Suc n))))) t)"
  using assms
  by (cases "off = no_offset")
     (simp_all del: read_value.simps
       add: read_value_simps gps_text_def endl_def skip_blanks_def blank_def plain_def)

lemma read_times:
  "read_fields (Suc (Suc (Suc (Suc n)))) (times_text t (t + 5000) @ ''}'' @ endl) =
    Some ([(''time'', Num (int t)), (''expiry'', Num (int t + 5000)), (''interval'', Num 2500)], endl)"
  by (simp del: read_value.simps
      add: times_text_def read_value_simps endl_def skip_blanks_def blank_def plain_def timeout_interval_def)

lemma read_status_text:
  assumes "list_all plain color" and "list_all plain msg"
  shows "read_value 8 (status_text input now color msg off) = Some (status_json input now color msg off, endl)"
proof -
  have b: "read_fields n (endl @ t) = read_fields n t" for n t
    by (cases n) (simp_all add: endl_def skip_blanks_def blank_def)
  have eight: "8 = Suc (Suc (Suc (Suc (Suc (Suc (Suc (Suc 0)))))))" by simp
  have v: "read_value (Suc n) (''{'' @ r) = map_option (\<lambda>(fs, r). (Obj fs, r)) (read_fields n r)" for n r
    using read_value_text(3) by simp
  show ?thesis
    using assms
    unfolding status_text_def status_json_def expiry_ms Let_def eight v b
    by (cases input; cases "color = []") (auto simp: read_radio read_gps read_times simp del: append_Cons read_fields.simps)
qed

subsection \<open>Properties\<close>

lemma mask_bits:
  "b AND 0x80 = 0 \<longleftrightarrow> \<not> bit b 7" "b AND 0x20 = 0 \<longleftrightarrow> \<not> bit b 5" "b AND 0x10 = 0 \<longleftrightarrow> \<not> bit b 4"
  for b :: byte
  using and_exp_eq_0_iff_not_bit [of b 7] and_exp_eq_0_iff_not_bit [of b 5]
    and_exp_eq_0_iff_not_bit [of b 4] by simp_all

lemma fault_messages_plain: "m \<in> set (fault_messages b) \<Longrightarrow> m \<noteq> [] \<and> list_all plain m"
  by (auto simp: fault_messages_def Let_def plain_def split: if_splits)

lemma fault_messages_some: "fault_messages b \<noteq> []"
  by (simp add: fault_messages_def Let_def)

lemma join_plain:
  "ms \<noteq> [] \<Longrightarrow> (\<And>m. m \<in> set ms \<Longrightarrow> m \<noteq> [] \<and> list_all plain m) \<Longrightarrow>
    join_messages ms \<noteq> [] \<and> list_all plain (join_messages ms)"
  by (induction ms rule: join_messages.induct) (auto simp: plain_def)

definition status_colour :: "bytebuf \<Rightarrow> string" where
  "status_colour d =
     (if \<not> bit (d ! 0) 4 then ''red''
      else if \<not> bit (d ! 2) 7 then ''green''
      else if bit (d ! 2) 5 then ''red''
      else if bit (d ! 2) 4 then ''green'' else ''amber'')"

text \<open>
  The faults a new-style message can report, each with its condition on the bits of the third
  byte, and the message that goes with the colour.
\<close>

definition gps_faults :: "byte \<Rightarrow> string list" where
  "gps_faults b = map snd (filter fst
     [(\<not> bit b 3, ''GPS/UTC time offset not known''),
      (\<not> bit b 1, ''Not tracking any satellites''),
      (bit b 1 \<and> \<not> bit b 2, ''Not tracking sufficient satellites''),
      (\<not> bit b 0, ''Antenna fault'')])"

definition separated :: "string list \<Rightarrow> string" where
  "separated ms = hd ms @ concat (map (\<lambda>m. ''; '' @ m) (tl ms))"

definition status_report :: "bytebuf \<Rightarrow> string" where
  "status_report d =
     (if \<not> bit (d ! 0) 4 then ''Not in GPS timestamp mode''
      else if status_colour d = ''green'' then ''Receiver synchronized to GPS time''
      else if status_colour d = ''amber'' then ''Receiver more than 45ns from GPS time''
      else if gps_faults (d ! 2) = [] then ''Unrecognized GPS fault''
      else separated (gps_faults (d ! 2)))"

lemma fault_bits:
  "b AND 0x08 = 0 \<longleftrightarrow> \<not> bit b 3" "b AND 0x04 = 0 \<longleftrightarrow> \<not> bit b 2" "b AND 0x02 = 0 \<longleftrightarrow> \<not> bit b 1"
  "b AND 0x01 = 0 \<longleftrightarrow> \<not> bit b 0" for b :: byte
  using and_exp_eq_0_iff_not_bit [of b 3] and_exp_eq_0_iff_not_bit [of b 2]
    and_exp_eq_0_iff_not_bit [of b 1] and_exp_eq_0_iff_not_bit [of b 0] by simp_all

lemma fault_messages_table:
  "fault_messages b = (if gps_faults b = [] then [''Unrecognized GPS fault''] else gps_faults b)"
  unfolding fault_messages_def fault_bits gps_faults_def by simp

lemma join_separated: "ms \<noteq> [] \<Longrightarrow> join_messages ms = separated ms"
  by (induction ms rule: join_messages.induct) (simp_all add: separated_def)

lemma gps_report_table:
  "gps_report d off = (status_colour d, status_report d)"
proof -
  have off: "off \<le> 3 \<or> -3 \<le> off" by arith
  have "join_messages (fault_messages (d ! 2)) =
      (if gps_faults (d ! 2) = [] then ''Unrecognized GPS fault'' else separated (gps_faults (d ! 2)))"
    using join_separated [of "gps_faults (d ! 2)"] by (simp add: fault_messages_table)
  then show ?thesis using off by (simp add: gps_report_def status_colour_def status_report_def mask_bits)
qed

lemma gps_report_plain: "list_all plain (status_colour d)" "list_all plain (status_report d)"
proof -
  have "list_all plain (join_messages (fault_messages b))" for b
    using join_plain [OF fault_messages_some fault_messages_plain] by simp
  moreover have "status_report d = snd (gps_report d 0)" by (simp add: gps_report_table)
  ultimately show "list_all plain (status_report d)" by (simp add: gps_report_def plain_def)
  show "list_all plain (status_colour d)" by (simp add: status_colour_def plain_def)
qed

text \<open>
  C19: a status message re-arms the timer and replaces the status file by a text that reads
  back as an object with the radio's state, the time, when the file expires and how often it
  is written, and the GPS state with its message: red without GPS timestamps, green for every
  message of the old style, whatever its offset, and for one of the new style that says the
  error is at most 45 ns, amber for one that says it is not, and red with the list of the faults
  for one that says GPS time is not used.
\<close>

theorem status_message_reported:
  assumes "m_type m = STATUS"
  shows "status_timer (status_write True v now m w) \<and>
    (\<exists>text. status_file (status_write True v now m w) = Some text \<and>
      read_value 8 text = Some (status_json v now (status_colour (m_data m)) (status_report (m_data m))
        (sint (m_data m ! 1)), endl))"
  using assms read_status_text [OF gps_report_plain]
  by (simp add: status_write_def gps_report_table reset_timeout_def write_status_file_def Let_def)

theorem status_message_reported_witness:
  "\<exists>text. status_file (status_write True (Some (True, RADARCAPE)) 7000000
      (projr (make_message STATUS TWELVEMEG 0 0 ([0x10, 0x7F, 0xBA] @ replicate 11 0))) new_status_writer) =
        Some text \<and>
    read_value 8 text = Some (status_json (Some (True, RADARCAPE)) 7000000 ''red''
      ''Not tracking sufficient satellites; Antenna fault'' 127, endl)"
proof -
  obtain m where m: "make_message STATUS TWELVEMEG 0 0 ([0x10, 0x7F, 0xBA] @ replicate 11 0) = Inr m"
    by (simp add: make_message_def)
  note ok = make_message_ok [OF m]
  have "status_colour (m_data m) = ''red''" "sint (m_data m ! 1) = 127"
    "status_report (m_data m) = ''Not tracking sufficient satellites; Antenna fault''"
    using ok by (simp_all add: status_report_def gps_faults_def separated_def status_colour_def bit_iff_odd_drop_bit)
  then show ?thesis
    using status_message_reported [of m "Some (True, RADARCAPE)" 7000000 new_status_writer] ok m by simp
qed

text \<open>
  When no status message came in time, the timer is re-armed and the file is replaced by
  one that says so, in red, if the input is connected to a Radarcape, and that says nothing
  about GPS otherwise; an aborted wait changes nothing.
\<close>

theorem status_timeout_reported:
  "status_timeout True ok v now w = w \<and>
  status_timer (status_timeout False ok v now w) \<and>
  (\<exists>text. status_file (status_timeout False True v now w) = Some text \<and>
    read_value 8 text = Some (if v = Some (True, RADARCAPE)
      then status_json v now ''red'' ''No recent GPS status message received'' no_offset
      else status_json v now [] [] no_offset, endl))"
proof (intro conjI)
  have p: "list_all plain ''red''" "list_all plain ''No recent GPS status message received''"
    by (simp_all add: plain_def)
  show "status_timeout True ok v now w = w" by (simp add: status_timeout_def)
  show "status_timer (status_timeout False ok v now w)"
    by (simp add: status_timeout_def reset_timeout_def write_status_file_def Let_def)
  have c: "(case v of None \<Rightarrow> False | Some (connected, receiver) \<Rightarrow> connected \<and> receiver = RADARCAPE) \<longleftrightarrow>
      v = Some (True, RADARCAPE)" by (auto split: option.splits)
  show "\<exists>text. status_file (status_timeout False True v now w) = Some text \<and>
    read_value 8 text = Some (if v = Some (True, RADARCAPE)
      then status_json v now ''red'' ''No recent GPS status message received'' no_offset
      else status_json v now [] [] no_offset, endl)"
    using read_status_text [OF p] read_status_text [of "[]" "[]"]
    by (simp add: status_timeout_def reset_timeout_def write_status_file_def c Let_def)
qed

text \<open>The filter the writer registers asks for status messages and nothing else.\<close>

lemma status_filter_accepts: "accepts status_filter m \<longleftrightarrow> m_type m = STATUS"
proof -
  have "\<not> receive_df status_filter ! nat (df m)" if "m_type m = MODE_S_SHORT \<or> m_type m = MODE_S_LONG"
  proof -
    have "nat (df m) < 32" using df_range [OF that] by linarith
    then show ?thesis by (simp add: status_filter_def default_filter_def nth_replicate)
  qed
  then show ?thesis
    by (cases "m_type m") (simp_all add: accepts_def, simp_all add: status_filter_def default_filter_def)
qed

end
