(* ===== verification/DebugText.thy ===== *)
theory DebugText
  imports StatusWriter
begin

section \<open>What the log prints (modes_message.h, modes_message.cc, modes_filter.cc)\<close>

text \<open>
  The output operators for message types, messages and filters, as functions to strings; what the
  log shows of a message is enough to tell its type, its timestamp and its data.
\<close>

subsection \<open>Output operators\<close>

definition message_type_text :: "message_type \<Rightarrow> string" where
  "message_type_text t =
     (case t of
        MODE_AC \<Rightarrow> ''MODE_AC''
      | MODE_S_SHORT \<Rightarrow> ''MODE_S_SHORT''
      | MODE_S_LONG \<Rightarrow> ''MODE_S_LONG''
      | STATUS \<Rightarrow> ''STATUS''
      | POSITION \<Rightarrow> ''POSITION''
      | INVALID \<Rightarrow> ''INVALID'')"

text \<open>Unsigned integers in the stream's \<open>hex\<close> format, and its \<open>setw\<close> with the fill character 0.\<close>

definition hex_digit :: "nat \<Rightarrow> char" where
  "hex_digit n = ''0123456789abcdef'' ! n"

fun show_hex :: "nat \<Rightarrow> string" where
  "show_hex n = (if n < 16 then [hex_digit n] else show_hex (n div 16) @ [hex_digit (n mod 16)])"

declare show_hex.simps [simp del]

definition setw :: "nat \<Rightarrow> string \<Rightarrow> string" where
  "setw w s = replicate (w - length s) CHR ''0'' @ s"

definition message_text :: "message \<Rightarrow> string" where
  "message_text m =
     message_type_text (m_type m) @ ''@'' @ setw 12 (show_hex (unat (m_timestamp m))) @ '':'' @
     concat (map (\<lambda>b. setw 2 (show_hex (unat b))) (m_data m))"

definition filter_text :: "filter \<Rightarrow> string" where
  "filter_text f =
     ''Filter[ '' @
     (if receive_modeac f then ''modeac '' else []) @
     (if receive_bad_crc f then ''badcrc '' else []) @
     (if receive_fec f then ''fec '' else []) @
     (if receive_status f then ''status '' else []) @
     (if receive_gps_timestamps f then ''gps '' else []) @
     (if receive_position f then ''position '' else []) @
     (if receive_verbatim f then ''verbatim '' else []) @
     concat (map (\<lambda>i. if receive_df f ! i then show_nat i @ '' '' else []) [0..<length (receive_df f)]) @
     '']''"

subsection \<open>Reading hexadecimal numbers back\<close>

definition hex_digits :: string where
  "hex_digits = ''0123456789abcdef''"

definition digit_value :: "char \<Rightarrow> nat" where
  "digit_value c = length (takeWhile (\<lambda>d. d \<noteq> c) hex_digits)"

definition read_hex :: "string \<Rightarrow> nat" where
  "read_hex = foldl (\<lambda>n c. 16 * n + digit_value c) 0"

lemma hex_digit_value:
  assumes "n < 16"
  shows "digit_value (hex_digit n) = n" "hex_digit n \<in> set hex_digits"
proof -
  have "list_all (\<lambda>n. digit_value (hex_digit n) = n \<and> hex_digit n \<in> set hex_digits) [0..<16]"
    by (simp add: upt_rec digit_value_def hex_digit_def hex_digits_def)
  then show "digit_value (hex_digit n) = n" "hex_digit n \<in> set hex_digits"
    using assms by (simp_all add: list_all_iff)
qed

lemma read_show_hex: "read_hex (show_hex n) = n"
proof (induction n rule: show_hex.induct)
  case (1 n)
  show ?case
  proof (cases "n < 16")
    case True
    then show ?thesis by (subst show_hex.simps) (simp add: read_hex_def hex_digit_value)
  next
    case False
    then have "read_hex (show_hex n) = 16 * read_hex (show_hex (n div 16)) + digit_value (hex_digit (n mod 16))"
      by (subst show_hex.simps) (simp add: read_hex_def)
    then show ?thesis using 1 False by (simp add: hex_digit_value)
  qed
qed

lemma read_setw [simp]: "read_hex (setw w (show_hex n)) = n"
proof -
  have z: "digit_value CHR ''0'' = 0" by (simp add: digit_value_def hex_digits_def)
  have "foldl (\<lambda>n c. 16 * n + digit_value c) 0 (replicate k CHR ''0'') = 0" for k
    by (induction k) (simp_all add: z)
  then show ?thesis using read_show_hex [of n] by (simp add: setw_def read_hex_def)
qed

lemma show_hex_chars: "set (show_hex n) \<subseteq> set hex_digits"
proof (induction n rule: show_hex.induct)
  case (1 n)
  show ?case using 1 hex_digit_value(2) by (subst show_hex.simps) auto
qed

lemma setw_chars: "CHR '':'' \<notin> set (setw w (show_hex n))"
  using show_hex_chars [of n] by (auto simp: setw_def hex_digits_def)

lemma show_byte_length: "length (setw 2 (show_hex (unat (b :: byte)))) = 2"
proof -
  have one: "length (show_hex n) = 1" if "n < 16" for n
    using that by (subst show_hex.simps) simp
  have "unat b < 2 ^ LENGTH(8)" by (rule unsigned_less)
  then have "unat b div 16 < 16" by simp
  then have "length (show_hex (unat b)) \<le> 2"
    by (subst show_hex.simps) (simp add: one)
  then show ?thesis by (simp add: setw_def)
qed

lemma show_byte_nonempty: "setw 2 (show_hex (unat (b :: byte))) \<noteq> []"
  using show_byte_length [of b] by auto

lemma show_bytes_inject:
  assumes "concat (map (\<lambda>b. setw 2 (show_hex (unat b))) (d :: bytebuf)) =
    concat (map (\<lambda>b. setw 2 (show_hex (unat b))) e)"
  shows "d = e"
  using assms
proof (induction d arbitrary: e)
  case Nil
  then show ?case by (cases e) (simp_all add: show_byte_nonempty)
next
  case (Cons b d)
  then obtain c e' where e: "e = c # e'" by (cases e) (simp_all add: show_byte_nonempty)
  have eq: "setw 2 (show_hex (unat b)) = setw 2 (show_hex (unat c))"
    "concat (map (\<lambda>b. setw 2 (show_hex (unat b))) d) = concat (map (\<lambda>b. setw 2 (show_hex (unat b))) e')"
    using Cons.prems e by (simp_all add: append_eq_append_conv show_byte_length)
  then have "b = c" using read_setw by (metis word_unat_eq_iff)
  then show ?case using Cons.IH [OF eq(2)] e by simp
qed

lemma separator_unique:
  assumes "c \<notin> set a" and "c \<notin> set b" and "a @ c # s = b @ c # t"
  shows "a = b \<and> s = t"
  using assms by (auto simp: append_eq_append_conv2 Cons_eq_append_conv append_eq_Cons_conv)

text \<open>The line printed for a message determines what is printed of it.\<close>

theorem message_text_determines:
  assumes "message_text m = message_text n"
  shows "m_type m = m_type n \<and> m_timestamp m = m_timestamp n \<and> m_data m = m_data n"
proof -
  let ?D = "\<lambda>m. concat (map (\<lambda>b. setw 2 (show_hex (unat b))) (m_data m))"
  let ?T = "\<lambda>m. setw 12 (show_hex (unat (m_timestamp m)))"
  have at: "CHR ''@'' \<notin> set (message_type_text t)" for t by (cases t) (simp_all add: message_type_text_def)
  have "message_type_text (m_type m) = message_type_text (m_type n) \<and> ?T m @ CHR '':'' # ?D m = ?T n @ CHR '':'' # ?D n"
    by (rule separator_unique [OF at at]) (use assms in \<open>simp add: message_text_def\<close>)
  moreover from this have "?T m = ?T n \<and> ?D m = ?D n" by (intro separator_unique [OF setw_chars setw_chars]) simp
  moreover have "t = u" if "message_type_text t = message_type_text u" for t u
    using that by (cases t; cases u) (simp_all add: message_type_text_def)
  ultimately have "m_type m = m_type n" "?T m = ?T n" "m_data m = m_data n"
    using show_bytes_inject by blast+
  then show ?thesis using read_setw by (metis word_unat_eq_iff)
qed

end
