(* ===== verification/Outputs.thy ===== *)
theory Outputs
  imports StatusWriter SocketOutput NetInput
begin

section \<open>Listeners, connectors and the wiring of the outputs (beast_output.h, beast_output.cc)\<close>

text \<open>
  \<open>SocketListener\<close> and \<open>SocketConnector\<close> make a \<open>SocketOutput\<close> for each connection and wire it
  up: it becomes a client of the distributor, its settings notifier changes the client's filter,
  its close notifier removes the client, and a connector's one schedules a reconnection. The
  record \<open>hub\<close> is the distributor with everything wired to it; \<open>requests\<close> are the calls of the
  distributor's filter notifier, in order.
\<close>

subsection \<open>State\<close>

datatype target = Output nat | Status

record attachment =
  conn_output :: socket_output
  client_handle :: handle
  owner :: "nat option"

record listener =
  accepting :: bool
  l_settings :: settings

record connector =
  running :: bool
  c_settings :: settings
  c_next_endpoint :: "string list"
  c_resolving :: nat
  c_connecting :: "string list"
  c_reconnect_timer :: bool

record hub =
  dist :: "target distributor"
  outs :: "attachment list"
  conns :: "connector list"
  status :: status_writer
  requests :: "filter list"

definition new_listener :: "settings \<Rightarrow> listener" where
  "new_listener initial_settings = \<lparr>accepting = False, l_settings = initial_settings\<rparr>"

definition new_connector :: "settings \<Rightarrow> connector" where
  "new_connector initial_settings =
     \<lparr>running = False, c_settings = initial_settings, c_next_endpoint = [], c_resolving = 0,
      c_connecting = [], c_reconnect_timer = False\<rparr>"

definition new_hub :: hub where
  "new_hub = \<lparr>dist = set_filter_notifier new_distributor, outs = [], conns = [],
     status = new_status_writer, requests = []\<rparr>"

subsection \<open>Connectors\<close>

definition schedule_reconnect :: "connector \<Rightarrow> connector" where
  "schedule_reconnect c = (if running c then c\<lparr>c_reconnect_timer := True\<rparr> else c)"

text \<open>The argument is whether the wait on the timer was aborted.\<close>

definition resolve_and_connect :: "bool \<Rightarrow> connector \<Rightarrow> connector" where
  "resolve_and_connect aborted c =
     (if \<not> running c then c else if aborted then c else c\<lparr>c_resolving := c_resolving c + 1\<rparr>)"

definition connector_try_next :: "connector \<Rightarrow> connector" where
  "connector_try_next c =
     (if \<not> running c then c
      else case c_next_endpoint c of
          [] \<Rightarrow> schedule_reconnect c
        | endpoint # rest \<Rightarrow>
            c\<lparr>c_next_endpoint := rest, c_connecting := c_connecting c @ [endpoint]\<rparr>)"

definition connector_resolve_handler :: "resolve_result \<Rightarrow> connector \<Rightarrow> connector" where
  "connector_resolve_handler r c =
     (let c = c\<lparr>c_resolving := c_resolving c - 1\<rparr> in
      case r of
        Resolved it \<Rightarrow> connector_try_next (c\<lparr>c_next_endpoint := it\<rparr>)
      | Resolve_aborted \<Rightarrow> c
      | Resolve_failed \<Rightarrow> schedule_reconnect c)"

definition connector_reconnect_expired :: "connector \<Rightarrow> connector" where
  "connector_reconnect_expired c = resolve_and_connect False (c\<lparr>c_reconnect_timer := False\<rparr>)"

definition connector_start :: "connector \<Rightarrow> connector" where
  "connector_start c = resolve_and_connect False (c\<lparr>running := True\<rparr>)"

text \<open>Closing the socket ends the connection attempts, cancelling the resolver its queries.\<close>

definition connector_close :: "connector \<Rightarrow> connector" where
  "connector_close c =
     c\<lparr>running := False, c_resolving := 0, c_reconnect_timer := False, c_connecting := []\<rparr>"

subsection \<open>Wiring an output\<close>

definition report_upstream :: "filter option \<Rightarrow> hub \<Rightarrow> hub" where
  "report_upstream up h = (case up of None \<Rightarrow> h | Some f \<Rightarrow> h\<lparr>requests := requests h @ [f]\<rparr>)"

text \<open>
  What both an accepted and an established connection do; the handle is captured by the two
  notifiers, so it is kept with the output.
\<close>

definition attach_output :: "socket_output \<Rightarrow> settings \<Rightarrow> nat option \<Rightarrow> hub \<Rightarrow> hub" where
  "attach_output new_output initial_settings own h =
     (let (k, d, up) = add_client (Output (length (outs h))) (to_filter initial_settings) (dist h);
          new_output = new_output\<lparr>has_settings_notifier := True, has_close_notifier := True\<rparr>
      in report_upstream up
           (h\<lparr>dist := d, outs := outs h @ [\<lparr>conn_output = new_output, client_handle = k, owner = own\<rparr>]\<rparr>))"

definition add_output :: "bool \<Rightarrow> settings \<Rightarrow> nat option \<Rightarrow> hub \<Rightarrow> failure + hub" where
  "add_output peer_known initial_settings own h =
     ebind (create_output peer_known initial_settings) (\<lambda>new_output.
       Inr (attach_output new_output initial_settings own h))"

definition settings_changed :: "nat \<Rightarrow> settings \<Rightarrow> hub \<Rightarrow> hub" where
  "settings_changed i newsettings h =
     (let (d, up) = update_client_filter (client_handle (outs h ! i)) (to_filter newsettings) (dist h)
      in report_upstream up (h\<lparr>dist := d\<rparr>))"

definition output_closed :: "nat \<Rightarrow> hub \<Rightarrow> hub" where
  "output_closed i h =
     (let (d, up) = remove_client (client_handle (outs h ! i)) (dist h);
          h = report_upstream up (h\<lparr>dist := d\<rparr>)
      in case owner (outs h ! i) of
           None \<Rightarrow> h
         | Some k \<Rightarrow> h\<lparr>conns := (conns h)[k := schedule_reconnect (conns h ! k)]\<rparr>)"

text \<open>The calls an output makes, those to the io service aside.\<close>

definition output_call_made :: "nat \<Rightarrow> hub \<Rightarrow> output_call \<Rightarrow> hub" where
  "output_call_made i h c =
     (case c of
        Notify_settings s \<Rightarrow> settings_changed i s h
      | Notify_close \<Rightarrow> output_closed i h
      | _ \<Rightarrow> h)"

definition set_output :: "nat \<Rightarrow> socket_output \<Rightarrow> hub \<Rightarrow> hub" where
  "set_output i out h = h\<lparr>outs := (outs h)[i := (outs h ! i)\<lparr>conn_output := out\<rparr>]\<rparr>"

definition output_event :: "nat \<Rightarrow> (socket_output \<Rightarrow> socket_output \<times> output_call list) \<Rightarrow> hub \<Rightarrow> hub" where
  "output_event i f h =
     (let (out, cs) = f (conn_output (outs h ! i))
      in foldl (output_call_made i) (set_output i out h) cs)"

subsection \<open>Listeners and connections\<close>

datatype accept_result = Accepted | Accept_canceled | Accept_failed

text \<open>\<open>start\<close> once the port is bound; the binding is left to the operating system.\<close>

definition listener_start :: "listener \<Rightarrow> listener" where
  "listener_start l = l\<lparr>accepting := True\<rparr>"

text \<open>\<open>peer_known\<close> is whether the address of the peer can still be asked for.\<close>

definition accept_handler ::
  "accept_result \<Rightarrow> bool \<Rightarrow> listener \<times> hub \<Rightarrow> failure + listener \<times> hub" where
  "accept_handler r peer_known lh =
     (let (l, h) = lh; l = l\<lparr>accepting := False\<rparr> in
      case r of
        Accepted \<Rightarrow>
          ebind (add_output peer_known (l_settings l) None h) (\<lambda>h. Inr (l\<lparr>accepting := True\<rparr>, h))
      | Accept_canceled \<Rightarrow> Inr (l, h)
      | Accept_failed \<Rightarrow> Inr (l\<lparr>accepting := True\<rparr>, h))"

definition listener_close :: "listener \<Rightarrow> listener" where
  "listener_close l = l\<lparr>accepting := False\<rparr>"

definition on_connector :: "nat \<Rightarrow> (connector \<Rightarrow> connector) \<Rightarrow> hub \<Rightarrow> hub" where
  "on_connector k f h = h\<lparr>conns := (conns h)[k := f (conns h ! k)]\<rparr>"

text \<open>The handler of connector \<open>k\<close>'s connection attempt; the connected socket moves to the output.\<close>

definition connector_connect_handler ::
  "string \<Rightarrow> connect_result \<Rightarrow> bool \<Rightarrow> nat \<Rightarrow> hub \<Rightarrow> failure + hub" where
  "connector_connect_handler endpoint r peer_known k h =
     (let h = on_connector k (\<lambda>c. c\<lparr>c_connecting := remove1 endpoint (c_connecting c)\<rparr>) h in
      case r of
        Connected \<Rightarrow>
          add_output peer_known (c_settings (conns h ! k)) (Some k)
            (on_connector k (\<lambda>c. c\<lparr>c_connecting := []\<rparr>) h)
      | Connect_aborted \<Rightarrow> Inr h
      | Connect_failed \<Rightarrow> Inr (on_connector k (\<lambda>c. connector_try_next (c\<lparr>c_connecting := []\<rparr>)) h))"

subsection \<open>Broadcasting to the outputs\<close>

text \<open>
  What the clients' notifiers do with a message: an output writes it, the status writer rewrites
  its file, for which it needs to know whether that works, the state of the input and the
  time. A failed assertion or an access out of bounds ends the program.
\<close>

type_synonym status_env = "bool \<times> input_view \<times> nat"

definition deliver_to ::
  "status_env \<Rightarrow> target \<Rightarrow> message \<Rightarrow> failure + attachment list \<times> status_writer \<Rightarrow>
    failure + attachment list \<times> status_writer" where
  "deliver_to env n m r =
     ebind r (\<lambda>(os, w).
       case n of
         Output i \<Rightarrow> ebind (write_output m (conn_output (os ! i))) (\<lambda>(out, cs).
           Inr (os[i := (os ! i)\<lparr>conn_output := out\<rparr>], w))
       | Status \<Rightarrow> (case env of (ok, v, now) \<Rightarrow> Inr (os, status_write ok v now m w)))"

definition notify_client ::
  "status_env \<Rightarrow> (target, failure + attachment list \<times> status_writer) callback" where
  "notify_client env n m ds = (fst ds, deliver_to env n m (snd ds))"

interpretation wired: quiet_notifiers "notify_client env" "deliver_to env" for env
  by unfold_locales (simp add: notify_client_def)

text \<open>\<open>None\<close>: the loop of the distributor does not end.\<close>

definition hub_broadcast :: "status_env \<Rightarrow> message \<Rightarrow> hub \<Rightarrow> (failure + hub) option" where
  "hub_broadcast env m h =
     map_option (\<lambda>(d, r). ebind r (\<lambda>(os, w). Inr (h\<lparr>dist := d, outs := os, status := w\<rparr>)))
       (broadcast (notify_client env) m (dist h, Inr (outs h, status h)))"

definition hub_status_start :: "hub \<Rightarrow> hub" where
  "hub_status_start h =
     (let ((d, w), up) = status_start Status (dist h, status h)
      in report_upstream up (h\<lparr>dist := d, status := w\<rparr>))"

subsection \<open>What the operations of the distributor do to its table\<close>

lemma add_client_table:
  assumes "add_client n f d = (k, d', up)"
  shows "k = next_handle d" "next_handle d' = k + 1"
    "map_of (clients d') = (map_of (clients d))(k \<mapsto> \<lparr>notifier = n, cfilter = f, deleted = False\<rparr>)"
    "fst ` set (clients d') = insert k (fst ` set (clients d))"
proof -
  have r: "k = next_handle d" "d' = d\<lparr>next_handle := next_handle d + 1,
      clients := map_put (next_handle d) \<lparr>notifier = n, cfilter = f, deleted = False\<rparr> (clients d)\<rparr>"
    using assms by (auto simp: add_client_def Let_def update_upstream_filter_eq)
  then show "k = next_handle d" "next_handle d' = k + 1"
    "map_of (clients d') = (map_of (clients d))(k \<mapsto> \<lparr>notifier = n, cfilter = f, deleted = False\<rparr>)"
    by simp_all
  show "fst ` set (clients d') = insert k (fst ` set (clients d))"
    using keys_put [of k _ "clients d"] by (simp add: r)
qed

lemma put_known_key:
  assumes "map_of xs k = Some c"
  shows "fst ` set (map_put k v xs) = fst ` set xs"
proof -
  have "k \<in> fst ` set xs" using assms by (metis map_of_eq_None_iff not_None_eq)
  then show ?thesis using keys_put [of k v xs] by (simp only: set_map insert_absorb)
qed

lemma put_same: "m k = Some c \<Longrightarrow> m(k \<mapsto> c) = m"
  by (auto simp: fun_eq_iff)

lemma update_client_table:
  assumes "update_client_filter k f d = (d', up)"
  shows "next_handle d' = next_handle d \<and> fst ` set (clients d') = fst ` set (clients d) \<and>
    map_of (clients d') =
      (case map_of (clients d) k of
         Some c \<Rightarrow> if deleted c then map_of (clients d) else (map_of (clients d))(k \<mapsto> c\<lparr>cfilter := f\<rparr>)
       | None \<Rightarrow> map_of (clients d))"
proof (cases "map_of (clients d) k")
  case None
  then show ?thesis using assms by (simp add: update_client_filter_def)
next
  case (Some c)
  show ?thesis
  proof (cases "deleted c \<or> cfilter c = f")
    case True
    then have "d' = d"
      using assms Some by (auto simp: update_client_filter_def filter_eq_iff split: if_splits)
    then show ?thesis using True Some by (auto simp: put_same)
  next
    case False
    then have "d' = d\<lparr>clients := map_put k (c\<lparr>cfilter := f\<rparr>) (clients d)\<rparr>"
      using assms Some by (simp add: update_client_filter_def filter_eq_iff update_upstream_filter_eq)
    then show ?thesis using False Some put_known_key [OF Some] by simp
  qed
qed

lemma remove_client_table:
  assumes "remove_client k d = (d', up)"
  shows "next_handle d' = next_handle d \<and> fst ` set (clients d') = fst ` set (clients d) \<and>
    map_of (clients d') =
      (case map_of (clients d) k of
         Some c \<Rightarrow> (map_of (clients d))(k \<mapsto> c\<lparr>deleted := True\<rparr>)
       | None \<Rightarrow> map_of (clients d))"
proof (cases "map_of (clients d) k")
  case None
  then show ?thesis using assms by (simp add: remove_client_def)
next
  case (Some c)
  show ?thesis
  proof (cases "deleted c")
    case True
    then have "d' = d" using assms Some by (simp add: remove_client_def)
    then show ?thesis using True Some by (auto simp: put_same)
  next
    case False
    then have "d' = d\<lparr>clients := map_put k (c\<lparr>deleted := True\<rparr>) (clients d)\<rparr>"
      using assms Some by (simp add: remove_client_def update_upstream_filter_eq)
    then show ?thesis using False Some put_known_key [OF Some] by simp
  qed
qed

lemma reaped_table:
  assumes "map_ordered xs"
  shows "map_of (filter (\<lambda>e. \<not> deleted (snd e)) xs) k =
    (case map_of xs k of Some c \<Rightarrow> if deleted c then None else Some c | None \<Rightarrow> None)"
  using assms
proof (induction xs)
  case (Cons e xs)
  obtain k' c where e: "e = (k', c)" by (cases e)
  have "k' \<notin> fst ` set xs" using ordered_distinct [OF Cons.prems] e by simp
  then have "map_of (filter (\<lambda>e. \<not> deleted (snd e)) xs) k' = None"
    by (auto simp: map_of_eq_None_iff)
  then show ?case using Cons e by simp
qed simp

subsection \<open>The invariant of the wiring\<close>

text \<open>The filter the distributor last asked for.\<close>

definition last_request :: "hub \<Rightarrow> filter" where
  "last_request h = last (default_filter # requests h)"

text \<open>
  An open output is the client with its handle, and the client's filter is that of the output's
  settings; a closed one is not a client any more.
\<close>

definition served :: "hub \<Rightarrow> nat \<Rightarrow> bool" where
  "served h i \<longleftrightarrow>
     (let a = outs h ! i; out = conn_output a; k = client_handle a in
      k < next_handle (dist h) \<and> has_settings_notifier out \<and> has_close_notifier out \<and>
      (if socket_open out
       then map_of (clients (dist h)) k =
         Some \<lparr>notifier = Output i, cfilter = to_filter (out_settings out), deleted = False\<rparr>
       else \<forall>c. map_of (clients (dist h)) k = Some c \<longrightarrow> deleted c))"

definition client_known :: "hub \<Rightarrow> handle \<Rightarrow> target client \<Rightarrow> bool" where
  "client_known h k c \<longleftrightarrow>
     (case notifier c of
        Output i \<Rightarrow> i < length (outs h) \<and> client_handle (outs h ! i) = k
      | Status \<Rightarrow> cfilter c = status_filter \<and> filter_handle (status h) = Some k)"

text \<open>A running connector has a connection or is on its way to one.\<close>

definition connector_busy :: "connector \<Rightarrow> bool" where
  "connector_busy c \<longleftrightarrow> 0 < c_resolving c \<or> c_connecting c \<noteq> [] \<or> c_reconnect_timer c"

definition connector_ok :: "hub \<Rightarrow> nat \<Rightarrow> bool" where
  "connector_ok h k \<longleftrightarrow>
     (running (conns h ! k) \<longrightarrow> connector_busy (conns h ! k) \<or>
       (\<exists>i < length (outs h). owner (outs h ! i) = Some k \<and> socket_open (conn_output (outs h ! i))))"

definition hub_ok :: "hub \<Rightarrow> bool" where
  "hub_ok h \<longleftrightarrow>
     distributor_ok (dist h) \<and> has_filter_notifier (dist h) \<and>
     (\<forall>k \<in> fst ` set (clients (dist h)). k < next_handle (dist h)) \<and>
     distinct (map client_handle (outs h)) \<and>
     (\<forall>i < length (outs h). served h i) \<and>
     (\<forall>k c. map_of (clients (dist h)) k = Some c \<longrightarrow> client_known h k c) \<and>
     (\<forall>k < length (conns h). connector_ok h k) \<and>
     last_request h = upstream_filter (dist h)"

lemma report_upstream_simps [simp]:
  "dist (report_upstream up h) = dist h" "outs (report_upstream up h) = outs h"
  "conns (report_upstream up h) = conns h" "status (report_upstream up h) = status h"
  by (simp_all add: report_upstream_def split: option.split)

lemma last_request_report [simp]:
  "last_request (report_upstream up h) = (case up of None \<Rightarrow> last_request h | Some f \<Rightarrow> f)"
  by (simp add: report_upstream_def last_request_def split: option.split)

lemma last_request_fields [simp]:
  "last_request (h\<lparr>dist := d\<rparr>) = last_request h" "last_request (h\<lparr>outs := os\<rparr>) = last_request h"
  "last_request (h\<lparr>conns := cs\<rparr>) = last_request h" "last_request (h\<lparr>status := w\<rparr>) = last_request h"
  by (simp_all add: last_request_def)

lemma reported_in_sync:
  assumes "reports d (d', up)" and "has_filter_notifier d" and "last_request h = upstream_filter d"
  shows "last_request (report_upstream up (h\<lparr>dist := d', outs := os\<rparr>)) = upstream_filter d'"
    and "last_request (report_upstream up (h\<lparr>dist := d'\<rparr>)) = upstream_filter d'"
    and "distributor_ok d'" and "has_filter_notifier d'"
  using assms by (auto simp: reports_def split: option.splits)

lemma served_cong:
  assumes "served h i" and "outs h' ! i = outs h ! i"
    and "next_handle (dist h) \<le> next_handle (dist h')"
    and "map_of (clients (dist h')) (client_handle (outs h ! i)) =
      map_of (clients (dist h)) (client_handle (outs h ! i))"
  shows "served h' i"
proof -
  have "client_handle (outs h ! i) < next_handle (dist h')"
    using assms(1,3) by (auto simp: served_def Let_def intro: less_le_trans)
  then show ?thesis using assms(1,2,4) by (simp add: served_def Let_def)
qed

lemma connector_ok_cong:
  assumes "connector_ok h k" and "conns h' ! k = conns h ! k" and "length (outs h') = length (outs h)"
    and "\<And>i. owner (outs h' ! i) = owner (outs h ! i) \<and>
      socket_open (conn_output (outs h' ! i)) = socket_open (conn_output (outs h ! i))"
  shows "connector_ok h' k"
  using assms by (simp add: connector_ok_def)

lemma handle_next: "next_handle d \<noteq> 0xFFFFFFFF \<Longrightarrow> next_handle d < next_handle d + 1"
proof -
  assume "next_handle d \<noteq> 0xFFFFFFFF"
  moreover have "(0xFFFFFFFF :: u32) = -1" by simp
  ultimately have "next_handle d \<noteq> -1" by metis
  then show ?thesis using inc_less_eq_self_iff_eq [of "next_handle d"] by (simp add: not_le [symmetric])
qed

lemma attach_output_ok:
  assumes ok: "hub_ok h" and room: "next_handle (dist h) \<noteq> 0xFFFFFFFF"
  shows "hub_ok (attach_output (new_socket_output s) s own h)"
proof -
  let ?i = "length (outs h)"
  obtain k d up where a: "add_client (Output ?i) (to_filter s) (dist h) = (k, d, up)"
    by (cases "add_client (Output ?i) (to_filter s) (dist h)") auto
  note t = add_client_table [OF a]
  let ?a = "\<lparr>conn_output = (new_socket_output s)\<lparr>has_settings_notifier := True, has_close_notifier := True\<rparr>,
    client_handle = k, owner = own\<rparr>"
  define g where "g = report_upstream up (h\<lparr>dist := d, outs := outs h @ [?a]\<rparr>)"
  have g: "attach_output (new_socket_output s) s own h = g" by (simp add: attach_output_def a g_def Let_def)
  have fields: "dist g = d" "outs g = outs h @ [?a]" "conns g = conns h" "status g = status h" by (simp_all add: g_def)
  have "reports (dist h) (d, up)"
    using add_client_reports [of "dist h" "to_filter s" "Output ?i"] ok a by (simp add: hub_ok_def)
  note r = reported_in_sync [OF this]
  have h: "distributor_ok (dist h)" "has_filter_notifier (dist h)" "last_request h = upstream_filter (dist h)"
    using ok by (simp_all add: hub_ok_def)
  have less: "k < next_handle d" using handle_next [OF room] t(1,2) by simp
  have old: "client_handle (outs h ! i) < k" if "i < ?i" for i
    using ok that t(1) by (auto simp: hub_ok_def served_def Let_def)
  have served: "served g i" if "i < Suc ?i" for i
  proof (cases "i = ?i")
    case True
    then show ?thesis using less t(3) by (simp add: served_def fields new_socket_output_def)
  next
    case False
    then have i: "i < ?i" using that by simp
    have s: "served h i" using ok i by (simp add: hub_ok_def)
    have "client_handle (outs h ! i) \<noteq> k" using old [OF i] by auto
    then show ?thesis
      by (intro served_cong [OF s]) (use i less t(1) in \<open>simp_all add: fields nth_append t(3)\<close>)
  qed
  have known: "client_known g k' c" if "map_of (clients d) k' = Some c" for k' c
  proof (cases "k' = k")
    case True
    then show ?thesis using that t(3) by (auto simp: client_known_def fields)
  next
    case False
    then have "client_known h k' c" using ok that t(3) by (simp add: hub_ok_def)
    then show ?thesis by (auto simp: client_known_def fields nth_append split: target.splits)
  qed
  have conn: "connector_ok g k'" if "k' < length (conns h)" for k'
  proof -
    have "connector_ok h k'" using ok that by (simp add: hub_ok_def)
    then consider "\<not> running (conns h ! k')" | "connector_busy (conns h ! k')"
      | i where "i < ?i" "owner (outs h ! i) = Some k'" "socket_open (conn_output (outs h ! i))"
      by (auto simp: connector_ok_def)
    then show ?thesis
    proof cases
      case 3
      then have "i < length (outs g) \<and> owner (outs g ! i) = Some k' \<and> socket_open (conn_output (outs g ! i))"
        by (simp add: fields nth_append)
      then show ?thesis unfolding connector_ok_def by blast
    qed (simp_all add: connector_ok_def fields)
  qed
  have "k \<notin> set (map client_handle (outs h))"
  proof
    assume "k \<in> set (map client_handle (outs h))"
    then obtain i where "i < ?i" "client_handle (outs h ! i) = k" by (auto simp: in_set_conv_nth)
    then show False using old [of i] by simp
  qed
  then have "distinct (map client_handle (outs g))" using ok by (simp add: hub_ok_def fields)
  moreover have "\<forall>k' \<in> fst ` set (clients d). k' < next_handle d"
  proof -
    have "k' < k" if "k' \<in> fst ` set (clients (dist h))" for k'
      using ok that unfolding t(1) hub_ok_def by blast
    then show ?thesis using t(4) less by (auto intro: less_trans)
  qed
  moreover have "last_request g = upstream_filter d" unfolding g_def by (rule r(1)) (use h in simp_all)
  ultimately show ?thesis
    unfolding g using r(3,4) h served known conn by (simp add: hub_ok_def fields)
qed

text \<open>
  The three things an output's handler can do: change its buffers, tell its new settings, or
  close.
\<close>

definition handler_result :: "socket_output \<Rightarrow> socket_output \<times> output_call list \<Rightarrow> bool" where
  "handler_result out r \<longleftrightarrow>
     has_settings_notifier (fst r) = has_settings_notifier out \<and>
     has_close_notifier (fst r) = has_close_notifier out \<and>
     (out_settings (fst r) = out_settings out \<and> socket_open (fst r) = socket_open out \<and>
        (\<forall>c \<in> set (snd r). \<forall>s. c \<noteq> Notify_settings s \<and> c \<noteq> Notify_close) \<or>
      snd r = [Notify_settings (out_settings (fst r))] \<and> socket_open (fst r) = socket_open out \<or>
      snd r = [Notify_close] \<and> \<not> socket_open (fst r))"

lemma command_bytes_members:
  "has_close_notifier (fst (foldl command_byte st data)) = has_close_notifier (fst st) \<and>
   has_settings_notifier (fst (foldl command_byte st data)) = has_settings_notifier (fst st) \<and>
   socket_open (fst (foldl command_byte st data)) = socket_open (fst st)"
proof (induction data arbitrary: st)
  case (Cons b data)
  obtain out g where st: "st = (out, g)" by (cases st)
  have "has_close_notifier (process_option_command a out) = has_close_notifier out \<and>
      has_settings_notifier (process_option_command a out) = has_settings_notifier out \<and>
      socket_open (process_option_command a out) = socket_open out" for a
    by (simp add: process_option_command_def Let_def del: ascii_Char)
  then have "has_close_notifier (fst (command_byte st b)) = has_close_notifier out \<and>
      has_settings_notifier (fst (command_byte st b)) = has_settings_notifier out \<and>
      socket_open (fst (command_byte st b)) = socket_open out"
    by (simp add: st command_byte_def split: command_state.split)
  then show ?case using Cons.IH [of "command_byte st b"] by (simp add: st)
qed simp

lemma process_commands_result:
  assumes "has_settings_notifier out"
  shows "handler_result out (process_commands data out)"
proof -
  obtain o1 g where f: "foldl command_byte (out, False) data = (o1, g)"
    by (cases "foldl command_byte (out, False) data")
  show ?thesis
    using command_bytes_members [of "(out, False)" data] command_bytes_quiet [of out False data] assms f
    by (cases g) (auto simp: process_commands_def handler_result_def)
qed

lemma close_output_result: "has_close_notifier out \<Longrightarrow> handler_result out (close_output out)"
  by (simp add: close_output_def handler_result_def)

lemma read_handler_result:
  "has_settings_notifier out \<Longrightarrow> has_close_notifier out \<Longrightarrow> handler_result out (read_handler r out)"
  by (cases r) (simp_all add: read_handler_def handle_output_error_def process_commands_result
      close_output_result)

lemma write_handler_result: "has_close_notifier out \<Longrightarrow> handler_result out (write_handler ec out)"
  by (auto simp: write_handler_def handle_output_error_def close_output_def handler_result_def Let_def)

lemma flush_outbuf_result: "handler_result out (flush_outbuf out)"
  by (auto simp: flush_outbuf_def handler_result_def split: option.split list.split)

lemma set_output_simps [simp]:
  "dist (set_output i out h) = dist h" "conns (set_output i out h) = conns h"
  "status (set_output i out h) = status h"
  "last_request (set_output i out h) = last_request h"
  "length (outs (set_output i out h)) = length (outs h)"
  "client_handle (outs (set_output i out h) ! j) = client_handle (outs h ! j)"
  "owner (outs (set_output i out h) ! j) = owner (outs h ! j)"
  "i < length (outs h) \<Longrightarrow> conn_output (outs (set_output i out h) ! j) =
    (if j = i then out else conn_output (outs h ! j))"
proof -
  have "client_handle (outs (set_output i out h) ! j) = client_handle (outs h ! j) \<and>
    owner (outs (set_output i out h) ! j) = owner (outs h ! j)"
    by (cases "i < length (outs h)"; cases "j = i") (simp_all add: set_output_def list_update_beyond)
  then show "client_handle (outs (set_output i out h) ! j) = client_handle (outs h ! j)"
    "owner (outs (set_output i out h) ! j) = owner (outs h ! j)" by simp_all
qed (simp_all add: set_output_def)

lemma set_output_handles [simp]: "map client_handle (outs (set_output i out h)) = map client_handle (outs h)"
  by (rule nth_equalityI) simp_all

lemma handles_differ:
  assumes "hub_ok h" and "i < length (outs h)" and "j < length (outs h)" and "i \<noteq> j"
  shows "client_handle (outs h ! i) \<noteq> client_handle (outs h ! j)"
  using assms nth_eq_iff_index_eq [of "map client_handle (outs h)" i j] by (simp add: hub_ok_def)

text \<open>An output whose settings and state stay as they are.\<close>

lemma set_output_ok:
  assumes ok: "hub_ok h" and i: "i < length (outs h)"
    and same: "has_settings_notifier out = has_settings_notifier (conn_output (outs h ! i))"
      "has_close_notifier out = has_close_notifier (conn_output (outs h ! i))"
      "out_settings out = out_settings (conn_output (outs h ! i))"
      "socket_open out = socket_open (conn_output (outs h ! i))"
  shows "hub_ok (set_output i out h)"
proof -
  have "served (set_output i out h) j" if "j < length (outs h)" for j
    using ok that i same by (cases "j = i") (auto simp: hub_ok_def served_def Let_def)
  moreover have "client_known (set_output i out h) k c" if "client_known h k c" for k c
    using that by (simp add: client_known_def split: target.splits)
  moreover have "connector_ok (set_output i out h) k" if "connector_ok h k" for k
    by (rule connector_ok_cong [OF that]) (use i same in simp_all)
  ultimately show ?thesis using ok by (simp add: hub_ok_def)
qed

lemma settings_changed_ok:
  assumes ok: "hub_ok h" and i: "i < length (outs h)"
    and same: "has_settings_notifier out = has_settings_notifier (conn_output (outs h ! i))"
      "has_close_notifier out = has_close_notifier (conn_output (outs h ! i))"
      "socket_open out = socket_open (conn_output (outs h ! i))"
  shows "hub_ok (settings_changed i (out_settings out) (set_output i out h))"
proof -
  let ?h = "set_output i out h" and ?k = "client_handle (outs h ! i)"
  obtain d up where u: "update_client_filter ?k (to_filter (out_settings out)) (dist h) = (d, up)"
    by (cases "update_client_filter ?k (to_filter (out_settings out)) (dist h)") auto
  note t = update_client_table [OF u]
  define g where "g = report_upstream up (?h\<lparr>dist := d\<rparr>)"
  have g: "settings_changed i (out_settings out) ?h = g" by (simp add: settings_changed_def u g_def)
  have fields: "dist g = d" "outs g = outs ?h" "conns g = conns h" "status g = status h" by (simp_all add: g_def)
  have h: "distributor_ok (dist h)" "has_filter_notifier (dist h)" "last_request h = upstream_filter (dist h)"
    "served h i" using ok i by (simp_all add: hub_ok_def)
  have "reports (dist h) (d, up)"
    using update_client_filter_reports [of "dist h" "to_filter (out_settings out)" ?k] h(1) u by simp
  note r = reported_in_sync [OF this h(2)]
  have "served g j" if "j < length (outs h)" for j
  proof (cases "j = i")
    case True
    then show ?thesis
      using h(4) t i same by (auto simp: served_def fields Let_def split: option.splits if_splits)
  next
    case False
    then have "client_handle (outs h ! j) \<noteq> ?k" using handles_differ [OF ok that i] by simp
    moreover have "served h j" using ok that by (simp add: hub_ok_def)
    ultimately show ?thesis
      using t i False by (auto simp: served_def fields Let_def split: option.splits if_splits)
  qed
  moreover have "client_known g k c" if "map_of (clients d) k = Some c" for k c
  proof -
    have known: "client_known h k c'" if "map_of (clients (dist h)) k = Some c'" for k c'
      using ok that by (simp add: hub_ok_def)
    have status: "notifier c' \<noteq> Status" if "map_of (clients (dist h)) ?k = Some c'" "\<not> deleted c'" for c'
      using h(4) that by (auto simp: served_def Let_def split: if_splits)
    from that t have "(\<exists>c'. map_of (clients (dist h)) k = Some c' \<and> notifier c' = notifier c \<and>
        (notifier c = Status \<longrightarrow> cfilter c = cfilter c'))"
      using status by (auto split: option.splits if_splits)
    then show ?thesis using known by (fastforce simp: client_known_def fields split: target.splits)
  qed
  moreover have "connector_ok g k" if "k < length (conns h)" for k
    by (rule connector_ok_cong [of h]) (use ok that i same in \<open>simp_all add: fields hub_ok_def\<close>)
  moreover have "\<forall>k \<in> fst ` set (clients d). k < next_handle d" using ok t by (auto simp: hub_ok_def)
  moreover have "last_request g = upstream_filter d" unfolding g_def by (rule r(2)) (use h(3) in simp)
  ultimately show ?thesis
    unfolding g using r(3,4) h ok by (simp add: hub_ok_def fields)
qed

lemma output_closed_ok:
  assumes ok: "hub_ok h" and i: "i < length (outs h)"
    and same: "has_settings_notifier out = has_settings_notifier (conn_output (outs h ! i))"
      "has_close_notifier out = has_close_notifier (conn_output (outs h ! i))"
      "\<not> socket_open out"
  shows "hub_ok (output_closed i (set_output i out h))"
proof -
  let ?h = "set_output i out h" and ?k = "client_handle (outs h ! i)"
  obtain d up where u: "remove_client ?k (dist h) = (d, up)" by (cases "remove_client ?k (dist h)") auto
  note t = remove_client_table [OF u]
  define cs where "cs = (case owner (outs h ! i) of None \<Rightarrow> conns h
    | Some k \<Rightarrow> (conns h)[k := schedule_reconnect (conns h ! k)])"
  define g where "g = (report_upstream up (?h\<lparr>dist := d\<rparr>))\<lparr>conns := cs\<rparr>"
  have g: "output_closed i ?h = g"
    by (cases "owner (outs h ! i)") (simp_all add: output_closed_def u g_def cs_def Let_def)
  have fields: "dist g = d" "outs g = outs ?h" "conns g = cs" "length cs = length (conns h)"
    "status g = status h"
    by (simp_all add: g_def cs_def split: option.split)
  have h: "distributor_ok (dist h)" "has_filter_notifier (dist h)" "last_request h = upstream_filter (dist h)"
    "served h i" using ok i by (simp_all add: hub_ok_def)
  have "reports (dist h) (d, up)" using remove_client_reports [of "dist h" ?k] h(1) u by simp
  note r = reported_in_sync [OF this h(2)]
  have "served g j" if "j < length (outs h)" for j
  proof (cases "j = i")
    case True
    then show ?thesis
      using h(4) t i same by (auto simp: served_def fields Let_def split: option.splits if_splits)
  next
    case False
    then have "client_handle (outs h ! j) \<noteq> ?k" using handles_differ [OF ok that i] by simp
    moreover have "served h j" using ok that by (simp add: hub_ok_def)
    ultimately show ?thesis
      using t i False by (auto simp: served_def fields Let_def split: option.splits if_splits)
  qed
  moreover have "client_known g k c" if "map_of (clients d) k = Some c" for k c
  proof -
    from that t obtain c' where "map_of (clients (dist h)) k = Some c'" "notifier c' = notifier c"
      "cfilter c' = cfilter c"
      by (auto split: option.splits if_splits)
    moreover from this have "client_known h k c'" using ok by (simp add: hub_ok_def)
    ultimately show ?thesis by (auto simp: client_known_def fields split: target.splits)
  qed
  moreover have "connector_ok g k" if k: "k < length (conns h)" for k
  proof (cases "owner (outs h ! i) = Some k")
    case True
    then show ?thesis
      using k by (simp add: connector_ok_def fields cs_def schedule_reconnect_def connector_busy_def)
  next
    case False
    then have "cs ! k = conns h ! k" by (auto simp: cs_def split: option.split)
    moreover have "connector_ok h k" using ok k by (simp add: hub_ok_def)
    ultimately show ?thesis using False i by (auto simp: connector_ok_def fields)
  qed
  moreover have "\<forall>k \<in> fst ` set (clients d). k < next_handle d" using ok t by (auto simp: hub_ok_def)
  moreover have "last_request g = upstream_filter d"
    unfolding g_def last_request_fields by (rule r(2)) (use h(3) in simp)
  ultimately show ?thesis
    unfolding g using r(3,4) h ok by (simp add: hub_ok_def fields)
qed

lemma output_event_ok:
  assumes ok: "hub_ok h" and i: "i < length (outs h)"
    and "handler_result (conn_output (outs h ! i)) (f (conn_output (outs h ! i)))"
  shows "hub_ok (output_event i f h)"
proof -
  let ?out = "conn_output (outs h ! i)"
  obtain out cs where f: "f ?out = (out, cs)" by (cases "f ?out")
  have flags: "has_settings_notifier out = has_settings_notifier ?out"
    "has_close_notifier out = has_close_notifier ?out"
    using assms(3) by (simp_all add: handler_result_def f)
  have quiet: "foldl (output_call_made i) g cs = g"
    if "\<forall>c \<in> set cs. \<forall>s. c \<noteq> Notify_settings s \<and> c \<noteq> Notify_close" for g cs
    using that by (induction cs) (auto simp: output_call_made_def split: output_call.split)
  from assms(3) consider
      "out_settings out = out_settings ?out" "socket_open out = socket_open ?out"
      "\<forall>c \<in> set cs. \<forall>s. c \<noteq> Notify_settings s \<and> c \<noteq> Notify_close"
    | "cs = [Notify_settings (out_settings out)]" "socket_open out = socket_open ?out"
    | "cs = [Notify_close]" "\<not> socket_open out"
    unfolding handler_result_def f fst_conv snd_conv by blast
  then show ?thesis
  proof cases
    case 1
    then show ?thesis using set_output_ok [OF ok i flags] quiet by (simp add: output_event_def f)
  next
    case 2
    then show ?thesis
      using settings_changed_ok [OF ok i flags] by (simp add: output_event_def f output_call_made_def)
  next
    case 3
    then show ?thesis
      using output_closed_ok [OF ok i flags] by (simp add: output_event_def f output_call_made_def)
  qed
qed

subsection \<open>What a broadcast does\<close>

lemma write_output_keeps:
  assumes "wf_message m" and "write_output m out = Inr (out', cs)"
  shows "has_settings_notifier out' = has_settings_notifier out"
    "has_close_notifier out' = has_close_notifier out" "out_settings out' = out_settings out"
    "socket_open out' = socket_open out"
proof -
  have "out' = out \<or> (\<exists>bs. (out', cs) = enqueue bs out)"
  proof (cases "socket_open out")
    case True
    have "ebind (client_bytes (out_settings out) m) (\<lambda>bs. Inr (enqueue bs out)) = Inr (out', cs)"
      using write_output_enqueue [OF True assms(1)] assms(2) by simp
    then show ?thesis by (cases "client_bytes (out_settings out) m") (auto dest: sym)
  next
    case False
    then show ?thesis using assms(2) by (simp add: write_output_closed)
  qed
  then show "has_settings_notifier out' = has_settings_notifier out"
    "has_close_notifier out' = has_close_notifier out" "out_settings out' = out_settings out"
    "socket_open out' = socket_open out"
    by (auto simp: enqueue_def split: if_splits)
qed

text \<open>The output after it has been offered a message.\<close>

definition written :: "message \<Rightarrow> attachment \<Rightarrow> attachment" where
  "written m a = a\<lparr>conn_output := fst (projr (write_output m (conn_output a)))\<rparr>"

lemma deliver_Output:
  "deliver_to env (Output i) m (Inr (os, w)) =
    (if isl (write_output m (conn_output (os ! i)))
     then Inl (projl (write_output m (conn_output (os ! i))))
     else Inr (os[i := written m (os ! i)], w))"
  by (cases "write_output m (conn_output (os ! i))") (auto simp: deliver_to_def written_def)

lemma deliver_failed: "foldl (\<lambda>r n. deliver_to env n m r) (Inl e) ns = Inl e"
  by (induction ns) (simp_all add: deliver_to_def)

lemma deliver_all:
  assumes "distinct ns" and "foldl (\<lambda>r n. deliver_to env n m r) (Inr (os, w)) ns = Inr (os', w')"
  shows "length os' = length os \<and> filter_handle w' = filter_handle w \<and>
    (\<forall>i < length os. os' ! i = (if Output i \<in> set ns then written m (os ! i) else os ! i) \<and>
      (Output i \<in> set ns \<longrightarrow> \<not> isl (write_output m (conn_output (os ! i)))))"
  using assms
proof (induction ns arbitrary: os w)
  case (Cons n ns)
  show ?case
  proof (cases n)
    case (Output i)
    show ?thesis
    proof (cases "isl (write_output m (conn_output (os ! i)))")
      case True
      then show ?thesis using Cons.prems(2) by (simp add: Output deliver_Output deliver_failed)
    next
      case False
      let ?os = "os[i := written m (os ! i)]"
      have "length os' = length ?os \<and> filter_handle w' = filter_handle w \<and>
        (\<forall>j < length ?os. os' ! j = (if Output j \<in> set ns then written m (?os ! j) else ?os ! j) \<and>
          (Output j \<in> set ns \<longrightarrow> \<not> isl (write_output m (conn_output (?os ! j)))))"
        by (rule Cons.IH) (use Cons.prems False Output in \<open>simp_all add: deliver_Output\<close>)
      moreover have "?os ! j = os ! j" if "Output j \<in> set ns" for j
        using that Cons.prems(1) Output by (cases "j = i") auto
      moreover have "Output i \<notin> set ns" using Cons.prems(1) Output by simp
      ultimately show ?thesis using False Output by (auto simp: nth_list_update)
    qed
  next
    case Status
    let ?w = "case env of (ok, v, now) \<Rightarrow> status_write ok v now m w"
    have d: "deliver_to env Status m (Inr (os, w)) = Inr (os, ?w)"
      by (cases env) (simp add: deliver_to_def)
    have h: "filter_handle ?w = filter_handle w"
      by (cases env)
         (simp add: status_write_def reset_timeout_def write_status_file_def Let_def split: prod.split)
    show ?thesis using Cons.IH [of os ?w] Cons.prems Status d h by simp
  qed
qed simp

definition accepting_clients :: "message \<Rightarrow> hub \<Rightarrow> target list" where
  "accepting_clients m h =
     map (\<lambda>e. notifier (snd e))
       (filter (\<lambda>e. \<not> deleted (snd e) \<and> accepts (cfilter (snd e)) m) (clients (dist h)))"

definition reaped :: "hub \<Rightarrow> target distributor" where
  "reaped h = (dist h)\<lparr>clients := filter (\<lambda>e. \<not> deleted (snd e)) (clients (dist h))\<rparr>"

lemma foldl_map_arg: "foldl (\<lambda>s e. f (g e) s) s xs = foldl (\<lambda>s n. f n s) s (map g xs)"
  by (induction xs arbitrary: s) simp_all

lemma hub_broadcast_result:
  assumes "hub_ok h"
  shows "hub_broadcast env m h =
    Some (ebind (foldl (\<lambda>r n. deliver_to env n m r) (Inr (outs h, status h)) (accepting_clients m h))
      (\<lambda>(os, w). Inr (h\<lparr>dist := reaped h, outs := os, status := w\<rparr>)))"
proof -
  have "map_ordered (clients (dist h))" using assms by (simp add: hub_ok_def distributor_ok_def)
  from wired.broadcast_delivers [OF this, of env m "Inr (outs h, status h)"] show ?thesis
    by (simp add: hub_broadcast_def reaped_def accepting_clients_def
        foldl_map_arg [of "\<lambda>n s. deliver_to env n m s" "\<lambda>e. notifier (snd e)"])
qed

lemma clients_entry:
  assumes "hub_ok h"
  shows "map_of (clients (dist h)) k = Some c \<longleftrightarrow> (k, c) \<in> set (clients (dist h))"
proof -
  have "map_ordered (clients (dist h))" using assms by (simp add: hub_ok_def distributor_ok_def)
  then show ?thesis using ordered_distinct by (metis map_of_eq_Some_iff)
qed

lemma notifier_determines:
  assumes "hub_ok h" and "(k, c) \<in> set (clients (dist h))" and "(k', c') \<in> set (clients (dist h))"
    and "notifier c = notifier c'"
  shows "k = k'"
proof -
  have "client_known h k c" "client_known h k' c'"
    using assms clients_entry [OF assms(1)] by (simp_all add: hub_ok_def)
  then show ?thesis using assms(4) by (simp add: client_known_def split: target.splits)
qed

lemma accepting_distinct:
  assumes "hub_ok h"
  shows "distinct (accepting_clients m h)"
proof -
  have ord: "map_ordered (clients (dist h))" using assms by (simp add: hub_ok_def distributor_ok_def)
  have "distinct (clients (dist h))" using ordered_distinct [OF ord] by (simp add: distinct_map)
  moreover have "inj_on (\<lambda>e. notifier (snd e)) (set (clients (dist h)))"
  proof (rule inj_onI)
    fix e e' assume e: "e \<in> set (clients (dist h))" "e' \<in> set (clients (dist h))"
      "notifier (snd e) = notifier (snd e')"
    obtain k c k' c' where "e = (k, c)" "e' = (k', c')" by (cases e, cases e')
    with e notifier_determines [OF assms] have "k = k'" by auto
    with e \<open>e = (k, c)\<close> \<open>e' = (k', c')\<close> show "e = e'"
      using clients_entry [OF assms] by (metis option.inject)
  qed
  ultimately show ?thesis
    unfolding accepting_clients_def distinct_map by (auto intro: inj_on_subset)
qed

lemma accepting_output:
  assumes ok: "hub_ok h" and i: "i < length (outs h)"
  shows "Output i \<in> set (accepting_clients m h) \<longleftrightarrow>
    socket_open (conn_output (outs h ! i)) \<and>
    accepts (to_filter (out_settings (conn_output (outs h ! i)))) m"
proof -
  let ?k = "client_handle (outs h ! i)" and ?out = "conn_output (outs h ! i)"
  have s: "served h i" using ok i by (simp add: hub_ok_def)
  have "Output i \<in> set (accepting_clients m h) \<longleftrightarrow>
      (\<exists>k c. map_of (clients (dist h)) k = Some c \<and> notifier c = Output i \<and> \<not> deleted c \<and> accepts (cfilter c) m)"
    unfolding accepting_clients_def clients_entry [OF ok] by force
  also have "\<dots> \<longleftrightarrow>
      (\<exists>c. map_of (clients (dist h)) ?k = Some c \<and> notifier c = Output i \<and> \<not> deleted c \<and> accepts (cfilter c) m)"
  proof -
    have "k = ?k" if "map_of (clients (dist h)) k = Some c" "notifier c = Output i" for k c
    proof -
      have "client_known h k c" using ok that(1) by (simp add: hub_ok_def)
      then show ?thesis using that(2) by (simp add: client_known_def)
    qed
    then show ?thesis by blast
  qed
  also have "\<dots> \<longleftrightarrow> socket_open ?out \<and> accepts (to_filter (out_settings ?out)) m"
    using s by (auto simp: served_def Let_def split: if_splits)
  finally show ?thesis .
qed

text \<open>The outputs a message is for.\<close>

definition subscribed :: "message \<Rightarrow> attachment \<Rightarrow> bool" where
  "subscribed m a \<longleftrightarrow>
     socket_open (conn_output a) \<and> accepts (to_filter (out_settings (conn_output a))) m"

lemma hub_broadcast_outs:
  assumes ok: "hub_ok h" and m: "wf_message m" and b: "hub_broadcast env m h = Some (Inr h')"
  obtains os w where "h' = h\<lparr>dist := reaped h, outs := os, status := w\<rparr>"
    "filter_handle w = filter_handle (status h)" "length os = length (outs h)"
    "\<And>i. i < length (outs h) \<Longrightarrow>
      os ! i = (if subscribed m (outs h ! i) then written m (outs h ! i) else outs h ! i)"
    "\<And>i. i < length (outs h) \<Longrightarrow> subscribed m (outs h ! i) \<Longrightarrow>
      \<not> isl (write_output m (conn_output (outs h ! i)))"
proof -
  let ?r = "foldl (\<lambda>r n. deliver_to env n m r) (Inr (outs h, status h)) (accepting_clients m h)"
  obtain os w where r: "?r = Inr (os, w)" "h' = h\<lparr>dist := reaped h, outs := os, status := w\<rparr>"
    using b hub_broadcast_result [OF ok, of env m] by (auto simp: ebind_Inr_iff)
  from deliver_all [OF accepting_distinct [OF ok] r(1)] show ?thesis
    using that [OF r(2)] by (simp add: accepting_output [OF ok] subscribed_def)
qed

lemma written_keeps:
  assumes "wf_message m" and "\<not> isl (write_output m (conn_output a))"
  shows "client_handle (written m a) = client_handle a" "owner (written m a) = owner a"
    "has_settings_notifier (conn_output (written m a)) = has_settings_notifier (conn_output a)"
    "has_close_notifier (conn_output (written m a)) = has_close_notifier (conn_output a)"
    "out_settings (conn_output (written m a)) = out_settings (conn_output a)"
    "socket_open (conn_output (written m a)) = socket_open (conn_output a)"
proof -
  obtain out cs where "write_output m (conn_output a) = Inr (out, cs)"
    using assms(2) by (cases "write_output m (conn_output a)") auto
  with write_output_keeps [OF assms(1) this]
  show "client_handle (written m a) = client_handle a" "owner (written m a) = owner a"
    "has_settings_notifier (conn_output (written m a)) = has_settings_notifier (conn_output a)"
    "has_close_notifier (conn_output (written m a)) = has_close_notifier (conn_output a)"
    "out_settings (conn_output (written m a)) = out_settings (conn_output a)"
    "socket_open (conn_output (written m a)) = socket_open (conn_output a)"
    by (simp_all add: written_def)
qed

lemma hub_broadcast_ok:
  assumes ok: "hub_ok h" and m: "wf_message m" and b: "hub_broadcast env m h = Some (Inr h')"
  shows "hub_ok h'"
  using assms
proof (rule hub_broadcast_outs)
  fix os w
  assume h': "h' = h\<lparr>dist := reaped h, outs := os, status := w\<rparr>"
    and fh: "filter_handle w = filter_handle (status h)" and len: "length os = length (outs h)"
    and os: "\<And>i. i < length (outs h) \<Longrightarrow>
      os ! i = (if subscribed m (outs h ! i) then written m (outs h ! i) else outs h ! i)"
    and noerr: "\<And>i. i < length (outs h) \<Longrightarrow> subscribed m (outs h ! i) \<Longrightarrow>
      \<not> isl (write_output m (conn_output (outs h ! i)))"
  have keep: "client_handle (os ! i) = client_handle (outs h ! i) \<and> owner (os ! i) = owner (outs h ! i) \<and>
    has_settings_notifier (conn_output (os ! i)) = has_settings_notifier (conn_output (outs h ! i)) \<and>
    has_close_notifier (conn_output (os ! i)) = has_close_notifier (conn_output (outs h ! i)) \<and>
    out_settings (conn_output (os ! i)) = out_settings (conn_output (outs h ! i)) \<and>
    socket_open (conn_output (os ! i)) = socket_open (conn_output (outs h ! i))"
    if "i < length (outs h)" for i
    using written_keeps [OF m noerr [OF that]] os [OF that] by simp
  have ord: "map_ordered (clients (dist h))" using ok by (simp add: hub_ok_def distributor_ok_def)
  have lookup: "map_of (clients (reaped h)) k =
      (case map_of (clients (dist h)) k of Some c \<Rightarrow> if deleted c then None else Some c | None \<Rightarrow> None)" for k
    by (simp add: reaped_def reaped_table [OF ord])
  have nxt: "next_handle (reaped h) = next_handle (dist h)" by (simp add: reaped_def)
  have "distributor_ok (reaped h)" "has_filter_notifier (reaped h)"
    "\<forall>k \<in> fst ` set (clients (reaped h)). k < next_handle (reaped h)"
    using ok by (auto simp: hub_ok_def distributor_ok_def reaped_def ordered_filter)
  moreover have "map client_handle os = map client_handle (outs h)"
    by (rule nth_equalityI) (use len keep in simp_all)
  moreover have "served h' i" if "i < length (outs h)" for i
  proof -
    have "served h i" using ok that by (simp add: hub_ok_def)
    then show ?thesis
      using keep [OF that] by (auto simp: served_def h' lookup nxt Let_def split: option.splits if_splits)
  qed
  moreover have "client_known h' k c" if "map_of (clients (reaped h)) k = Some c" for k c
  proof -
    have "client_known h k c" using ok that by (simp add: hub_ok_def lookup split: option.splits if_splits)
    then show ?thesis using keep len fh by (simp add: client_known_def h' split: target.splits)
  qed
  moreover have "connector_ok h' k" if "k < length (conns h)" for k
  proof -
    have "connector_ok h k" using ok that by (simp add: hub_ok_def)
    then show ?thesis using keep len by (auto simp: connector_ok_def h')
  qed
  moreover have "last_request h' = upstream_filter (reaped h)"
    using ok by (simp add: hub_ok_def h' last_request_def upstream_filter_def reaped_def)
  ultimately show "hub_ok h'" using ok len by (simp add: hub_ok_def h')
qed

text \<open>The status writer becomes a client, and the connectors go their way.\<close>

lemma hub_status_start_ok:
  assumes ok: "hub_ok h" and room: "next_handle (dist h) \<noteq> 0xFFFFFFFF"
    and fresh: "filter_handle (status h) = None"
  shows "hub_ok (hub_status_start h)"
proof -
  obtain k d up where a: "add_client Status status_filter (dist h) = (k, d, up)"
    by (cases "add_client Status status_filter (dist h)") auto
  note t = add_client_table [OF a]
  define w where "w = reset_timeout ((status h)\<lparr>filter_handle := Some k\<rparr>)"
  define g where "g = report_upstream up (h\<lparr>dist := d, status := w\<rparr>)"
  have g: "hub_status_start h = g" by (simp add: hub_status_start_def status_start_def a g_def w_def Let_def)
  have fields: "dist g = d" "outs g = outs h" "conns g = conns h" "status g = w" by (simp_all add: g_def)
  have "wf_filter status_filter" by (simp add: wf_filter_def status_filter_def default_filter_def)
  then have "reports (dist h) (d, up)"
    using add_client_reports [of "dist h" status_filter Status] ok a by (simp add: hub_ok_def)
  note r = reported_in_sync [OF this]
  have h: "distributor_ok (dist h)" "has_filter_notifier (dist h)" "last_request h = upstream_filter (dist h)"
    using ok by (simp_all add: hub_ok_def)
  have less: "k < next_handle d" using handle_next [OF room] t(1,2) by simp
  have served: "served g i" if "i < length (outs h)" for i
  proof -
    have s: "served h i" using ok that by (simp add: hub_ok_def)
    then have "client_handle (outs h ! i) \<noteq> k" using t(1) by (auto simp: served_def Let_def)
    then show ?thesis
      by (intro served_cong [OF s]) (use less t(1) in \<open>simp_all add: fields t(3)\<close>)
  qed
  have known: "client_known g k' c" if "map_of (clients d) k' = Some c" for k' c
  proof (cases "k' = k")
    case True
    then show ?thesis using that t(3) by (auto simp: client_known_def fields w_def reset_timeout_def)
  next
    case False
    then have "client_known h k' c" using ok that t(3) by (simp add: hub_ok_def)
    then show ?thesis using fresh by (simp add: client_known_def fields split: target.splits)
  qed
  have "connector_ok g k'" if "connector_ok h k'" for k'
    by (rule connector_ok_cong [OF that]) (simp_all add: fields)
  moreover have "\<forall>k' \<in> fst ` set (clients d). k' < next_handle d"
  proof -
    have "k' < k" if "k' \<in> fst ` set (clients (dist h))" for k'
      using ok that unfolding t(1) hub_ok_def by blast
    then show ?thesis using t(4) less by (auto intro: less_trans)
  qed
  moreover have "last_request g = upstream_filter d"
    unfolding g_def using r(2) [of "h\<lparr>status := w\<rparr>"] h by (cases up) simp_all
  ultimately show ?thesis
    unfolding g using r(3,4) h served known ok by (simp add: hub_ok_def fields)
qed

lemma on_connector_ok:
  assumes ok: "hub_ok h" and k: "k < length (conns h)"
    and f: "running (f (conns h ! k)) \<Longrightarrow> connector_busy (f (conns h ! k)) \<or>
      (\<exists>i < length (outs h). owner (outs h ! i) = Some k \<and> socket_open (conn_output (outs h ! i)))"
  shows "hub_ok (on_connector k f h)"
proof -
  have "connector_ok (on_connector k f h) j" if "j < length (conns h)" for j
  proof -
    have "connector_ok h j" using ok that by (simp add: hub_ok_def)
    then show ?thesis
      using f k by (cases "j = k") (auto simp: connector_ok_def on_connector_def)
  qed
  moreover have "served (on_connector k f h) i = served h i" for i by (simp add: served_def on_connector_def)
  moreover have "client_known (on_connector k f h) j c = client_known h j c" for j c
    by (simp add: client_known_def on_connector_def split: target.split)
  ultimately show ?thesis using ok by (simp add: hub_ok_def) (simp add: on_connector_def)
qed

subsection \<open>Everything that can happen\<close>

text \<open>
  An event is a handler of the outputs, the listeners, the connectors or the status writer that
  the io service can call. A step is an event, what \<open>main\<close> does, or a message of the input. The
  distributor's handles are 32 bits wide and not checked for reuse, so the steps that take one are
  limited to the first 4294967295.
\<close>

inductive hub_event :: "hub \<Rightarrow> hub \<Rightarrow> bool" where
  accept: "next_handle (dist h) \<noteq> 0xFFFFFFFF \<Longrightarrow> accept_handler r peer (l, h) = Inr (l', h') \<Longrightarrow>
    hub_event h h'"
| resolve: "k < length (conns h) \<Longrightarrow> 0 < c_resolving (conns h ! k) \<Longrightarrow> r \<noteq> Resolve_aborted \<Longrightarrow>
    hub_event h (on_connector k (connector_resolve_handler r) h)"
| connect: "k < length (conns h) \<Longrightarrow> endpoint \<in> set (c_connecting (conns h ! k)) \<Longrightarrow> r \<noteq> Connect_aborted \<Longrightarrow>
    next_handle (dist h) \<noteq> 0xFFFFFFFF \<Longrightarrow> connector_connect_handler endpoint r peer k h = Inr h' \<Longrightarrow>
    hub_event h h'"
| reconnect: "k < length (conns h) \<Longrightarrow> c_reconnect_timer (conns h ! k) \<Longrightarrow>
    hub_event h (on_connector k connector_reconnect_expired h)"
| read: "i < length (outs h) \<Longrightarrow> socket_open (conn_output (outs h ! i)) \<Longrightarrow>
    hub_event h (output_event i (read_handler d) h)"
| flush: "i < length (outs h) \<Longrightarrow> hub_event h (output_event i flush_outbuf h)"
| write_done: "i < length (outs h) \<Longrightarrow> hub_event h (output_event i (write_handler ec) h)"
| status_timer: "status_timer (status h) \<Longrightarrow>
    hub_event h (h\<lparr>status := status_timeout False ok v now (status h)\<rparr>)"

text \<open>
  An event fails when the peer of a new connection has gone before it can be asked for its address;
  the program ends.
\<close>

inductive hub_fails :: "hub \<Rightarrow> failure \<Rightarrow> bool" where
  accept: "accept_handler r peer (l, h) = Inl e \<Longrightarrow> hub_fails h e"
| connect: "k < length (conns h) \<Longrightarrow> endpoint \<in> set (c_connecting (conns h ! k)) \<Longrightarrow>
    connector_connect_handler endpoint r peer k h = Inl e \<Longrightarrow> hub_fails h e"

definition add_connector :: "settings \<Rightarrow> hub \<Rightarrow> hub" where
  "add_connector s h = h\<lparr>conns := conns h @ [new_connector s]\<rparr>"

inductive hub_step :: "hub \<Rightarrow> hub \<Rightarrow> bool" where
  event: "hub_event h h' \<Longrightarrow> hub_step h h'"
| new_connection: "hub_step h (add_connector s h)"
| start: "k < length (conns h) \<Longrightarrow> hub_step h (on_connector k connector_start h)"
| close: "k < length (conns h) \<Longrightarrow> hub_step h (on_connector k connector_close h)"
| status_on: "next_handle (dist h) \<noteq> 0xFFFFFFFF \<Longrightarrow> filter_handle (status h) = None \<Longrightarrow>
    hub_step h (hub_status_start h)"
| message: "wf_message m \<Longrightarrow> hub_broadcast env m h = Some (Inr h') \<Longrightarrow> hub_step h h'"

inductive hub_reachable :: "hub \<Rightarrow> bool" where
  start: "hub_reachable new_hub"
| step: "hub_reachable h \<Longrightarrow> hub_step h h' \<Longrightarrow> hub_reachable h'"

lemma connector_handlers_busy:
  "running (connector_start c) \<Longrightarrow> connector_busy (connector_start c)"
  "\<not> running (connector_close c)"
  "r \<noteq> Resolve_aborted \<Longrightarrow> running (connector_resolve_handler r c) \<Longrightarrow>
    connector_busy (connector_resolve_handler r c)"
  "running (connector_reconnect_expired c) \<Longrightarrow> connector_busy (connector_reconnect_expired c)"
  "running (connector_try_next c) \<Longrightarrow> connector_busy (connector_try_next c)"
proof -
  show "running (connector_start c) \<Longrightarrow> connector_busy (connector_start c)"
    "\<not> running (connector_close c)"
    "running (connector_reconnect_expired c) \<Longrightarrow> connector_busy (connector_reconnect_expired c)"
    by (auto simp: connector_start_def connector_close_def connector_reconnect_expired_def
        resolve_and_connect_def connector_busy_def)
  have nxt: "running (connector_try_next c) \<Longrightarrow> connector_busy (connector_try_next c)" for c
    by (auto simp: connector_try_next_def schedule_reconnect_def connector_busy_def split: list.splits if_splits)
  then show "running (connector_try_next c) \<Longrightarrow> connector_busy (connector_try_next c)" .
  show "running (connector_resolve_handler r c) \<Longrightarrow> connector_busy (connector_resolve_handler r c)"
    if "r \<noteq> Resolve_aborted"
    using that nxt
    by (cases r) (auto simp: connector_resolve_handler_def schedule_reconnect_def connector_busy_def Let_def)
qed

lemma attach_on_connector:
  "attach_output (new_socket_output s) s own (on_connector k f h) = on_connector k f (attach_output (new_socket_output s) s own h)"
  by (simp add: attach_output_def on_connector_def report_upstream_def Let_def split: prod.split option.split)

lemma attach_output_last:
  "length (outs (attach_output (new_socket_output s) s own h)) = Suc (length (outs h)) \<and>
   owner (outs (attach_output (new_socket_output s) s own h) ! length (outs h)) = own \<and>
   socket_open (conn_output (outs (attach_output (new_socket_output s) s own h) ! length (outs h))) \<and>
   conns (attach_output (new_socket_output s) s own h) = conns h"
  by (simp add: attach_output_def new_socket_output_def Let_def split: prod.split)

lemma on_connector_twice: "k < length (conns h) \<Longrightarrow>
    on_connector k f (on_connector k g h) = on_connector k (\<lambda>c. f (g c)) h"
  by (simp add: on_connector_def)

lemma add_output_Inr:
  "add_output peer s own h = Inr h' \<longleftrightarrow> peer \<and> h' = attach_output (new_socket_output s) s own h"
  by (auto simp: add_output_def create_output_def)

lemma connector_connect_handler_ok:
  assumes ok: "hub_ok h" and k: "k < length (conns h)" and r: "r \<noteq> Connect_aborted"
    and room: "next_handle (dist h) \<noteq> 0xFFFFFFFF"
    and h': "connector_connect_handler endpoint r peer k h = Inr h'"
  shows "hub_ok h'"
proof (cases r)
  case Connected
  let ?g = "attach_output (new_socket_output (c_settings (conns h ! k))) (c_settings (conns h ! k)) (Some k) h"
  let ?f = "\<lambda>c. c\<lparr>c_connecting := []\<rparr>"
  note last = attach_output_last [of "c_settings (conns h ! k)" "Some k" h]
  have "conns (on_connector k g h) ! k = g (conns h ! k)" for g using k by (simp add: on_connector_def)
  then have "h' = attach_output (new_socket_output (c_settings (conns h ! k))) (c_settings (conns h ! k)) (Some k)
      (on_connector k ?f h)"
    using Connected k h'
    by (simp add: connector_connect_handler_def add_output_Inr on_connector_twice Let_def)
  then have "h' = on_connector k ?f ?g" by (simp only: attach_on_connector)
  moreover have "hub_ok (on_connector k ?f ?g)"
  proof (rule on_connector_ok)
    show "hub_ok ?g" by (rule attach_output_ok [OF ok room])
    show "k < length (conns ?g)" using k last by simp
    show "connector_busy ((conns ?g ! k)\<lparr>c_connecting := []\<rparr>) \<or> (\<exists>i<length (outs ?g).
        owner (outs ?g ! i) = Some k \<and> socket_open (conn_output (outs ?g ! i)))"
      using last by (intro disjI2 exI [of _ "length (outs h)"]) simp
  qed
  ultimately show ?thesis by simp
next
  case Connect_failed
  let ?f = "\<lambda>c. connector_try_next (c\<lparr>c_connecting := []\<rparr>)"
  have "h' = on_connector k ?f h"
    using Connect_failed k h' by (simp add: connector_connect_handler_def on_connector_twice Let_def)
  then show ?thesis using on_connector_ok [OF ok k, of ?f] connector_handlers_busy(5) by simp
qed (use r in simp)

lemma hub_event_ok:
  assumes "hub_event h h'" and ok: "hub_ok h"
  shows "hub_ok h'"
  using assms(1)
proof cases
  case (accept r peer l l')
  then show ?thesis
    using attach_output_ok [OF ok accept(1), of "l_settings l" None] ok
    by (cases r) (auto simp: accept_handler_def add_output_Inr ebind_Inr_iff Let_def)
next
  case (resolve k r)
  then show ?thesis using on_connector_ok [OF ok] connector_handlers_busy(3) by blast
next
  case (connect k endpoint r peer)
  then show ?thesis using connector_connect_handler_ok [OF ok] by blast
next
  case (reconnect k)
  then show ?thesis using on_connector_ok [OF ok] connector_handlers_busy(4) by blast
next
  case (read i d)
  have "served h i" using ok read(2) by (simp add: hub_ok_def)
  then show ?thesis
    using output_event_ok [OF ok read(2)] read_handler_result read(1) by (simp add: served_def Let_def)
next
  case (flush i)
  then show ?thesis using output_event_ok [OF ok] flush_outbuf_result by blast
next
  case (write_done i ec)
  have "served h i" using ok write_done(2) by (simp add: hub_ok_def)
  then show ?thesis
    using output_event_ok [OF ok write_done(2)] write_handler_result write_done(1)
    by (simp add: served_def Let_def)
next
  case (status_timer ok' v now)
  have "filter_handle (status h') = filter_handle (status h)"
    by (simp add: status_timer status_timeout_def reset_timeout_def write_status_file_def Let_def)
  then have "client_known h' k c = client_known h k c" for k c
    using status_timer(1) by (simp add: client_known_def split: target.split)
  moreover have "served h' i = served h i" "connector_ok h' k = connector_ok h k" for i k
    by (simp_all add: status_timer(1) served_def connector_ok_def)
  ultimately show ?thesis using ok status_timer(1) by (simp add: hub_ok_def)
qed

lemma hub_fails_system_error: "hub_fails h e \<Longrightarrow> e = System_error"
  by (erule hub_fails.cases)
     (auto simp: accept_handler_def connector_connect_handler_def add_output_def create_output_def Let_def
       split: accept_result.splits connect_result.splits if_splits)

lemma hub_step_ok:
  assumes "hub_step h h'" and ok: "hub_ok h"
  shows "hub_ok h'"
  using assms(1)
proof cases
  case event
  then show ?thesis by (rule hub_event_ok [OF _ ok])
next
  case (new_connection s)
  have h': "h' = h\<lparr>conns := conns h @ [new_connector s]\<rparr>" using new_connection by (simp add: add_connector_def)
  have "served h' i = served h i" for i using h' by (simp add: served_def)
  moreover have "client_known h' k c = client_known h k c" for k c
    using h' by (simp add: client_known_def split: target.split)
  moreover have "connector_ok h' k" if "k < Suc (length (conns h))" for k
    using ok that h'
    by (auto simp: hub_ok_def connector_ok_def nth_append new_connector_def less_Suc_eq)
  ultimately show ?thesis using ok h' by (simp add: hub_ok_def)
next
  case (start k)
  then show ?thesis using on_connector_ok [OF ok] connector_handlers_busy(1) by blast
next
  case (close k)
  then show ?thesis using on_connector_ok [OF ok] connector_handlers_busy(2) by blast
next
  case status_on
  then show ?thesis using hub_status_start_ok [OF ok] by blast
next
  case (message m env)
  then show ?thesis using hub_broadcast_ok [OF ok] by blast
qed

text \<open>The calls of the filter notifier are only ever added to.\<close>

lemma report_grows: "\<exists>new. requests (report_upstream up h) = requests h @ new"
  by (cases up) (simp_all add: report_upstream_def)

lemma attach_grows: "\<exists>new. requests (attach_output (new_socket_output s) s own h) = requests h @ new"
proof -
  obtain k d up where a: "add_client (Output (length (outs h))) (to_filter s) (dist h) = (k, d, up)"
    by (cases "add_client (Output (length (outs h))) (to_filter s) (dist h)") auto
  obtain os where "attach_output (new_socket_output s) s own h = report_upstream up (h\<lparr>dist := d, outs := os\<rparr>)"
    by (simp add: attach_output_def a Let_def)
  then show ?thesis using report_grows [of up "h\<lparr>dist := d, outs := os\<rparr>"] by simp
qed

lemma call_grows: "\<exists>new. requests (output_call_made i h c) = requests h @ new"
proof -
  have r: "\<exists>new. requests (report_upstream up (h\<lparr>dist := d\<rparr>)) = requests h @ new" for up d
    using report_grows [of up "h\<lparr>dist := d\<rparr>"] by simp
  show ?thesis
    by (cases c)
      (auto simp: output_call_made_def settings_changed_def output_closed_def r Let_def
        split: prod.split option.split)
qed

lemma calls_grow: "\<exists>new. requests (foldl (output_call_made i) h cs) = requests h @ new"
proof (induction cs arbitrary: h)
  case (Cons c cs)
  obtain a b where "requests (output_call_made i h c) = requests h @ a"
    "requests (foldl (output_call_made i) (output_call_made i h c) cs) = requests (output_call_made i h c) @ b"
    using call_grows Cons.IH by meson
  then show ?case by (intro exI [of _ "a @ b"]) simp
qed simp

lemma output_event_grows: "\<exists>new. requests (output_event i f h) = requests h @ new"
proof -
  obtain out cs where f: "f (conn_output (outs h ! i)) = (out, cs)" by (cases "f (conn_output (outs h ! i))")
  show ?thesis using calls_grow [of i "set_output i out h" cs] by (simp add: output_event_def f set_output_def)
qed

lemma on_connector_requests [simp]: "requests (on_connector k f h) = requests h"
  by (simp add: on_connector_def)

lemma hub_event_grows:
  assumes "hub_event h h'"
  shows "\<exists>new. requests h' = requests h @ new"
  using assms
proof cases
  case (accept r peer l l')
  then show ?thesis
    using attach_grows [of "l_settings l" None h]
    by (cases r) (auto simp: accept_handler_def add_output_Inr ebind_Inr_iff Let_def)
next
  case (connect k endpoint r peer)
  have "\<exists>new. requests (attach_output (new_socket_output s) s own (on_connector k f (on_connector k g h))) = requests h @ new" for s own f g
    using attach_grows [of s own "on_connector k f (on_connector k g h)"] by simp
  then show ?thesis
    using connect by (cases r) (auto simp: connector_connect_handler_def add_output_Inr Let_def)
qed (simp_all add: output_event_grows)

lemma hub_reachable_ok: "hub_reachable h \<Longrightarrow> hub_ok h"
proof (induction rule: hub_reachable.induct)
  case start
  show ?case
    by (simp add: hub_ok_def new_hub_def set_filter_notifier_def new_distributor_def distributor_ok_def
        last_request_def upstream_filter_def live_filters_def)
next
  case (step h h')
  then show ?case using hub_step_ok by blast
qed

subsection \<open>The properties of the wiring\<close>

text \<open>A hub with one client that asks for Mode A/C.\<close>

definition one_output :: hub where
  "one_output = attach_output (new_socket_output (settings_of_string ''J'')) (settings_of_string ''J'') None new_hub"

lemma one_output_reachable: "hub_reachable one_output"
proof -
  have "hub_step new_hub one_output"
    by (rule hub_step.event, rule hub_event.accept [where r = Accepted and peer = True and l = "new_listener (settings_of_string ''J'')"])
      (simp_all add: accept_handler_def add_output_def create_output_def new_listener_def new_hub_def set_filter_notifier_def
        new_distributor_def one_output_def)
  then show ?thesis by (rule hub_reachable.step [OF hub_reachable.start])
qed

lemma deliver_fails:
  assumes "distinct ns" and "foldl (\<lambda>r n. deliver_to env n m r) (Inr (os, w)) ns = Inl e"
  shows "\<exists>i. Output i \<in> set ns \<and> write_output m (conn_output (os ! i)) = Inl e"
  using assms
proof (induction ns arbitrary: os w)
  case (Cons n ns)
  show ?case
  proof (cases n)
    case (Output i)
    show ?thesis
    proof (cases "write_output m (conn_output (os ! i))")
      case (Inl e')
      then show ?thesis using Cons.prems(2) by (auto simp: Output deliver_Output deliver_failed)
    next
      case (Inr r)
      then have "\<exists>j. Output j \<in> set ns \<and>
          write_output m (conn_output (os[i := written m (os ! i)] ! j)) = Inl e"
        by (intro Cons.IH [where w = w]) (use Cons.prems Output in \<open>simp_all add: deliver_Output\<close>)
      then obtain j where "Output j \<in> set ns"
        "write_output m (conn_output (os[i := written m (os ! i)] ! j)) = Inl e" by blast
      moreover from this have "j \<noteq> i" using Cons.prems(1) Output by auto
      ultimately show ?thesis by auto
    qed
  next
    case Status
    then show ?thesis
      using Cons by (cases env) (auto simp: deliver_to_def)
  qed
qed simp

lemma write_subscribed:
  assumes "subscribed m a" and "wf_message m"
  shows "write_output m (conn_output a) =
    ebind (client_bytes (out_settings (conn_output a)) m) (\<lambda>bs. Inr (enqueue bs (conn_output a)))"
  using assms by (simp add: subscribed_def write_output_enqueue)

text \<open>A broadcast fails only with the failure of an output that takes the message.\<close>

lemma hub_broadcast_fails:
  assumes ok: "hub_ok h" and m: "wf_message m" and b: "hub_broadcast env m h = Some (Inl e)"
  shows "\<exists>i < length (outs h). subscribed m (outs h ! i) \<and>
    client_bytes (out_settings (conn_output (outs h ! i))) m = Inl e"
proof -
  have "foldl (\<lambda>r n. deliver_to env n m r) (Inr (outs h, status h)) (accepting_clients m h) = Inl e"
    using b hub_broadcast_result [OF ok, of env m] by (auto simp: ebind_def split: sum.splits)
  from deliver_fails [OF accepting_distinct [OF ok] this] obtain i
    where i: "Output i \<in> set (accepting_clients m h)" "write_output m (conn_output (outs h ! i)) = Inl e" by blast
  have "i < length (outs h)"
  proof -
    obtain k c where "map_of (clients (dist h)) k = Some c" "notifier c = Output i"
      using i(1) clients_entry [OF ok] by (force simp: accepting_clients_def)
    moreover from this have "client_known h k c" using ok by (simp add: hub_ok_def)
    ultimately show ?thesis by (simp add: client_known_def)
  qed
  moreover from this have s: "subscribed m (outs h ! i)"
    using accepting_output [OF ok] i(1) by (simp add: subscribed_def)
  moreover have "client_bytes (out_settings (conn_output (outs h ! i))) m = Inl e"
    using i(2) write_subscribed [OF s m]
    by (cases "client_bytes (out_settings (conn_output (outs h ! i))) m") simp_all
  ultimately show ?thesis by blast
qed

lemma hub_broadcast_delivers:
  assumes ok: "hub_ok h" and m: "wf_message m"
  shows "\<exists>r. hub_broadcast env m h = Some r \<and>
    (case r of
       Inr h' \<Rightarrow> length (outs h') = length (outs h) \<and> conns h' = conns h \<and> requests h' = requests h \<and>
         (\<forall>i < length (outs h).
            if subscribed m (outs h ! i)
            then (\<exists>bs. client_bytes (out_settings (conn_output (outs h ! i))) m = Inr bs \<and>
              outs h' ! i = (outs h ! i)\<lparr>conn_output := fst (enqueue bs (conn_output (outs h ! i)))\<rparr>)
            else outs h' ! i = outs h ! i)
     | Inl e \<Rightarrow> \<exists>i < length (outs h). subscribed m (outs h ! i) \<and>
         client_bytes (out_settings (conn_output (outs h ! i))) m = Inl e)"
proof -
  obtain r where b: "hub_broadcast env m h = Some r" using hub_broadcast_result [OF ok] by blast
  show ?thesis
  proof (cases r)
    case (Inl e)
    then show ?thesis using b hub_broadcast_fails [OF ok m, of env e] by auto
  next
    case (Inr h')
    from hub_broadcast_outs [OF ok m b [unfolded Inr]] obtain os w
      where h': "h' = h\<lparr>dist := reaped h, outs := os, status := w\<rparr>" "length os = length (outs h)"
        and os: "\<And>i. i < length (outs h) \<Longrightarrow>
          os ! i = (if subscribed m (outs h ! i) then written m (outs h ! i) else outs h ! i)"
        and fine: "\<And>i. i < length (outs h) \<Longrightarrow> subscribed m (outs h ! i) \<Longrightarrow>
          \<not> isl (write_output m (conn_output (outs h ! i)))"
      by blast
    have "\<exists>bs. client_bytes (out_settings (conn_output (outs h ! i))) m = Inr bs \<and>
        os ! i = (outs h ! i)\<lparr>conn_output := fst (enqueue bs (conn_output (outs h ! i)))\<rparr>"
      if "i < length (outs h)" "subscribed m (outs h ! i)" for i
      using fine [OF that] write_subscribed [OF that(2) m] os that
      by (cases "client_bytes (out_settings (conn_output (outs h ! i))) m") (simp_all add: written_def)
    then show ?thesis using b Inr h' os by auto
  qed
qed

text \<open>
  C8: A message reaches the outputs that want it and only them: if each open output whose
  settings accept it can encode it, the message's bytes in the output's own format are appended
  to the output's buffer and every other output is left alone; otherwise the program stops with the
  failure of one of them. The loop of the distributor always ends.\<close>

theorem hub_delivers:
  assumes "hub_reachable h" and "wf_message m"
  shows "\<exists>r. hub_broadcast env m h = Some r \<and>
    (case r of
       Inr h' \<Rightarrow> length (outs h') = length (outs h) \<and> conns h' = conns h \<and> requests h' = requests h \<and>
         (\<forall>i < length (outs h).
            if subscribed m (outs h ! i)
            then (\<exists>bs. client_bytes (out_settings (conn_output (outs h ! i))) m = Inr bs \<and>
              outs h' ! i = (outs h ! i)\<lparr>conn_output := fst (enqueue bs (conn_output (outs h ! i)))\<rparr>)
            else outs h' ! i = outs h ! i)
     | Inl e \<Rightarrow> \<exists>i < length (outs h). subscribed m (outs h ! i) \<and>
         client_bytes (out_settings (conn_output (outs h ! i))) m = Inl e)"
  by (rule hub_broadcast_delivers [OF hub_reachable_ok [OF assms(1)] assms(2)])

lemma hub_delivers_witness:
  "\<exists>h'. hub_broadcast (True, Some (True, RADARCAPE), 0) (projr (make_message MODE_AC TWELVEMEG 0 0 [0, 1]))
      one_output = Some (Inr h') \<and>
    outbuf (conn_output (outs h' ! 0)) = Some [0x1A, 0x31, 0, 0, 0, 0, 0, 0, 0, 0, 1]"
proof -
  let ?m = "projr (make_message MODE_AC TWELVEMEG 0 0 [0, 1])" and ?a = "outs one_output ! 0"
  have m: "wf_message ?m" by code_simp
  have n: "length (outs one_output) = 1"
    by (simp add: one_output_def attach_output_last [THEN conjunct1]) (simp add: new_hub_def)
  have s: "subscribed ?m ?a" by code_simp
  have b: "client_bytes (out_settings (conn_output ?a)) ?m =
      Inr [0x1A, 0x31, 0, 0, 0, 0, 0, 0, 0, 0, 1]" by code_simp
  have o: "outbuf (fst (enqueue [0x1A, 0x31, 0, 0, 0, 0, 0, 0, 0, 0, 1] (conn_output ?a))) =
      Some [0x1A, 0x31, 0, 0, 0, 0, 0, 0, 0, 0, 1]" by code_simp
  from hub_delivers [OF one_output_reachable m, of "(True, Some (True, RADARCAPE), 0)"] show ?thesis
    using n s b o by (elim exE conjE) (simp split: sum.split_asm)
qed

end
