(* ===== verification/Options.thy ===== *)
theory Options
  imports BeastSettings
begin

section \<open>The command line options (splitter_main.cc)\<close>

text \<open>
  The validators of the options with structured arguments. They rest on a regular expression
  library, whose matching function is an argument here; the locale \<open>regex_library\<close> states what
  its documentation promises, and a backtracking matcher is shown to keep it.
\<close>

subsection \<open>Regular expressions\<close>

text \<open>
  What the expressions in the code are made of: a character of a class, one or more and any
  number of them, concatenation, an optional part and a capturing group.
\<close>

datatype regex =
    One "char \<Rightarrow> bool"
  | Plus "char \<Rightarrow> bool"
  | Star "char \<Rightarrow> bool"
  | Cat regex regex
  | Maybe regex
  | Capture regex

fun groups :: "regex \<Rightarrow> nat" where
  "groups (Cat a b) = groups a + groups b"
| "groups (Maybe a) = groups a"
| "groups (Capture a) = Suc (groups a)"
| "groups _ = 0"

text \<open>The strings an expression matches, with what its groups captured; a group not used is empty.\<close>

inductive denotes :: "regex \<Rightarrow> string \<Rightarrow> string list \<Rightarrow> bool" where
  one: "P c \<Longrightarrow> denotes (One P) [c] []"
| plus: "w \<noteq> [] \<Longrightarrow> list_all P w \<Longrightarrow> denotes (Plus P) w []"
| star: "list_all P w \<Longrightarrow> denotes (Star P) w []"
| cat: "denotes a v gs \<Longrightarrow> denotes b w hs \<Longrightarrow> denotes (Cat a b) (v @ w) (gs @ hs)"
| present: "denotes a w gs \<Longrightarrow> denotes (Maybe a) w gs"
| absent: "denotes (Maybe a) [] (replicate (groups a) [])"
| capture: "denotes a w gs \<Longrightarrow> denotes (Capture a) w (w # gs)"

inductive_simps denotes_simps [simp]:
  "denotes (One P) w gs" "denotes (Plus P) w gs" "denotes (Star P) w gs" "denotes (Cat a b) w gs"
  "denotes (Maybe a) w gs" "denotes (Capture a) w gs"

text \<open>A match of the whole string, with the captures, is found if there is one.\<close>

locale regex_library =
  fixes regex_match :: "regex \<Rightarrow> string \<Rightarrow> string list option"
  assumes match_denotes: "regex_match r s = Some gs \<Longrightarrow> denotes r s gs"
    and match_found: "denotes r s gs \<Longrightarrow> regex_match r s \<noteq> None"
begin

text \<open>An expression that captures in only one way matches as its language says.\<close>

lemma match_unique:
  assumes "\<And>gs hs. denotes r s gs \<Longrightarrow> denotes r s hs \<Longrightarrow> gs = hs"
  shows "regex_match r s = Some gs \<longleftrightarrow> denotes r s gs"
  using assms match_denotes [of r s] match_found [of r s] by (cases "regex_match r s") auto

end

subsection \<open>A matcher\<close>

text \<open>All ways to match a prefix, in the order a backtracking matcher tries them.\<close>

fun run :: "regex \<Rightarrow> string \<Rightarrow> (string list \<times> string) list" where
  "run (One P) s = (case s of [] \<Rightarrow> [] | c # s' \<Rightarrow> if P c then [([], s')] else [])"
| "run (Plus P) s = map (\<lambda>n. ([], drop n s)) (rev [1..<Suc (length (takeWhile P s))])"
| "run (Star P) s = map (\<lambda>n. ([], drop n s)) (rev [0..<Suc (length (takeWhile P s))])"
| "run (Cat a b) s =
     concat (map (\<lambda>(gs, s'). map (\<lambda>(hs, s''). (gs @ hs, s'')) (run b s')) (run a s))"
| "run (Maybe a) s = run a s @ [(replicate (groups a) [], s)]"
| "run (Capture a) s = map (\<lambda>(gs, s'). (take (length s - length s') s # gs, s')) (run a s)"

definition backtrack_match :: "regex \<Rightarrow> string \<Rightarrow> string list option" where
  "backtrack_match r s = map_option fst (find (\<lambda>(gs, s'). s' = []) (run r s))"

lemma takeWhile_prefixes:
  "n \<le> length (takeWhile P s) \<longleftrightarrow> (\<exists>w s'. s = w @ s' \<and> length w = n \<and> list_all P w)"
proof
  assume n: "n \<le> length (takeWhile P s)"
  have "take n s = take n (takeWhile P s)"
    using n by (metis takeWhile_dropWhile_id take_append diff_is_0_eq take_0 append_Nil2)
  then have "list_all P (take n s)" by (auto simp: list_all_iff dest!: in_set_takeD set_takeWhileD)
  moreover have "length (take n s) = n" using n length_takeWhile_le [of P s] by simp
  ultimately show "\<exists>w s'. s = w @ s' \<and> length w = n \<and> list_all P w"
    by (metis append_take_drop_id)
next
  assume "\<exists>w s'. s = w @ s' \<and> length w = n \<and> list_all P w"
  then show "n \<le> length (takeWhile P s)" by (auto simp: list_all_iff takeWhile_append2)
qed

lemma prefix_runs:
  "(\<exists>n \<in> A. n \<le> length (takeWhile P s) \<and> s' = drop n s) \<longleftrightarrow>
    (\<exists>w. s = w @ s' \<and> length w \<in> A \<and> list_all P w)"
  unfolding takeWhile_prefixes by force

lemma run_repeat:
  "(gs, s') \<in> set (map (\<lambda>n. ([], drop n s)) (rev [i..<Suc (length (takeWhile P s))])) \<longleftrightarrow>
    gs = [] \<and> (\<exists>w. s = w @ s' \<and> length w \<in> {i..} \<and> list_all P w)"
  unfolding prefix_runs [symmetric] by (auto simp: image_iff less_Suc_eq_le simp del: upt_Suc)

lemma run_iff: "(gs, s') \<in> set (run r s) \<longleftrightarrow> (\<exists>w. s = w @ s' \<and> denotes r w gs)"
proof (induction r arbitrary: s s' gs)
  case (Plus P)
  show ?case unfolding run.simps run_repeat by (auto simp: Suc_le_eq)
next
  case (Star P)
  show ?case unfolding run.simps run_repeat by auto
next
  case (Capture r)
  have "(gs, s') \<in> set (run (Capture r) s) \<longleftrightarrow>
      (\<exists>hs. (hs, s') \<in> set (run r s) \<and> gs = take (length s - length s') s # hs)"
    by force
  then show ?case unfolding Capture.IH by auto
next
  case (Cat a b)
  have "(gs, s') \<in> set (run (Cat a b) s) \<longleftrightarrow>
      (\<exists>as t bs. (as, t) \<in> set (run a s) \<and> (bs, s') \<in> set (run b t) \<and> gs = as @ bs)"
    by force
  also have "\<dots> \<longleftrightarrow> (\<exists>as v w bs. s = (v @ w) @ s' \<and> denotes a v as \<and> denotes b w bs \<and> gs = as @ bs)"
    unfolding Cat.IH append_assoc by blast
  also have "\<dots> \<longleftrightarrow> (\<exists>w. s = w @ s' \<and> denotes (Cat a b) w gs)"
    unfolding denotes_simps by blast
  finally show ?case .
next
  case (One P)
  show ?case by (cases s) auto
next
  case (Maybe r)
  show ?case unfolding run.simps set_append Un_iff Maybe.IH denotes_simps by auto
qed

interpretation backtrack: regex_library backtrack_match
proof
  show "denotes r s gs" if m: "backtrack_match r s = Some gs" for r s gs
  proof -
    obtain e where "find (\<lambda>(gs, s'). s' = []) (run r s) = Some e" "gs = fst e"
      using m unfolding backtrack_match_def map_option_eq_Some by blast
    then have "e \<in> set (run r s)" "snd e = []" by (auto simp: find_Some_iff in_set_conv_nth)
    moreover from this have "e = (gs, [])" using \<open>gs = fst e\<close> by (simp add: prod_eq_iff)
    ultimately have "(gs, []) \<in> set (run r s)" by simp
    then show ?thesis by (simp add: run_iff)
  qed
  show "backtrack_match r s \<noteq> None" if "denotes r s gs" for r s gs
    using that run_iff [of gs "[]" r s] by (auto simp: backtrack_match_def find_None_iff)
qed

subsection \<open>The validators\<close>

text \<open>
  The argument is the single string the option was given; that there is only one and that the
  option occurs once is checked by the library. \<open>None\<close> is an \<open>invalid_option_value\<close>.
\<close>

record net_option =
  net_host :: string
  net_port :: string

record output_option =
  o_host :: string
  o_port :: string
  o_settings :: settings

definition no_colon :: "char \<Rightarrow> bool" where
  "no_colon c \<longleftrightarrow> c \<noteq> CHR '':''"

definition decimal :: "char \<Rightarrow> bool" where
  "decimal c \<longleftrightarrow> c \<in> set ''0123456789''"

definition letter :: "char \<Rightarrow> bool" where
  "letter c \<longleftrightarrow> c \<in> set ''abcdefghijklmnopqrstuvwxyzABCDEFGHIJKLMNOPQRSTUVWXYZ''"

definition net_regex :: regex where
  "net_regex = Cat (Capture (Plus no_colon)) (Cat (One (\<lambda>c. c = CHR '':'')) (Capture (Plus decimal)))"

definition connect_regex :: regex where
  "connect_regex =
     Cat (Capture (Plus no_colon)) (Cat (One (\<lambda>c. c = CHR '':'')) (Cat (Capture (Plus decimal))
       (Maybe (Cat (One (\<lambda>c. c = CHR '':'')) (Capture (Plus letter))))))"

definition listen_regex :: regex where
  "listen_regex =
     Cat (Maybe (Cat (Capture (Plus no_colon)) (One (\<lambda>c. c = CHR '':'')))) (Cat (Capture (Plus decimal))
       (Maybe (Cat (One (\<lambda>c. c = CHR '':'')) (Capture (Plus letter)))))"

definition force_letter :: "char \<Rightarrow> bool" where
  "force_letter c \<longleftrightarrow> c \<in> set ''cdefghijbrvCDEFGHIJBRV''"

definition force_regex :: regex where
  "force_regex = Star force_letter"

type_synonym matcher = "regex \<Rightarrow> string \<Rightarrow> string list option"

definition validate_net :: "matcher \<Rightarrow> string \<Rightarrow> net_option option" where
  "validate_net regex_match s =
     map_option (\<lambda>match. \<lparr>net_host = match ! 0, net_port = match ! 1\<rparr>) (regex_match net_regex s)"

definition validate_connect :: "matcher \<Rightarrow> string \<Rightarrow> output_option option" where
  "validate_connect regex_match s =
     map_option (\<lambda>match. \<lparr>o_host = match ! 0, o_port = match ! 1,
       o_settings = settings_of_string (match ! 2)\<rparr>) (regex_match connect_regex s)"

definition validate_listen :: "matcher \<Rightarrow> string \<Rightarrow> output_option option" where
  "validate_listen regex_match s =
     map_option (\<lambda>match. \<lparr>o_host = match ! 0, o_port = match ! 1,
       o_settings = settings_of_string (match ! 2)\<rparr>) (regex_match listen_regex s)"

definition validate_force :: "matcher \<Rightarrow> string \<Rightarrow> settings option" where
  "validate_force regex_match s =
     (if regex_match force_regex s \<noteq> None then Some (settings_of_string s) else None)"

subsection \<open>What they accept\<close>

text \<open>The text of an option: the host, the port and the settings, the first and the last optional.\<close>

definition option_text :: "string \<Rightarrow> string \<Rightarrow> string \<Rightarrow> string" where
  "option_text h p t = (if h = [] then [] else h @ '':'') @ p @ (if t = [] then [] else '':'' @ t)"

definition option_parts :: "string \<Rightarrow> string \<Rightarrow> string \<Rightarrow> bool" where
  "option_parts h p t \<longleftrightarrow> list_all no_colon h \<and> p \<noteq> [] \<and> list_all decimal p \<and> list_all letter t"

lemma decimal_no_colon: "decimal c \<Longrightarrow> no_colon c"
  by (auto simp: decimal_def no_colon_def)

lemma letter_no_colon: "letter c \<Longrightarrow> no_colon c"
  by (auto simp: letter_def no_colon_def)

lemma letter_not_decimal: "letter c \<Longrightarrow> \<not> decimal c"
  by (auto simp: letter_def decimal_def)

text \<open>The fields between the colons determine the parts.\<close>

fun fields :: "string \<Rightarrow> string list" where
  "fields [] = [[]]"
| "fields (c # s) =
     (if no_colon c then (case fields s of f # fs \<Rightarrow> (c # f) # fs | [] \<Rightarrow> [[c]]) else [] # fields s)"

lemma fields_plain: "list_all no_colon s \<Longrightarrow> fields s = [s]"
  by (induction s) simp_all

lemma fields_colon: "list_all no_colon s \<Longrightarrow> fields (s @ CHR '':'' # t) = s # fields t"
  by (induction s) (simp_all add: no_colon_def)

lemma fields_option:
  assumes "option_parts h p t"
  shows "fields (option_text h p t) = (if h = [] then [] else [h]) @ [p] @ (if t = [] then [] else [t])"
proof -
  have "list_all no_colon h" "list_all no_colon p" "list_all no_colon t"
    using assms decimal_no_colon letter_no_colon by (auto simp: option_parts_def list_all_iff)
  then show ?thesis by (simp add: option_text_def fields_plain fields_colon)
qed

lemma option_parts_unique:
  assumes "option_parts h p t" and "option_parts h' p' t'" and "option_text h p t = option_text h' p' t'"
  shows "h = h' \<and> p = p' \<and> t = t'"
proof -
  have other: "\<not> (list_all letter w \<and> list_all decimal w \<and> w \<noteq> [])" for w
    using letter_not_decimal by (cases w) auto
  have "(if h = [] then [] else [h]) @ [p] @ (if t = [] then [] else [t]) =
      (if h' = [] then [] else [h']) @ [p'] @ (if t' = [] then [] else [t'])"
    using fields_option [OF assms(1)] fields_option [OF assms(2)] assms(3) by simp
  then show ?thesis
    using assms(1,2) other [of t] other [of t'] unfolding option_parts_def
    by (cases "h = []"; cases "h' = []"; cases "t = []"; cases "t' = []") auto
qed

abbreviation colon :: regex where
  "colon \<equiv> One (\<lambda>c. c = CHR '':'')"

lemma denotes_host:
  "denotes (Maybe (Cat (Capture (Plus no_colon)) colon)) w gs \<longleftrightarrow>
    (\<exists>h. gs = [h] \<and> list_all no_colon h \<and> w = (if h = [] then [] else h @ '':''))"
  by (auto simp: numeral_2_eq_2)

lemma denotes_settings:
  "denotes (Maybe (Cat colon (Capture (Plus letter)))) w gs \<longleftrightarrow>
    (\<exists>t. gs = [t] \<and> list_all letter t \<and> w = (if t = [] then [] else '':'' @ t))"
  by (auto simp: numeral_2_eq_2)

lemma denotes_port:
  "denotes (Capture (Plus decimal)) w gs \<longleftrightarrow> (gs = [w] \<and> w \<noteq> [] \<and> list_all decimal w)"
  by auto

lemma denotes_Cat:
  "denotes (Cat a b) s gs \<longleftrightarrow>
    (\<exists>v as w bs. denotes a v as \<and> denotes b w bs \<and> s = v @ w \<and> gs = as @ bs)"
  by auto

lemma denotes_given_host:
  "denotes (Capture (Plus no_colon)) w gs \<longleftrightarrow> gs = [w] \<and> w \<noteq> [] \<and> list_all no_colon w"
  by auto

lemma denotes_colon: "denotes colon w gs \<longleftrightarrow> gs = [] \<and> w = '':''"
  by auto

lemmas denotes_parts = denotes_host denotes_settings denotes_port denotes_given_host denotes_colon

lemma denotes_listen:
  "denotes listen_regex s gs \<longleftrightarrow> (\<exists>h p t. gs = [h, p, t] \<and> option_parts h p t \<and> s = option_text h p t)"
  (is "?L \<longleftrightarrow> ?R")
proof
  assume ?L
  then obtain h p t where "gs = [h] @ [p] @ [t]" "option_parts h p t" "s = option_text h p t"
    unfolding listen_regex_def denotes_Cat [of "Maybe _"] denotes_Cat [of "Capture _"] denotes_parts
      option_parts_def option_text_def by blast
  then show ?R by simp
next
  assume ?R
  then obtain h p t where r: "gs = [h] @ [p] @ [t]" "option_parts h p t" "s = option_text h p t" by auto
  show ?L
    unfolding r(1,3) listen_regex_def option_text_def
    by (intro denotes.cat) (use r(2) in \<open>simp_all only: denotes_parts option_parts_def, simp_all\<close>)
qed

lemma denotes_connect:
  "denotes connect_regex s gs \<longleftrightarrow>
    (\<exists>h p t. gs = [h, p, t] \<and> h \<noteq> [] \<and> option_parts h p t \<and> s = option_text h p t)"
  (is "?L \<longleftrightarrow> ?R")
proof
  assume ?L
  then obtain h p t where "gs = [h] @ [] @ [p] @ [t]" "h \<noteq> []" "list_all no_colon h" "p \<noteq> []"
    "list_all decimal p" "list_all letter t" "s = h @ '':'' @ p @ (if t = [] then [] else '':'' @ t)"
    unfolding connect_regex_def denotes_Cat [of "Capture _"] denotes_Cat [of colon "Cat _ _"] denotes_parts
    by blast
  then show ?R by (simp add: option_parts_def option_text_def)
next
  assume ?R
  then obtain h p t where "gs = [h, p, t]" "h \<noteq> []" "option_parts h p t" "s = option_text h p t" by blast
  then have r: "gs = [h] @ [] @ [p] @ [t]" "h \<noteq> []" "option_parts h p t"
    "s = h @ '':'' @ p @ (if t = [] then [] else '':'' @ t)" by (simp_all add: option_text_def)
  show ?L
    unfolding r(1,4) connect_regex_def
    by (intro denotes.cat) (use r(2,3) in \<open>simp_all only: denotes_parts option_parts_def, simp_all\<close>)
qed

lemma denotes_net:
  "denotes net_regex s gs \<longleftrightarrow>
    (\<exists>h p. gs = [h, p] \<and> h \<noteq> [] \<and> option_parts h p [] \<and> s = option_text h p [])"
  (is "?L \<longleftrightarrow> ?R")
proof
  assume ?L
  then obtain h p where "gs = [h] @ [] @ [p]" "h \<noteq> []" "list_all no_colon h" "p \<noteq> []"
    "list_all decimal p" "s = h @ '':'' @ p"
    unfolding net_regex_def denotes_Cat denotes_parts by blast
  then show ?R by (simp add: option_parts_def option_text_def)
next
  assume ?R
  then obtain h p where "gs = [h, p]" "h \<noteq> []" "option_parts h p []" "s = option_text h p []" by blast
  then have r: "gs = [h] @ [] @ [p]" "h \<noteq> []" "option_parts h p []" "s = h @ '':'' @ p"
    by (simp_all add: option_text_def)
  show ?L
    unfolding r(1,4) net_regex_def
    by (intro denotes.cat) (use r(2,3) in \<open>simp_all only: denotes_parts option_parts_def, simp_all\<close>)
qed

lemma denotes_force: "denotes force_regex s gs \<longleftrightarrow> gs = [] \<and> list_all force_letter s"
  by (auto simp: force_regex_def)

context regex_library
begin

lemma match_listen:
  "option_parts h p t \<Longrightarrow> regex_match listen_regex (option_text h p t) = Some [h, p, t]"
  using match_unique [of listen_regex "option_text h p t" "[h, p, t]"] option_parts_unique
  unfolding denotes_listen by blast

lemma match_connect:
  "option_parts h p t \<Longrightarrow> h \<noteq> [] \<Longrightarrow> regex_match connect_regex (option_text h p t) = Some [h, p, t]"
  using match_unique [of connect_regex "option_text h p t" "[h, p, t]"] option_parts_unique
  unfolding denotes_connect by blast

lemma match_net:
  "option_parts h p [] \<Longrightarrow> h \<noteq> [] \<Longrightarrow> regex_match net_regex (option_text h p []) = Some [h, p]"
  using match_unique [of net_regex "option_text h p []" "[h, p]"] option_parts_unique
  unfolding denotes_net by blast

lemma validate_listen_iff:
  "validate_listen regex_match s = Some v \<longleftrightarrow>
    (\<exists>h p t. option_parts h p t \<and> s = option_text h p t \<and>
      v = \<lparr>o_host = h, o_port = p, o_settings = settings_of_string t\<rparr>)"
proof
  assume "validate_listen regex_match s = Some v"
  then obtain gs where g: "regex_match listen_regex s = Some gs" and v: "v = \<lparr>o_host = gs ! 0, o_port = gs ! 1,
      o_settings = settings_of_string (gs ! 2)\<rparr>"
    by (auto simp: validate_listen_def)
  then show "\<exists>h p t. option_parts h p t \<and> s = option_text h p t \<and>
      v = \<lparr>o_host = h, o_port = p, o_settings = settings_of_string t\<rparr>"
    using match_denotes [OF g] unfolding denotes_listen by auto
qed (auto simp: validate_listen_def match_listen)

lemma validate_connect_iff:
  "validate_connect regex_match s = Some v \<longleftrightarrow>
    (\<exists>h p t. option_parts h p t \<and> h \<noteq> [] \<and> s = option_text h p t \<and>
      v = \<lparr>o_host = h, o_port = p, o_settings = settings_of_string t\<rparr>)"
proof
  assume "validate_connect regex_match s = Some v"
  then obtain gs where g: "regex_match connect_regex s = Some gs" and v: "v = \<lparr>o_host = gs ! 0, o_port = gs ! 1,
      o_settings = settings_of_string (gs ! 2)\<rparr>"
    by (auto simp: validate_connect_def)
  then show "\<exists>h p t. option_parts h p t \<and> h \<noteq> [] \<and> s = option_text h p t \<and>
      v = \<lparr>o_host = h, o_port = p, o_settings = settings_of_string t\<rparr>"
    using match_denotes [OF g] unfolding denotes_connect by auto
qed (auto simp: validate_connect_def match_connect)

lemma validate_net_iff:
  "validate_net regex_match s = Some v \<longleftrightarrow>
    (\<exists>h p. option_parts h p [] \<and> h \<noteq> [] \<and> s = option_text h p [] \<and> v = \<lparr>net_host = h, net_port = p\<rparr>)"
proof
  assume "validate_net regex_match s = Some v"
  then obtain gs where g: "regex_match net_regex s = Some gs" and v: "v = \<lparr>net_host = gs ! 0, net_port = gs ! 1\<rparr>"
    by (auto simp: validate_net_def)
  then show "\<exists>h p. option_parts h p [] \<and> h \<noteq> [] \<and> s = option_text h p [] \<and> v = \<lparr>net_host = h, net_port = p\<rparr>"
    using match_denotes [OF g] unfolding denotes_net by auto
qed (auto simp: validate_net_def match_net)

lemma validate_force_iff:
  "validate_force regex_match s = Some v \<longleftrightarrow>
    list_all force_letter s \<and> v = settings_of_string s"
proof -
  have "regex_match force_regex s \<noteq> None \<longleftrightarrow> list_all force_letter s"
    using match_denotes [of force_regex s] match_found [of force_regex s] unfolding denotes_force by blast
  then show ?thesis by (auto simp: validate_force_def)
qed

end

lemma force_letters:
  "\<not> force_letter CHR ''K''" "force_letter CHR ''b''" "force_letter CHR ''r''"
  by (simp_all add: force_letter_def)

subsection \<open>Properties\<close>

text \<open>
  C28: \<open>--listen\<close> accepts exactly \<open>[host:]port[:settings]\<close>, \<open>--connect\<close> exactly
  \<open>host:port[:settings]\<close> and \<open>--net\<close> exactly \<open>host:port\<close>, where a host has no colon, a port is
  digits and settings are letters, and they take the parts from there; the parts of a text are
  unique, so no string can be read in two ways. \<open>--force\<close> accepts exactly the strings over the
  letters of its expression, which do not include K.
\<close>

theorem options_accepted:
  assumes "regex_library rm"
  shows "(validate_listen rm s = Some v \<longleftrightarrow>
      (\<exists>h p t. option_parts h p t \<and> s = option_text h p t \<and>
        v = \<lparr>o_host = h, o_port = p, o_settings = settings_of_string t\<rparr>)) \<and>
    (validate_connect rm s = Some v \<longleftrightarrow>
      (\<exists>h p t. option_parts h p t \<and> h \<noteq> [] \<and> s = option_text h p t \<and>
        v = \<lparr>o_host = h, o_port = p, o_settings = settings_of_string t\<rparr>)) \<and>
    (validate_net rm s = Some n \<longleftrightarrow>
      (\<exists>h p. option_parts h p [] \<and> h \<noteq> [] \<and> s = option_text h p [] \<and> n = \<lparr>net_host = h, net_port = p\<rparr>)) \<and>
    (\<forall>h p t h' p' t'. option_parts h p t \<longrightarrow> option_parts h' p' t' \<longrightarrow>
      option_text h p t = option_text h' p' t' \<longrightarrow> h = h' \<and> p = p' \<and> t = t') \<and>
    (validate_force rm s = Some f \<longleftrightarrow> list_all force_letter s \<and> f = settings_of_string s) \<and>
    \<not> force_letter CHR ''K''"
  using regex_library.validate_listen_iff [OF assms, of s v]
    regex_library.validate_connect_iff [OF assms, of s v]
    regex_library.validate_net_iff [OF assms, of s n] option_parts_unique
    regex_library.validate_force_iff [OF assms, of s f] force_letters(1)
  by blast

theorem options_accepted_witness:
  "validate_listen backtrack_match ''30005:R'' =
    Some \<lparr>o_host = [], o_port = ''30005'', o_settings = settings_of_string ''R''\<rparr>"
proof -
  have "option_parts [] ''30005'' ''R'' \<and> ''30005:R'' = option_text [] ''30005'' ''R''"
    by (simp add: option_parts_def option_text_def decimal_def letter_def)
  then show ?thesis
    using options_accepted [OF backtrack.regex_library_axioms, THEN conjunct1] by blast
qed

text \<open>
  The letters of \<open>--force\<close>: k and K, which \<open>settings_of_string\<close> understands, are refused, and b and
  r, which it ignores, are accepted.
\<close>

theorem force_accepted:
  assumes "regex_library rm"
  shows "(validate_force rm s = Some v \<longleftrightarrow>
      list_all force_letter s \<and> v = settings_of_string s) \<and>
    validate_force rm ''K'' = None \<and> filter_0_4_5 (settings_of_string ''K'') = ON \<and>
    validate_force rm ''br'' = Some default_settings"
proof -
  note f = regex_library.validate_force_iff [OF assms]
  note l = force_letters
  have "validate_force rm ''K'' \<noteq> Some v" for v using f [of "''K''" v] l(1) by simp
  then have "validate_force rm ''K'' = None" by (metis not_None_eq)
  moreover have "settings_of_string ''br'' = default_settings" "filter_0_4_5 (settings_of_string ''K'') = ON"
    by (simp_all add: settings_of_string_def settings_char_def default_settings_def)
  ultimately show ?thesis using f [of s v] f [of "''br''" default_settings] l by simp
qed

theorem force_accepted_witness:
  "validate_force backtrack_match ''R'' = Some (settings_of_string ''R'')"
  using force_accepted [OF backtrack.regex_library_axioms, THEN conjunct1, of "''R''"]
  by (simp add: force_letter_def)

end
