(* ===== verification/SplitterMain.thy ===== *)
theory SplitterMain
  imports Options SerialInput Outputs
begin

section \<open>The program (splitter_main.cc)\<close>

text \<open>
  \<open>realmain\<close> reads the options, creates the input, wires it to the distributor, opens the listeners,
  starts the connectors and the status writer and runs the io service. What it builds is a
  \<open>splitter\<close>; the io service is the step relation of its handlers. Splitting the command line into
  options, resolving names and opening ports are left to the libraries and the machine: their
  answers are arguments.
\<close>

subsection \<open>The input\<close>

datatype input = Serial serial_input | Network net_input

definition give_filter :: "input \<Rightarrow> filter \<Rightarrow> failure + input" where
  "give_filter i f =
     (case i of
        Serial s \<Rightarrow> ebind (set_filter serial_virtuals f s) (\<lambda>s. Inr (Serial s))
      | Network s \<Rightarrow> ebind (set_filter net_virtuals f s) (\<lambda>s. Inr (Network s)))"

definition notify_on :: "input \<Rightarrow> input" where
  "notify_on i =
     (case i of Serial s \<Rightarrow> Serial (set_message_notifier s) | Network s \<Rightarrow> Network (set_message_notifier s))"

text \<open>The first argument is whether a serial port can be opened.\<close>

definition start_input :: "bool \<Rightarrow> input \<Rightarrow> failure + input" where
  "start_input ok i =
     (case i of
        Serial s \<Rightarrow> ebind (serial_start ok s) (\<lambda>s. Inr (Serial s))
      | Network s \<Rightarrow> Inr (Network (net_start s)))"

definition input_calls :: "input \<Rightarrow> input_call list" where
  "input_calls i = (case i of Serial s \<Rightarrow> calls s | Network s \<Rightarrow> calls s)"

inductive input_handler :: "input \<Rightarrow> input \<Rightarrow> bool" where
  serial: "serial_handler s t \<Longrightarrow> input_handler (Serial s) (Serial t)"
| network: "net_handler s t \<Longrightarrow> input_handler (Network s) (Network t)"

text \<open>
  The handler of a read that returns data; for a serial port \<open>ok\<close> is whether it can be opened again
  if the read leads to that. A handler that fails ends the program.
\<close>

definition input_read :: "bool \<Rightarrow> bytebuf \<Rightarrow> input \<Rightarrow> failure + input" where
  "input_read ok b i =
     (case i of
        Serial s \<Rightarrow> ebind (serial_read_handler ok (Received b) s) (\<lambda>s. Inr (Serial s))
      | Network s \<Rightarrow> ebind (net_read_handler (Read_data b) s) (\<lambda>s. Inr (Network s)))"

inductive input_fails :: "input \<Rightarrow> failure \<Rightarrow> bool" where
  serial: "serial_fails s e \<Longrightarrow> input_fails (Serial s) e"
| network: "net_fails s e \<Longrightarrow> input_fails (Network s) e"

subsection \<open>The options\<close>

text \<open>What was given on the command line, and the values after the validators.\<close>

record command_line =
  arg_help :: bool
  arg_serial :: "string option"
  arg_net :: "string option"
  arg_status_file :: "string option"
  arg_fixed_baud :: u32
  arg_listen :: "string list"
  arg_connect :: "string list"
  arg_force :: "string option"

record options =
  opt_help :: bool
  opt_serial :: "string option"
  opt_net :: "net_option option"
  opt_status_file :: "string option"
  opt_fixed_baud :: u32
  opt_listen :: "output_option list"
  opt_connect :: "output_option list"
  opt_force :: settings

definition validate_given :: "('a \<Rightarrow> 'b option) \<Rightarrow> 'a option \<Rightarrow> 'b option option" where
  "validate_given validate v =
     (case v of None \<Rightarrow> Some None | Some x \<Rightarrow> map_option Some (validate x))"

definition store_options :: "matcher \<Rightarrow> command_line \<Rightarrow> options option" where
  "store_options regex_match a =
     (case (validate_given (validate_net regex_match) (arg_net a),
            those (map (validate_listen regex_match) (arg_listen a)),
            those (map (validate_connect regex_match) (arg_connect a)),
            validate_given (validate_force regex_match) (arg_force a)) of
        (Some net, Some listen, Some connect, Some force) \<Rightarrow>
          Some \<lparr>opt_help = arg_help a, opt_serial = arg_serial a, opt_net = net,
            opt_status_file = arg_status_file a, opt_fixed_baud = arg_fixed_baud a,
            opt_listen = listen, opt_connect = connect,
            opt_force = (case force of None \<Rightarrow> default_settings | Some s \<Rightarrow> s)\<rparr>
      | _ \<Rightarrow> None)"

definition create_input :: "options \<Rightarrow> input option" where
  "create_input opts =
     (case opt_serial opts of
        Some path \<Rightarrow>
          Some (Serial (new_serial_input (opt_fixed_baud opts) (opt_force opts) default_filter))
      | None \<Rightarrow>
          map_option (\<lambda>net. Network (new_net_input (opt_force opts) default_filter)) (opt_net opts))"

subsection \<open>The splitter\<close>

record splitter =
  source :: input
  wiring :: hub
  listening :: "listener list"

text \<open>
  A change of the wiring, with the calls of \<open>BeastInput::set_filter\<close> the distributor makes during
  it.
\<close>

definition rewire :: "hub \<Rightarrow> splitter \<Rightarrow> failure + splitter" where
  "rewire h S =
     ebind (efold give_filter (source S) (drop (length (requests (wiring S))) (requests h))) (\<lambda>i.
       Inr (S\<lparr>source := i, wiring := h\<rparr>))"

text \<open>What the machine answers: the endpoints of a name, and whether one can be listened on.\<close>

record machine =
  resolve :: "string \<Rightarrow> string \<Rightarrow> string list"
  can_listen :: "nat \<Rightarrow> string \<Rightarrow> bool"
  can_open :: bool

definition listen_on :: "machine \<Rightarrow> listener list \<Rightarrow> output_option \<Rightarrow> listener list" where
  "listen_on m ls l =
     foldl (\<lambda>ls endpoint.
         if can_listen m (length ls) endpoint then ls @ [listener_start (new_listener (o_settings l))] else ls)
       ls (resolve m (o_host l) (o_port l))"

fun listen_all :: "machine \<Rightarrow> listener list \<Rightarrow> output_option list \<Rightarrow> listener list option" where
  "listen_all m ls [] = Some ls"
| "listen_all m ls (l # rest) =
     (if length (listen_on m ls l) = length ls then None else listen_all m (listen_on m ls l) rest)"

definition connect_to :: "hub \<Rightarrow> output_option \<Rightarrow> hub" where
  "connect_to h l =
     on_connector (length (conns h)) connector_start (add_connector (o_settings l) h)"

datatype outcome = Exit nat | Crash failure | Running splitter

definition realmain :: "matcher \<Rightarrow> machine \<Rightarrow> command_line option \<Rightarrow> failure + outcome" where
  "realmain regex_match m args =
     (case Option.bind args (store_options regex_match) of
        None \<Rightarrow> Inr (Exit 64)
      | Some opts \<Rightarrow>
          if opt_help opts then Inr (Exit 64)
          else if opt_connect opts = [] \<and> opt_listen opts = [] then Inr (Exit 64)
          else
            case create_input opts of
              None \<Rightarrow> Inr (Exit 64)
            | Some i \<Rightarrow>
                case listen_all m [] (opt_listen opts) of
                  None \<Rightarrow> Inr (Exit 1)
                | Some ls \<Rightarrow>
                    let h = foldl connect_to new_hub (opt_connect opts) in
                    ebind (rewire (if opt_status_file opts \<noteq> None then hub_status_start h else h)
                             \<lparr>source = i, wiring = h, listening = ls\<rparr>) (\<lambda>S.
                    ebind (start_input (can_open m) (notify_on (source S))) (\<lambda>i.
                      Inr (Running (S\<lparr>source := i\<rparr>)))))"

text \<open>The handler in \<open>main\<close> catches exceptions, not failed assertions.\<close>

definition uncaught :: "failure \<Rightarrow> outcome" where
  "uncaught e = (if e = Logic_error \<or> e = System_error then Exit 2 else Crash e)"

definition main_function :: "matcher \<Rightarrow> machine \<Rightarrow> command_line option \<Rightarrow> outcome" where
  "main_function regex_match m args =
     (case realmain regex_match m args of
        Inr outcome \<Rightarrow> outcome
      | Inl e \<Rightarrow> uncaught e)"

subsection \<open>Running the io service\<close>

text \<open>
  Each message the input hands on while a handler runs is broadcast at once; no client changes its
  filter or goes away during that. \<open>env\<close> is what the status writer sees meanwhile.
\<close>

fun pass_on :: "(nat \<Rightarrow> status_env) \<Rightarrow> input_call list \<Rightarrow> hub \<Rightarrow> (failure + hub) option" where
  "pass_on env [] h = Some (Inr h)"
| "pass_on env (Write_out d # cs) h = pass_on env cs h"
| "pass_on env (Notify m # cs) h =
     (case hub_broadcast (env (length cs)) m h of
        None \<Rightarrow> None
      | Some (Inl e) \<Rightarrow> Some (Inl e)
      | Some (Inr h') \<Rightarrow> pass_on env cs h')"

inductive splitter_step :: "splitter \<Rightarrow> splitter \<Rightarrow> bool" where
  input: "input_handler (source S) i \<Longrightarrow>
    pass_on env (drop (length (input_calls (source S))) (input_calls i)) (wiring S) = Some (Inr h) \<Longrightarrow>
    splitter_step S (S\<lparr>source := i, wiring := h\<rparr>)"
| event: "hub_event (wiring S) h \<Longrightarrow> rewire h S = Inr S' \<Longrightarrow> splitter_step S S'"

text \<open>
  How a handler ends the program: a handler of the input fails, a message the input hands on cannot
  be broadcast, the peer of a new connection has gone, or the input fails to take a filter.
\<close>

inductive splitter_fails :: "splitter \<Rightarrow> failure \<Rightarrow> bool" where
  input: "input_fails (source S) e \<Longrightarrow> splitter_fails S e"
| broadcast: "input_handler (source S) i \<Longrightarrow>
    pass_on env (drop (length (input_calls (source S))) (input_calls i)) (wiring S) = Some (Inl e) \<Longrightarrow>
    splitter_fails S e"
| connection: "hub_fails (wiring S) e \<Longrightarrow> splitter_fails S e"
| filter: "hub_event (wiring S) h \<Longrightarrow> rewire h S = Inl e \<Longrightarrow> splitter_fails S e"

inductive splitter_reachable :: "matcher \<Rightarrow> machine \<Rightarrow> command_line option \<Rightarrow> splitter \<Rightarrow> bool"
  for regex_match m args where
  start: "main_function regex_match m args = Running S \<Longrightarrow> splitter_reachable regex_match m args S"
| step: "splitter_reachable regex_match m args S \<Longrightarrow> splitter_step S S' \<Longrightarrow>
    splitter_reachable regex_match m args S'"

subsection \<open>The invariant of the program\<close>

definition input_given :: "input \<Rightarrow> filter \<times> bool" where
  "input_given i = (case i of Serial s \<Rightarrow> given s | Network s \<Rightarrow> net_given s)"

definition input_ok :: "u32 \<Rightarrow> settings \<Rightarrow> input \<Rightarrow> bool" where
  "input_ok baud fixed i = (case i of Serial s \<Rightarrow> serial_ok baud fixed s | Network s \<Rightarrow> net_ok fixed s)"

text \<open>
  The wiring and the input are in order, the input hands its messages on, and its filter is the one
  the distributor last asked for, which is the combination of the filters of the clients.
\<close>

definition splitter_ok :: "u32 \<Rightarrow> settings \<Rightarrow> splitter \<Rightarrow> bool" where
  "splitter_ok baud fixed S \<longleftrightarrow> hub_ok (wiring S) \<and> input_ok baud fixed (source S) \<and>
     input_given (source S) = (upstream_filter (dist (wiring S)), True)"

text \<open>Setting a filter.\<close>

context input_virtuals
begin

lemma set_filter_given:
  assumes "set_filter v f s = Inr t"
  shows "input_filter t = f \<and> has_message_notifier t = has_message_notifier s"
proof (cases "input_filter s = f")
  case True
  then show ?thesis using assms by (simp add: set_filter_def filter_eq_iff)
next
  case False
  then have "send_settings_message v (s\<lparr>input_filter := f\<rparr>) = Inr t"
    using assms by (simp add: set_filter_def filter_eq_iff)
  from send_settings_config [OF this] show ?thesis by (simp add: config_def)
qed

end

lemma give_filter_ends: "\<exists>j. give_filter i f = Inr j"
proof (cases i)
  case (Serial s)
  then show ?thesis using serial.set_filter_ends [of f s] by (auto simp: give_filter_def)
next
  case (Network s)
  then show ?thesis using net.set_filter_ends [of f s] by (auto simp: give_filter_def)
qed

lemma give_filters_ends: "\<exists>j. efold give_filter i fs = Inr j"
proof (induction fs arbitrary: i)
  case (Cons f fs)
  then show ?case using give_filter_ends [of i f] by auto
qed simp

lemma give_filter_ok:
  assumes "give_filter i f = Inr j" and "input_ok baud fixed i"
  shows "input_ok baud fixed j \<and> input_given j = (f, snd (input_given i))"
proof (cases i)
  case (Serial s)
  then obtain t where t: "set_filter serial_virtuals f s = Inr t" "j = Serial t"
    using assms(1) by (auto simp: give_filter_def ebind_Inr_iff)
  show ?thesis
    using serial_step_ok [OF serial_step.filter_set [OF t(1)]] serial.set_filter_given [OF t(1)] assms(2)
    by (simp add: input_ok_def input_given_def given_def t(2) Serial)
next
  case (Network s)
  then obtain t where t: "set_filter net_virtuals f s = Inr t" "j = Network t"
    using assms(1) by (auto simp: give_filter_def ebind_Inr_iff)
  show ?thesis
    using net_step_ok [OF net_step.filter_set [OF t(1)]] net.set_filter_given [OF t(1)] assms(2)
    by (simp add: input_ok_def input_given_def net_given_def t(2) Network)
qed

lemma give_filters_ok:
  assumes "efold give_filter i fs = Inr j" and "input_ok baud fixed i"
  shows "input_ok baud fixed j \<and> input_given j = (last (fst (input_given i) # fs), snd (input_given i))"
  using assms
proof (induction fs arbitrary: i)
  case (Cons f fs)
  then obtain k where k: "give_filter i f = Inr k" "efold give_filter k fs = Inr j"
    by (auto simp: ebind_Inr_iff)
  show ?case using Cons.IH [OF k(2)] give_filter_ok [OF k(1) Cons.prems(2)] by simp
qed simp

text \<open>The handlers of the input.\<close>

lemma input_handler_ok:
  assumes "input_handler i j" and "input_ok baud fixed i"
  shows "input_ok baud fixed j \<and> input_given j = input_given i \<and>
    (\<forall>m. Notify m \<in> set (drop (length (input_calls i)) (input_calls j)) \<longrightarrow> sound_message m)"
  using assms(1)
proof cases
  case (serial s t)
  then have "serial_ok baud fixed s" using assms(2) by (simp add: input_ok_def)
  then show ?thesis
    using serial serial_handler_ok [OF serial(3)] serial_handler_given [OF serial(3)]
    by (fastforce simp: input_ok_def input_given_def input_calls_def sound_calls_def)
next
  case (network s t)
  then have "net_ok fixed s" using assms(2) by (simp add: input_ok_def)
  then show ?thesis
    using network net_handler_ok [OF network(3)] net_handler_given [OF network(3)]
    by (fastforce simp: input_ok_def input_given_def input_calls_def sound_calls_def)
qed

lemma pass_on_ok:
  assumes "pass_on env cs h = Some (Inr h')" and "hub_ok h"
    and "\<And>m. Notify m \<in> set cs \<Longrightarrow> sound_message m"
  shows "hub_ok h' \<and> last_request h' = last_request h"
  using assms
proof (induction env cs h rule: pass_on.induct)
  case (3 env m cs h)
  obtain g where g: "hub_broadcast (env (length cs)) m h = Some (Inr g)" "pass_on env cs g = Some (Inr h')"
    using 3(2) by (auto split: option.splits sum.splits)
  have m: "wf_message m" using 3(4) [of m] by (simp add: sound_message_def)
  have ok: "hub_ok g" by (rule hub_broadcast_ok [OF 3(3) m g(1)])
  have "last_request g = last_request h"
    using hub_broadcast_outs [OF 3(3) m g(1)] by (metis last_request_fields)
  then show ?case using 3(1) [OF g(1) refl g(2) ok] 3(4) by simp
qed simp_all

lemma requests_last:
  assumes "requests h' = requests h @ new"
  shows "last_request h' = last (last_request h # new)"
  using assms by (simp add: last_request_def)

lemma splitter_step_ok:
  assumes "splitter_step S S'" and "splitter_ok baud fixed S"
  shows "splitter_ok baud fixed S'"
  using assms(1)
proof cases
  case (input i env h)
  have ok: "hub_ok (wiring S)" "input_ok baud fixed (source S)"
    "input_given (source S) = (upstream_filter (dist (wiring S)), True)"
    using assms(2) by (simp_all add: splitter_ok_def)
  note i = input_handler_ok [OF input(2) ok(2)]
  have h: "hub_ok h" "last_request h = last_request (wiring S)" using pass_on_ok [OF input(3) ok(1)] i by blast+
  then have "upstream_filter (dist h) = upstream_filter (dist (wiring S))" using ok(1) by (simp add: hub_ok_def)
  then show ?thesis using i ok h(1) by (simp add: splitter_ok_def input(1))
next
  case (event h)
  obtain new where new: "requests h = requests (wiring S) @ new" using hub_event_grows [OF event(1)] by blast
  have ok: "hub_ok (wiring S)" "input_ok baud fixed (source S)"
    "input_given (source S) = (last_request (wiring S), True)"
    using assms(2) by (simp_all add: splitter_ok_def hub_ok_def)
  have h: "hub_ok h" by (rule hub_event_ok [OF event(1) ok(1)])
  obtain j where j: "efold give_filter (source S) new = Inr j" "S' = S\<lparr>source := j, wiring := h\<rparr>"
    using event(2) by (auto simp: rewire_def new ebind_Inr_iff)
  have "upstream_filter (dist h) = last_request h" using h by (simp add: hub_ok_def)
  then show ?thesis
    using give_filters_ok [OF j(1) ok(2)] h ok(3) requests_last [OF new]
    by (simp add: splitter_ok_def j(2))
qed

subsection \<open>What \<open>main\<close> sets up\<close>

definition fresh :: "u32 \<Rightarrow> settings \<Rightarrow> bool \<Rightarrow> filter \<Rightarrow> input" where
  "fresh baud fixed serial f =
     (if serial then Serial (new_serial_input baud fixed f) else Network (new_net_input fixed f))"

lemma create_input_fresh:
  "create_input opts =
     (if opt_serial opts = None \<and> opt_net opts = None then None
      else Some (fresh (opt_fixed_baud opts) (opt_force opts) (opt_serial opts \<noteq> None) default_filter))"
  by (simp add: create_input_def fresh_def split: option.split)

text \<open>An input that is not connected only takes the filter in.\<close>

lemma fresh_members:
  "input_filter (new_serial_input baud fixed f) = f" "input_filter (new_net_input fixed f) = f"
  "(new_serial_input baud fixed f)\<lparr>input_filter := g\<rparr> = new_serial_input baud fixed g"
  "(new_net_input fixed f)\<lparr>input_filter := g\<rparr> = new_net_input fixed g"
  "serial_low_level_write d (new_serial_input baud fixed f) = (False, new_serial_input baud fixed f)"
  "net_low_level_write d (new_net_input fixed f) = (False, new_net_input fixed f)"
  by (simp_all add: new_serial_input_def new_net_input_def new_beast_input_def beast_input.defs
      serial_input.defs net_input.defs serial_low_level_write_def net_low_level_write_def)

lemma give_fresh: "give_filter (fresh baud fixed k f) g = Inr (fresh baud fixed k g)"
proof -
  have "send_settings_message serial_virtuals (new_serial_input baud fixed g) = Inr (new_serial_input baud fixed g)"
    using serial.wanted_to_message [of "new_serial_input baud fixed g"]
    by (auto simp: send_settings_message_def Let_def serial_virtuals_def fresh_members)
  moreover have "send_settings_message net_virtuals (new_net_input fixed g) = Inr (new_net_input fixed g)"
    using net.wanted_to_message [of "new_net_input fixed g"]
    by (auto simp: send_settings_message_def Let_def net_virtuals_def fresh_members)
  ultimately show ?thesis
    by (auto simp: fresh_def give_filter_def set_filter_def filter_eq_iff fresh_members)
qed

lemma give_fresh_all: "efold give_filter (fresh baud fixed k f) fs = Inr (fresh baud fixed k (last (f # fs)))"
  by (induction fs arbitrary: f) (simp_all add: give_fresh)

lemma start_fresh:
  "\<exists>j. start_input ok (notify_on (fresh baud fixed k f)) = Inr j \<and> input_ok baud fixed j \<and>
    input_given j = (f, True)"
proof (cases k)
  case True
  let ?s = "(new_serial_input baud fixed f)\<lparr>has_message_notifier := True\<rparr>"
  obtain t where t: "serial_start ok ?s = Inr t"
    using serial_try_to_connect_ends unfolding serial_start_def by blast
  have "serial_reachable baud fixed t" by (rule serial_reachable.start [OF t])
  then have "serial_ok baud fixed t" using serial_reachable_ok by blast
  moreover have "given t = (f, True)"
    using serial_connect_given [OF t [unfolded serial_start_def]] by (simp add: given_def fresh_members)
  ultimately show ?thesis
    using True t by (simp add: start_input_def notify_on_def fresh_def set_message_notifier_def input_ok_def
        input_given_def)
next
  case False
  let ?s = "(new_net_input fixed f)\<lparr>has_message_notifier := True\<rparr>"
  have "net_ok fixed (net_start ?s)" using net_reachable_ok [OF net_reachable.start] by blast
  moreover have "net_given (net_start ?s) = (f, True)"
    by (simp add: net_start_def net_try_to_connect_def net_given_def fresh_members)
  ultimately show ?thesis
    using False by (simp add: start_input_def notify_on_def fresh_def set_message_notifier_def input_ok_def
        input_given_def)
qed

text \<open>The connectors.\<close>

lemma connect_to_members:
  "dist (connect_to h l) = dist h" "status (connect_to h l) = status h" "requests (connect_to h l) = requests h"
  "conns (connect_to h l) = conns h @ [connector_start (new_connector (o_settings l))]"
  by (simp_all add: connect_to_def on_connector_def add_connector_def)

lemma connect_to_ok:
  assumes "hub_ok h"
  shows "hub_ok (connect_to h l)"
proof -
  have "hub_step (add_connector (o_settings l) h) (connect_to h l)"
    unfolding connect_to_def by (rule hub_step.start) (simp add: add_connector_def)
  then show ?thesis using hub_step_ok hub_step.new_connection assms by blast
qed

lemma connect_all:
  assumes "hub_ok h"
  shows "hub_ok (foldl connect_to h cs) \<and> dist (foldl connect_to h cs) = dist h \<and>
    status (foldl connect_to h cs) = status h \<and> requests (foldl connect_to h cs) = requests h \<and>
    conns (foldl connect_to h cs) = conns h @ map (\<lambda>l. connector_start (new_connector (o_settings l))) cs"
  using assms
proof (induction cs arbitrary: h)
  case (Cons l cs)
  show ?case using Cons.IH [OF connect_to_ok [OF Cons.prems]] by (simp add: connect_to_members)
qed simp

lemma new_hub_ok: "hub_ok new_hub"
  by (rule hub_reachable_ok [OF hub_reachable.start])

text \<open>The wiring before the input is started.\<close>

definition set_up :: "options \<Rightarrow> hub" where
  "set_up opts =
     (let h = foldl connect_to new_hub (opt_connect opts)
      in if opt_status_file opts \<noteq> None then hub_status_start h else h)"

lemma hub_status_start_members:
  "conns (hub_status_start h) = conns h" "filter_handle (status (hub_status_start h)) \<noteq> None"
  "\<exists>new. requests (hub_status_start h) = requests h @ new"
proof -
  obtain k d up where a: "add_client Status status_filter (dist h) = (k, d, up)"
    by (cases "add_client Status status_filter (dist h)") auto
  have g: "hub_status_start h = report_upstream up
      (h\<lparr>dist := d, status := reset_timeout ((status h)\<lparr>filter_handle := Some k\<rparr>)\<rparr>)"
    by (simp add: hub_status_start_def status_start_def a Let_def)
  show "conns (hub_status_start h) = conns h" "filter_handle (status (hub_status_start h)) \<noteq> None"
    by (simp_all add: g reset_timeout_def)
  show "\<exists>new. requests (hub_status_start h) = requests h @ new"
    using report_grows [of up "h\<lparr>dist := d, status := reset_timeout ((status h)\<lparr>filter_handle := Some k\<rparr>)\<rparr>"]
    by (simp add: g)
qed

lemma set_up_ok:
  "hub_ok (set_up opts)"
  "conns (set_up opts) = map (\<lambda>l. connector_start (new_connector (o_settings l))) (opt_connect opts)"
  "filter_handle (status (set_up opts)) \<noteq> None \<longleftrightarrow> opt_status_file opts \<noteq> None"
proof -
  note c = connect_all [OF new_hub_ok, of "opt_connect opts"]
  let ?h = "foldl connect_to new_hub (opt_connect opts)"
  have n: "next_handle (dist new_hub) = 0" "filter_handle (status new_hub) = None" "conns new_hub = []"
    by (simp_all add: new_hub_def set_filter_notifier_def new_distributor_def new_status_writer_def)
  have "hub_ok (hub_status_start ?h)" by (rule hub_status_start_ok) (use c n in simp_all)
  then show "hub_ok (set_up opts)" using c by (simp add: set_up_def Let_def)
  show "conns (set_up opts) = map (\<lambda>l. connector_start (new_connector (o_settings l))) (opt_connect opts)"
    using c n hub_status_start_members(1) [of ?h] by (simp add: set_up_def Let_def)
  show "filter_handle (status (set_up opts)) \<noteq> None \<longleftrightarrow> opt_status_file opts \<noteq> None"
    using hub_status_start_members(2) [of ?h] by (cases "opt_status_file opts") (simp_all add: set_up_def c n)
qed

text \<open>The options with which the program does something.\<close>

definition accepted :: "matcher \<Rightarrow> command_line option \<Rightarrow> options \<Rightarrow> bool" where
  "accepted regex_match args opts \<longleftrightarrow>
     Option.bind args (store_options regex_match) = Some opts \<and> \<not> opt_help opts \<and>
     (opt_connect opts \<noteq> [] \<or> opt_listen opts \<noteq> []) \<and> (opt_serial opts \<noteq> None \<or> opt_net opts \<noteq> None)"

lemma main_refused:
  assumes "\<nexists>opts. accepted rm args opts"
  shows "main_function rm m args = Exit 64"
  using assms
  by (auto simp: main_function_def realmain_def accepted_def create_input_fresh split: option.split)

lemma main_accepted:
  assumes "accepted rm args opts"
  shows "main_function rm m args =
    (case listen_all m [] (opt_listen opts) of
       None \<Rightarrow> Exit 1
     | Some ls \<Rightarrow> Running \<lparr>source = projr (start_input (can_open m) (notify_on
           (fresh (opt_fixed_baud opts) (opt_force opts) (opt_serial opts \<noteq> None)
             (last (default_filter # requests (set_up opts)))))),
         wiring = set_up opts, listening = ls\<rparr>)"
proof -
  let ?h = "foldl connect_to new_hub (opt_connect opts)"
  let ?i = "fresh (opt_fixed_baud opts) (opt_force opts) (opt_serial opts \<noteq> None)"
  let ?f = "last (default_filter # requests (set_up opts))"
  obtain j where j: "start_input (can_open m) (notify_on (?i ?f)) = Inr j" using start_fresh by blast
  have r: "requests ?h = []" using connect_all [OF new_hub_ok] by (simp add: new_hub_def)
  have w: "rewire (set_up opts) \<lparr>source = ?i default_filter, wiring = ?h, listening = ls\<rparr> =
      Inr \<lparr>source = ?i ?f, wiring = set_up opts, listening = ls\<rparr>" for ls
    by (simp only: rewire_def splitter.select_convs r list.size drop_0 give_fresh_all ebind_simps
        splitter.update_convs)
  have u: "(if opt_status_file opts \<noteq> None then hub_status_start ?h else ?h) = set_up opts"
    by (simp only: set_up_def Let_def)
  have c: "create_input opts = Some (?i default_filter)" "Option.bind args (store_options rm) = Some opts"
    "opt_help opts = False" "(opt_connect opts = [] \<and> opt_listen opts = []) = False"
    using assms by (auto simp: accepted_def create_input_fresh)
  have "realmain rm m args = (case listen_all m [] (opt_listen opts) of
      None \<Rightarrow> Inr (Exit 1)
    | Some ls \<Rightarrow> Inr (Running \<lparr>source = j, wiring = set_up opts, listening = ls\<rparr>))"
    by (simp only: realmain_def c option.case if_False Let_def u w ebind_simps splitter.select_convs j
        splitter.update_convs)
  then show ?thesis unfolding j by (simp add: main_function_def split: option.split)
qed

lemma main_runs:
  assumes a: "accepted rm args opts" and l: "listen_all m [] (opt_listen opts) = Some ls"
  shows "\<exists>S. main_function rm m args = Running S \<and>
    splitter_ok (opt_fixed_baud opts) (opt_force opts) S \<and> listening S = ls \<and>
    map c_settings (conns (wiring S)) = map o_settings (opt_connect opts) \<and>
    (\<forall>c \<in> set (conns (wiring S)). running c \<and> 0 < c_resolving c) \<and>
    (filter_handle (status (wiring S)) \<noteq> None \<longleftrightarrow> opt_status_file opts \<noteq> None)"
proof -
  let ?i = "fresh (opt_fixed_baud opts) (opt_force opts) (opt_serial opts \<noteq> None)"
  let ?f = "last (default_filter # requests (set_up opts))"
  obtain j where j: "start_input (can_open m) (notify_on (?i ?f)) = Inr j"
    "input_ok (opt_fixed_baud opts) (opt_force opts) j" "input_given j = (?f, True)"
    using start_fresh by blast
  note h = set_up_ok [of opts]
  have "?f = upstream_filter (dist (set_up opts))" using h(1) by (simp add: hub_ok_def last_request_def)
  then have ok: "splitter_ok (opt_fixed_baud opts) (opt_force opts)
      \<lparr>source = j, wiring = set_up opts, listening = ls\<rparr>" for ls
    using j h(1) by (simp add: splitter_ok_def)
  have c: "map c_settings (conns (set_up opts)) = map o_settings (opt_connect opts)"
    "\<forall>c \<in> set (conns (set_up opts)). running c \<and> 0 < c_resolving c"
    by (auto simp: h(2) connector_start_def resolve_and_connect_def new_connector_def)
  show ?thesis using main_accepted [OF a, of m] l ok c h(3) unfolding j(1) by auto
qed

subsection \<open>Properties\<close>

text \<open>
  C14: the program exits with status 64 unless the options can be read, ask for at least one
  listener or connector and name an input; it exits with status 1 if for one of the listening
  options no endpoint can be listened on; otherwise it runs, never failing while it starts, with
  the invariant of its parts established, its listeners open, one running connector for each
  connecting option in their order, and the status writer started if a file was named.
\<close>

theorem main_outcomes:
  "((\<nexists>opts. accepted rm args opts) \<longrightarrow> main_function rm m args = Exit 64) \<and>
  (\<forall>opts. accepted rm args opts \<longrightarrow>
    (case listen_all m [] (opt_listen opts) of
       None \<Rightarrow> main_function rm m args = Exit 1
     | Some ls \<Rightarrow> \<exists>S. main_function rm m args = Running S \<and>
         splitter_ok (opt_fixed_baud opts) (opt_force opts) S \<and> listening S = ls \<and>
         map c_settings (conns (wiring S)) = map o_settings (opt_connect opts) \<and>
         (\<forall>c \<in> set (conns (wiring S)). running c \<and> 0 < c_resolving c) \<and>
         (filter_handle (status (wiring S)) \<noteq> None \<longleftrightarrow> opt_status_file opts \<noteq> None)))"
proof (intro conjI allI impI)
  show "main_function rm m args = Exit 64" if "\<nexists>opts. accepted rm args opts"
    by (rule main_refused [OF that])
  fix opts assume a: "accepted rm args opts"
  show "case listen_all m [] (opt_listen opts) of
       None \<Rightarrow> main_function rm m args = Exit 1
     | Some ls \<Rightarrow> \<exists>S. main_function rm m args = Running S \<and>
         splitter_ok (opt_fixed_baud opts) (opt_force opts) S \<and> listening S = ls \<and>
         map c_settings (conns (wiring S)) = map o_settings (opt_connect opts) \<and>
         (\<forall>c \<in> set (conns (wiring S)). running c \<and> 0 < c_resolving c) \<and>
         (filter_handle (status (wiring S)) \<noteq> None \<longleftrightarrow> opt_status_file opts \<noteq> None)"
  proof (cases "listen_all m [] (opt_listen opts)")
    case None
    then show ?thesis using main_accepted [OF a, of m] by simp
  next
    case (Some ls)
    show ?thesis unfolding Some option.case by (rule main_runs [OF a Some])
  qed
qed

text \<open>A command line, the options it stands for and a machine on which it works.\<close>

definition sample_args :: command_line where
  "sample_args = \<lparr>arg_help = False, arg_serial = None, arg_net = Some ''beast:30005'',
     arg_status_file = Some ''/run/status'', arg_fixed_baud = 0, arg_listen = [''30104:R''],
     arg_connect = [''feed:30004:J''], arg_force = None\<rparr>"

definition sample_options :: options where
  "sample_options = \<lparr>opt_help = False, opt_serial = None,
     opt_net = Some \<lparr>net_host = ''beast'', net_port = ''30005''\<rparr>, opt_status_file = Some ''/run/status'',
     opt_fixed_baud = 0,
     opt_listen = [\<lparr>o_host = [], o_port = ''30104'', o_settings = settings_of_string ''R''\<rparr>],
     opt_connect = [\<lparr>o_host = ''feed'', o_port = ''30004'', o_settings = settings_of_string ''J''\<rparr>],
     opt_force = default_settings\<rparr>"

definition sample_machine :: machine where
  "sample_machine = \<lparr>resolve = (\<lambda>host port. [''0.0.0.0'', ''::'']), can_listen = (\<lambda>n endpoint. n = 0),
     can_open = True\<rparr>"

lemma sample_accepted: "accepted backtrack_match (Some sample_args) sample_options"
proof -
  have "option_parts [] ''30104'' ''R''" "option_parts ''feed'' ''30004'' ''J''" "option_parts ''beast'' ''30005'' []"
    by (simp_all add: option_parts_def no_colon_def decimal_def letter_def)
  then have "validate_listen backtrack_match ''30104:R'' =
      Some \<lparr>o_host = [], o_port = ''30104'', o_settings = settings_of_string ''R''\<rparr>"
    "validate_connect backtrack_match ''feed:30004:J'' =
      Some \<lparr>o_host = ''feed'', o_port = ''30004'', o_settings = settings_of_string ''J''\<rparr>"
    "validate_net backtrack_match ''beast:30005'' = Some \<lparr>net_host = ''beast'', net_port = ''30005''\<rparr>"
    using backtrack.match_listen [of "[]" "''30104''" "''R''"]
      backtrack.match_connect [of "''feed''" "''30004''" "''J''"] backtrack.match_net [of "''beast''" "''30005''"]
    by (simp_all add: validate_listen_def validate_connect_def validate_net_def option_text_def)
  then show ?thesis
    by (simp add: accepted_def sample_args_def sample_options_def store_options_def validate_given_def)
qed

lemma sample_listens: "listen_all sample_machine [] (opt_listen sample_options) =
    Some [listener_start (new_listener (settings_of_string ''R''))]"
  by (simp add: sample_machine_def sample_options_def listen_on_def)

theorem main_outcomes_witness:
  "\<exists>S. main_function backtrack_match sample_machine (Some sample_args) = Running S \<and>
    splitter_ok 0 default_settings S \<and> length (listening S) = 1 \<and>
    map c_settings (conns (wiring S)) = [settings_of_string ''J''] \<and>
    filter_handle (status (wiring S)) \<noteq> None"
  using main_outcomes [THEN conjunct2, rule_format, OF sample_accepted, of sample_machine]
  unfolding sample_listens option.case
  by (elim exE conjE) (fastforce simp: sample_options_def)

lemma splitter_reachable_ok:
  assumes "splitter_reachable rm m args S"
  shows "\<exists>opts. accepted rm args opts \<and> splitter_ok (opt_fixed_baud opts) (opt_force opts) S"
  using assms
proof induction
  case (start S)
  then obtain opts where o: "accepted rm args opts" using main_refused by fastforce
  then obtain ls where "listen_all m [] (opt_listen opts) = Some ls"
    using main_accepted [OF o, of m] start by (auto split: option.splits)
  from main_runs [OF o this] show ?case using o start by auto
next
  case (step S S')
  then show ?case using splitter_step_ok by blast
qed

text \<open>
  C1: while the program runs, its parts keep their invariants, the filter of the input is the
  combination of the filters of the clients of the distributor, and every message an open
  output's settings accept passes the filter of the input: what the receiver is asked for always
  covers what the clients want.
\<close>

theorem splitter_invariant:
  assumes "splitter_reachable rm m args S"
  shows "(\<exists>opts. accepted rm args opts \<and> splitter_ok (opt_fixed_baud opts) (opt_force opts) S) \<and>
    (\<forall>i < length (outs (wiring S)). \<forall>msg. subscribed msg (outs (wiring S) ! i) \<longrightarrow>
      accepts (fst (input_given (source S))) msg)"
proof (rule conjI)
  show *: "\<exists>opts. accepted rm args opts \<and> splitter_ok (opt_fixed_baud opts) (opt_force opts) S"
    using assms by (rule splitter_reachable_ok)
  then have ok: "hub_ok (wiring S)" "fst (input_given (source S)) = upstream_filter (dist (wiring S))"
    by (auto simp: splitter_ok_def)
  show "\<forall>i < length (outs (wiring S)). \<forall>msg. subscribed msg (outs (wiring S) ! i) \<longrightarrow>
      accepts (fst (input_given (source S))) msg"
  proof (intro allI impI)
    fix i msg assume i: "i < length (outs (wiring S))" and s: "subscribed msg (outs (wiring S) ! i)"
    let ?a = "outs (wiring S) ! i"
    have "served (wiring S) i" using ok(1) i by (simp add: hub_ok_def)
    then have "map_of (clients (dist (wiring S))) (client_handle ?a) = Some \<lparr>notifier = Output i,
        cfilter = to_filter (out_settings (conn_output ?a)), deleted = False\<rparr>"
      using s by (simp add: served_def subscribed_def Let_def)
    then have "to_filter (out_settings (conn_output ?a)) \<in> set (live_filters (dist (wiring S)))"
      by (force simp: live_filters_def dest: map_of_SomeD)
    then show "accepts (fst (input_given (source S))) msg"
      using ok s upstream_filter_accepts by (auto simp: hub_ok_def subscribed_def)
  qed
qed

theorem splitter_invariant_witness:
  "\<exists>S. main_function backtrack_match sample_machine (Some sample_args) = Running S \<and> hub_ok (wiring S)"
proof -
  obtain S where S: "main_function backtrack_match sample_machine (Some sample_args) = Running S"
    using main_accepted [OF sample_accepted, of sample_machine] unfolding sample_listens option.case by blast
  then show ?thesis
    using splitter_invariant [OF splitter_reachable.start [OF S], THEN conjunct1] by (auto simp: splitter_ok_def)
qed

text \<open>Passing the messages on ends, and fails only where error correction leaves the message.\<close>

lemma client_bytes_out_of_bounds:
  assumes "client_bytes s m = Inl e" and "sound_message m"
  shows "e = Out_of_bounds \<and> m_type m = MODE_S_SHORT \<and> df m \<in> {17, 18} \<and> 56 \<le> msg_correctable_bit m"
proof -
  have m: "wf_message m" "caches_ok m" using assms(2) by (simp_all add: sound_message_def)
  have c: "msg_corrected_data m = Inl e" using assms(1) by (simp add: client_bytes_failure)
  then have e: "e = Out_of_bounds" by (auto simp: msg_corrected_data_def split: if_splits)
  have "corrected_data fresh_globals m = Inl Out_of_bounds"
    using corrected_data_ok [OF m(2) fresh_globals_ok] c e by (auto simp: corrected_result_def split: sum.splits)
  then show ?thesis using corrected_data_out_of_bounds_lemma [OF m fresh_globals_ok] e by simp
qed

lemma pass_on_result:
  assumes "hub_ok h" and "\<And>m. Notify m \<in> set cs \<Longrightarrow> sound_message m"
  shows "(\<exists>h'. pass_on env cs h = Some (Inr h')) \<or>
    pass_on env cs h = Some (Inl Out_of_bounds) \<and>
      (\<exists>m. Notify m \<in> set cs \<and> m_type m = MODE_S_SHORT \<and> df m \<in> {17, 18} \<and> 56 \<le> msg_correctable_bit m)"
  using assms
proof (induction env cs h rule: pass_on.induct)
  case (3 env m cs h)
  have m: "sound_message m" "wf_message m" using 3(3) [of m] by (simp_all add: sound_message_def)
  obtain r where r: "hub_broadcast (env (length cs)) m h = Some r"
    using hub_broadcast_result [OF 3(2)] by blast
  show ?case
  proof (cases r)
    case (Inl e)
    obtain s where "client_bytes s m = Inl e"
      using hub_broadcast_fails [OF 3(2) m(2) r [unfolded Inl]] by blast
    from client_bytes_out_of_bounds [OF this m(1)] show ?thesis using r Inl by auto
  next
    case (Inr g)
    have "hub_ok g" by (rule hub_broadcast_ok [OF 3(2) m(2) r [unfolded Inr]])
    then show ?thesis using 3(1) [OF r Inr] 3(3) r Inr by auto
  qed
qed auto

text \<open>A position message is being read.\<close>

definition position_awaited :: "input \<Rightarrow> bool" where
  "position_awaited i = (case i of Serial s \<Rightarrow> position_pending s | Network s \<Rightarrow> position_pending s)"

lemma input_fails_only:
  assumes "input_fails i e" and "input_ok baud fixed i"
  shows "e = Assertion_failed \<and> (\<exists>ok b. input_read ok b i = Inl e \<and> length b \<le> 4096 \<and>
    (position_awaited i \<or> 0x35 \<in> set b))"
  using assms(1)
proof cases
  case (serial s)
  then have "serial_ok baud fixed s" using assms(2) by (simp add: input_ok_def)
  from serial_fails_only [OF serial(2) this] obtain ok b where "e = Assertion_failed"
    "serial_read_handler ok (Received b) s = Inl e" "length b \<le> read_buffer_size"
    "position_pending s \<or> 0x35 \<in> set b" by blast
  then show ?thesis
    by (intro conjI exI [of _ ok] exI [of _ b])
      (simp_all add: serial(1) input_read_def position_awaited_def read_buffer_size_def)
next
  case (network s)
  then have "net_ok fixed s" using assms(2) by (simp add: input_ok_def)
  from net_fails_only [OF network(2) this] obtain b where "e = Assertion_failed"
    "net_read_handler (Read_data b) s = Inl e" "length b \<le> net_read_buffer_size"
    "position_pending s \<or> 0x35 \<in> set b" by blast
  then show ?thesis
    by (intro conjI exI [of _ True] exI [of _ b])
      (simp_all add: network(1) input_read_def position_awaited_def net_read_buffer_size_def)
qed

lemma new_calls_sound:
  assumes "splitter_ok baud fixed S" and "input_handler (source S) i"
    and "Notify msg \<in> set (drop (length (input_calls (source S))) (input_calls i))"
  shows "sound_message msg"
proof -
  have "input_ok baud fixed (source S)" using assms(1) by (simp add: splitter_ok_def)
  from input_handler_ok [OF assms(2) this] assms(3) show ?thesis by blast
qed

lemma rewire_ends: "\<exists>S'. rewire h S = Inr S' \<and> wiring S' = h"
  using give_filters_ends [of "source S" "drop (length (requests (wiring S))) (requests h)"]
  by (auto simp: rewire_def)

lemma splitter_fails_only:
  assumes "splitter_ok baud fixed S" and "splitter_fails S e"
  shows "hub_fails (wiring S) e \<and> e = System_error \<and> uncaught e = Exit 2 \<or>
    (\<exists>ok b. input_read ok b (source S) = Inl e \<and> length b \<le> 4096 \<and>
      (position_awaited (source S) \<or> 0x35 \<in> set b)) \<and> e = Assertion_failed \<and> uncaught e = Crash e \<or>
    (\<exists>i msg. input_handler (source S) i \<and>
      Notify msg \<in> set (drop (length (input_calls (source S))) (input_calls i)) \<and> m_type msg = MODE_S_SHORT \<and>
      df msg \<in> {17, 18} \<and> 56 \<le> msg_correctable_bit msg) \<and> e = Out_of_bounds"
  using assms(2)
proof cases
  case input
  have "input_ok baud fixed (source S)" using assms(1) by (simp add: splitter_ok_def)
  from input_fails_only [OF input this] show ?thesis by (auto simp: uncaught_def)
next
  case (broadcast i env)
  have "hub_ok (wiring S)" using assms(1) by (simp add: splitter_ok_def)
  from pass_on_result [OF this new_calls_sound [OF assms(1) broadcast(1)], where env = env] broadcast
  show ?thesis by fastforce
next
  case connection
  then show ?thesis using hub_fails_system_error by (auto simp: uncaught_def)
next
  case (filter h)
  then show ?thesis using rewire_ends [of h S] by simp
qed

text \<open>
  C13: a running program goes on, but for three ways to end. Whatever a handler of the connections
  does, the input takes the filters it leads to; whatever the input hands on during a handler, the
  broadcasts end, and then there is a next state. A handler ends the program only if the peer of a
  new connection has gone before its address is asked for (an exception, exit status 2); if a read
  completes a position message or brings the type byte of one (the assertion in the constructor of
  \<open>Message\<close>); or if an output corrects a short frame with DF17 or DF18 whose error is looked up at
  bit 56 or later (a write past the message).
\<close>

theorem splitter_proceeds:
  assumes "splitter_reachable rm m args S"
  shows "(\<forall>h. hub_event (wiring S) h \<longrightarrow>
      (\<exists>S'. rewire h S = Inr S' \<and> wiring S' = h \<and> splitter_reachable rm m args S')) \<and>
    (\<forall>i env. input_handler (source S) i \<longrightarrow>
      (let new = drop (length (input_calls (source S))) (input_calls i); r = pass_on env new (wiring S) in
        (\<exists>h. r = Some (Inr h) \<and> splitter_reachable rm m args (S\<lparr>source := i, wiring := h\<rparr>)) \<or>
        r = Some (Inl Out_of_bounds) \<and> (\<exists>msg. Notify msg \<in> set new \<and> m_type msg = MODE_S_SHORT \<and>
          df msg \<in> {17, 18} \<and> 56 \<le> msg_correctable_bit msg))) \<and>
    (\<forall>e. splitter_fails S e \<longrightarrow>
      hub_fails (wiring S) e \<and> e = System_error \<and> uncaught e = Exit 2 \<or>
      (\<exists>ok b. input_read ok b (source S) = Inl e \<and> length b \<le> 4096 \<and>
        (position_awaited (source S) \<or> 0x35 \<in> set b)) \<and> e = Assertion_failed \<and> uncaught e = Crash e \<or>
      (\<exists>i msg. input_handler (source S) i \<and>
        Notify msg \<in> set (drop (length (input_calls (source S))) (input_calls i)) \<and> m_type msg = MODE_S_SHORT \<and>
        df msg \<in> {17, 18} \<and> 56 \<le> msg_correctable_bit msg) \<and> e = Out_of_bounds)"
proof (intro conjI allI impI)
  fix h assume e: "hub_event (wiring S) h"
  obtain S' where "rewire h S = Inr S'" "wiring S' = h" using rewire_ends by blast
  then show "\<exists>S'. rewire h S = Inr S' \<and> wiring S' = h \<and> splitter_reachable rm m args S'"
    using splitter_reachable.step [OF assms splitter_step.event [OF e]] by blast
next
  obtain baud fixed where ok: "splitter_ok baud fixed S" using splitter_reachable_ok [OF assms] by blast
  then have h: "hub_ok (wiring S)" "input_ok baud fixed (source S)" by (simp_all add: splitter_ok_def)
  fix i env assume i: "input_handler (source S) i"
  let ?new = "drop (length (input_calls (source S))) (input_calls i)"
  from pass_on_result [OF h(1) new_calls_sound [OF ok i], of ?new env]
  show "let new = ?new; r = pass_on env new (wiring S) in
      (\<exists>h. r = Some (Inr h) \<and> splitter_reachable rm m args (S\<lparr>source := i, wiring := h\<rparr>)) \<or>
      r = Some (Inl Out_of_bounds) \<and> (\<exists>msg. Notify msg \<in> set new \<and> m_type msg = MODE_S_SHORT \<and>
        df msg \<in> {17, 18} \<and> 56 \<le> msg_correctable_bit msg)"
    using splitter_reachable.step [OF assms splitter_step.input [OF i]] unfolding Let_def by blast
next
  obtain baud fixed where "splitter_ok baud fixed S" using splitter_reachable_ok [OF assms] by blast
  moreover fix e assume "splitter_fails S e"
  ultimately show "hub_fails (wiring S) e \<and> e = System_error \<and> uncaught e = Exit 2 \<or>
      (\<exists>ok b. input_read ok b (source S) = Inl e \<and> length b \<le> 4096 \<and>
        (position_awaited (source S) \<or> 0x35 \<in> set b)) \<and> e = Assertion_failed \<and> uncaught e = Crash e \<or>
      (\<exists>i msg. input_handler (source S) i \<and>
        Notify msg \<in> set (drop (length (input_calls (source S))) (input_calls i)) \<and> m_type msg = MODE_S_SHORT \<and>
        df msg \<in> {17, 18} \<and> 56 \<le> msg_correctable_bit msg) \<and> e = Out_of_bounds"
    by (rule splitter_fails_only)
qed

text \<open>
  A client connects to the sample machine and goes away at once: as long as its address can still
  be asked for the program goes on, and otherwise it ends.
\<close>

theorem splitter_proceeds_witness:
  "\<exists>S S' h. main_function backtrack_match sample_machine (Some sample_args) = Running S \<and>
    hub_event (wiring S) h \<and> rewire h S = Inr S' \<and> wiring S' = h \<and> splitter_fails S System_error \<and>
    uncaught System_error = Exit 2"
proof -
  obtain S where S: "main_function backtrack_match sample_machine (Some sample_args) = Running S"
    "wiring S = set_up sample_options"
    using main_accepted [OF sample_accepted, of sample_machine] unfolding sample_listens option.case
    by (metis splitter.select_convs(2))
  have "0 < length (conns (wiring S))" "0 < c_resolving (conns (wiring S) ! 0)"
    by (simp_all add: S(2) set_up_ok(2) sample_options_def connector_start_def resolve_and_connect_def
        new_connector_def)
  then have e: "hub_event (wiring S) (on_connector 0 (connector_resolve_handler Resolve_failed) (wiring S))"
    by (intro hub_event.resolve) simp_all
  have "accept_handler Accepted False (new_listener default_settings, wiring S) = Inl System_error"
    by (simp add: accept_handler_def add_output_def create_output_def Let_def)
  then have f: "splitter_fails S System_error" by (rule splitter_fails.connection [OF hub_fails.accept])
  note p = splitter_proceeds [OF splitter_reachable.start [OF S(1)]]
  have "uncaught System_error = Exit 2" using p [THEN conjunct2, THEN conjunct2] f by blast
  then show ?thesis using p [THEN conjunct1] S(1) e f by blast
qed

end
