(* ===== verification/EndToEnd.thy ===== *)
theory EndToEnd
  imports SplitterMain
begin

section \<open>From the receiver to the clients\<close>

text \<open>
  What a running splitter does with the frames its receiver sends: the read handler of the input
  (beast_input_serial.cc, beast_input_net.cc), the parser (beast_input.cc), the distributor
  (modes_filter.cc) and the outputs (beast_output.cc) taken together. Proved first for the base
  class of the inputs, inside its locale, then for the two inputs and for the outputs.
\<close>

subsection \<open>The messages of a list of frames\<close>

text \<open>The message a frame stands for; the argument is whether the receiver's clock is GPS time.\<close>

definition decoded :: "bool \<Rightarrow> message_type \<times> u64 \<times> byte \<times> bytebuf \<Rightarrow> message" where
  "decoded gps = (\<lambda>(type, ts, sig, d).
     projr (make_message type (if gps then GPS else TWELVEMEG) (take_bit 48 ts) sig d))"

lemma decoded_fields:
  assumes "data_frame (type, ts, sig, d)"
  shows "make_message type (if gps then GPS else TWELVEMEG) (take_bit 48 ts) sig d =
      Inr (decoded gps (type, ts, sig, d))"
    and "m_type (decoded gps (type, ts, sig, d)) = type"
    and "sound_message (decoded gps (type, ts, sig, d))"
proof -
  obtain m where m: "make_message type (if gps then GPS else TWELVEMEG) (take_bit 48 ts) sig d = Inr m"
    using assms by (auto simp: data_frame_def make_message_def)
  then have d: "decoded gps (type, ts, sig, d) = m" by (simp add: decoded_def)
  then show "make_message type (if gps then GPS else TWELVEMEG) (take_bit 48 ts) sig d =
      Inr (decoded gps (type, ts, sig, d))" using m by simp
  note ok = make_message_ok [OF m]
  show "m_type (decoded gps (type, ts, sig, d)) = type" by (simp add: d ok)
  have "unat (m_timestamp m) < 2 ^ 48"
    unfolding ok(5) using take_bit_nat_less_exp [of 48] by (simp only: unsigned_take_bit_eq)
  then show "sound_message (decoded gps (type, ts, sig, d))"
    using assms ok by (auto simp: d sound_message_def data_frame_def)
qed

lemma decoded_sound: "data_frame fr \<Longrightarrow> sound_message (decoded gps fr)"
  by (cases fr) (simp add: decoded_fields)

subsection \<open>The parser\<close>

text \<open>
  An input whose virtual functions let a good message through, and keep doing so, hands on every
  message of a list of frames.
\<close>

context input_virtuals
begin

lemma frames_deliver:
  assumes live: "\<And>t. beast_input.more t = members \<Longrightarrow> receiver_type t \<noteq> UNKNOWN_RECEIVER \<Longrightarrow>
      can_dispatch v (saw_good_message v t) \<and> beast_input.more (saw_good_message v t) = members"
    and s: "parser s = READ_1A" "has_message_notifier s" "receiver_type s \<noteq> UNKNOWN_RECEIVER"
      "beast_input.more s = members"
    and fs: "\<forall>fr \<in> set fs. data_frame fr"
  shows "\<exists>u. efold (byte_step v) s (concat (map frame_bytes fs)) = Inr u \<and>
    calls u = calls s @ map (\<lambda>fr. Notify (decoded (receiving_gps_timestamps s) fr)) fs \<and>
    parser u = READ_1A \<and> has_message_notifier u \<and> (fs \<noteq> [] \<longrightarrow> is_connected u) \<and> beast_input.more u = members"
  using s fs
proof (induction fs arbitrary: s)
  case (Cons fr fs)
  obtain type ts sig d where fr: "fr = (type, ts, sig, d)" by (cases fr)
  have df: "data_frame (type, ts, sig, d)" using Cons.prems(5) by (simp add: fr)
  let ?f = "framed type (timestamp_bytes ts @ [sig]) d s"
  have "beast_input.more ?f = members" "receiver_type ?f \<noteq> UNKNOWN_RECEIVER"
    using Cons.prems(3,4) by (simp_all add: framed_def)
  from live [OF this] have g: "can_dispatch v (saw_good_message v ?f)"
    "beast_input.more (saw_good_message v ?f) = members" by simp_all
  from fold_delivers [OF Cons.prems(1) _ _ Cons.prems(2) g(1)] df obtain u where
    u: "efold (byte_step v) s (frame_bytes fr) = Inr u"
      "calls u = calls s @ [Notify (decoded (receiving_gps_timestamps s) fr)]"
      "parser u = READ_1A" "is_connected u" "has_message_notifier u" "beast_input.more u = members"
      "receiving_gps_timestamps u = receiving_gps_timestamps s"
    using decoded_fields(1) [OF df, of "receiving_gps_timestamps s"] g(2)
    by (auto simp: fr frame_bytes_def data_frame_def)
  have "receiver_type u \<noteq> UNKNOWN_RECEIVER" using u(4) by (simp add: is_connected_def)
  from Cons.IH [OF u(3,5) this u(6)] Cons.prems(5) obtain w where
    w: "efold (byte_step v) u (concat (map frame_bytes fs)) = Inr w"
      "calls w = calls u @ map (\<lambda>fr. Notify (decoded (receiving_gps_timestamps u) fr)) fs"
      "parser w = READ_1A" "has_message_notifier w" "fs \<noteq> [] \<longrightarrow> is_connected w" "beast_input.more w = members"
    by auto
  have "is_connected w" using w(1,5) u(4) by (cases fs) auto
  then show ?case using u w by (intro exI [of _ w]) (simp add: efold_append)
qed simp

lemma frames_parsed:
  assumes live: "\<And>t. beast_input.more t = members \<Longrightarrow> receiver_type t \<noteq> UNKNOWN_RECEIVER \<Longrightarrow>
      can_dispatch v (saw_good_message v t) \<and> beast_input.more (saw_good_message v t) = members"
    and s: "parser s = READ_1A" "has_message_notifier s" "receiver_type s \<noteq> UNKNOWN_RECEIVER"
      "beast_input.more s = members"
    and fs: "\<forall>fr \<in> set fs. data_frame fr" and ok: "parser_ok s"
  obtains t where "parse_input v (concat (map frame_bytes fs)) s = Inr t"
    "calls t = calls s @ map Notify (map (decoded (receiving_gps_timestamps s)) fs)"
    "fs \<noteq> [] \<Longrightarrow> is_connected t" "beast_input.more t = members"
proof -
  obtain u where u: "efold (byte_step v) s (concat (map frame_bytes fs)) = Inr u"
    "calls u = calls s @ map (\<lambda>fr. Notify (decoded (receiving_gps_timestamps s) fr)) fs"
    "fs \<noteq> [] \<longrightarrow> is_connected u" "beast_input.more u = members"
    using frames_deliver [OF live s fs] by blast
  from ok u(1) show ?thesis
    by (rule parse_input_delivers) (use u that in \<open>auto simp: comp_def\<close>)
qed

end

subsection \<open>The two inputs\<close>

text \<open>
  An input that knows its receiver, is between two messages and has a read under way; a serial one
  has found its baud rate.
\<close>

definition between_messages :: "input \<Rightarrow> bool" where
  "between_messages i =
     (case i of
        Serial s \<Rightarrow> parser s = READ_1A \<and> receiver_type s \<noteq> UNKNOWN_RECEIVER \<and> \<not> autobauding s \<and>
          port_open s \<and> 0 < reads s
      | Network s \<Rightarrow> parser s = READ_1A \<and> receiver_type s \<noteq> UNKNOWN_RECEIVER \<and> 0 < net_reads s)"

definition gps_clock :: "input \<Rightarrow> bool" where
  "gps_clock i =
     (case i of Serial s \<Rightarrow> receiving_gps_timestamps s | Network s \<Rightarrow> receiving_gps_timestamps s)"

lemma serial_reads_frames:
  assumes "serial_ok baud fixed s" and "has_message_notifier s" and "between_messages (Serial s)"
    and "fs \<noteq> []" and "\<forall>fr \<in> set fs. data_frame fr"
  shows "\<exists>t. serial_read_handler ok (Received (concat (map frame_bytes fs))) s = Inr t \<and>
    calls t = calls s @ map Notify (map (decoded (receiving_gps_timestamps s)) fs)"
proof -
  let ?s = "s\<lparr>reads := reads s - 1\<rparr>"
  have live: "can_dispatch serial_virtuals (saw_good_message serial_virtuals t) \<and>
      beast_input.more (saw_good_message serial_virtuals t) = beast_input.more ?s"
    if "beast_input.more t = beast_input.more ?s" "receiver_type t \<noteq> UNKNOWN_RECEIVER" for t
    using assms(3) that serial_more(1) [OF that(1)]
    by (simp add: serial_virtuals_def serial_saw_good_message_def serial_can_dispatch_def base_saw_good_message_def
        base_can_dispatch_def between_messages_def Let_def)
  have s: "parser ?s = READ_1A" "has_message_notifier ?s" "receiver_type ?s \<noteq> UNKNOWN_RECEIVER" "parser_ok ?s"
    using assms(1-3) by (simp_all add: between_messages_def serial_ok_def parser_ok_def)
  obtain t where t: "parse_input serial_virtuals (concat (map frame_bytes fs)) ?s = Inr t"
    "calls t = calls ?s @ map Notify (map (decoded (receiving_gps_timestamps ?s)) fs)" "is_connected t"
    using serial.frames_parsed [OF live s(1-3) refl assms(5) s(4)] assms(4) by metis
  then have "serial_check_framing_errors ok t = Inr t"
    by (simp add: serial_check_framing_errors_def is_connected_def)
  then show ?thesis using t by (simp add: serial_read_handler_def serial_start_reading_def Let_def)
qed

lemma net_reads_frames:
  assumes "net_ok fixed s" and "has_message_notifier s" and "between_messages (Network s)"
    and "\<forall>fr \<in> set fs. data_frame fr"
  shows "\<exists>t. net_read_handler (Read_data (concat (map frame_bytes fs))) s = Inr t \<and>
    calls t = calls s @ map Notify (map (decoded (receiving_gps_timestamps s)) fs)"
proof -
  let ?s = "s\<lparr>net_reads := net_reads s - 1\<rparr>"
  have live: "can_dispatch net_virtuals (saw_good_message net_virtuals t) \<and>
      beast_input.more (saw_good_message net_virtuals t) = beast_input.more ?s"
    if "beast_input.more t = beast_input.more ?s" "receiver_type t \<noteq> UNKNOWN_RECEIVER" for t
    using that by (simp add: net_virtuals_def base_saw_good_message_def base_can_dispatch_def)
  have s: "parser ?s = READ_1A" "has_message_notifier ?s" "receiver_type ?s \<noteq> UNKNOWN_RECEIVER" "parser_ok ?s"
    using assms(1-3) by (simp_all add: between_messages_def net_ok_def parser_ok_def)
  obtain t where t: "parse_input net_virtuals (concat (map frame_bytes fs)) ?s = Inr t"
    "calls t = calls ?s @ map Notify (map (decoded (receiving_gps_timestamps ?s)) fs)"
    using net.frames_parsed [OF live s(1-3) refl assms(4) s(4)] by metis
  then show ?thesis
    by (simp add: net_read_handler_def net_start_reading_def net_check_framing_errors_def Let_def)
qed

lemma input_reads_frames:
  assumes "splitter_ok baud fixed S" and "between_messages (source S)"
    and "fs \<noteq> []" and "\<forall>fr \<in> set fs. data_frame fr" and "length (concat (map frame_bytes fs)) \<le> 4096"
  shows "\<exists>i. input_read ok (concat (map frame_bytes fs)) (source S) = Inr i \<and> input_handler (source S) i \<and>
    input_calls i = input_calls (source S) @ map Notify (map (decoded (gps_clock (source S))) fs)"
proof (cases "source S")
  case (Serial s)
  then have s: "serial_ok baud fixed s" "has_message_notifier s" "between_messages (Serial s)"
    using assms(1,2) by (simp_all add: splitter_ok_def input_ok_def input_given_def given_def)
  obtain t where t: "serial_read_handler ok (Received (concat (map frame_bytes fs))) s = Inr t"
    "calls t = calls s @ map Notify (map (decoded (receiving_gps_timestamps s)) fs)"
    using serial_reads_frames [OF s assms(3,4)] by blast
  have "serial_handler s t"
    by (rule serial_handler.read [OF _ _ t(1)])
       (use s(3) assms(5) in \<open>auto simp: between_messages_def read_buffer_size_def\<close>)
  then show ?thesis
    using t by (auto simp: Serial input_read_def input_calls_def gps_clock_def intro: input_handler.serial)
next
  case (Network s)
  then have s: "net_ok fixed s" "has_message_notifier s" "between_messages (Network s)"
    using assms(1,2) by (simp_all add: splitter_ok_def input_ok_def input_given_def net_given_def)
  obtain t where t: "net_read_handler (Read_data (concat (map frame_bytes fs))) s = Inr t"
    "calls t = calls s @ map Notify (map (decoded (receiving_gps_timestamps s)) fs)"
    using net_reads_frames [OF s assms(4)] by blast
  have "net_handler s t"
    by (rule net_handler.read [OF _ _ _ t(1)])
       (use s(3) assms(5) in \<open>auto simp: between_messages_def net_read_buffer_size_def\<close>)
  then show ?thesis
    using t by (auto simp: Network input_read_def input_calls_def gps_clock_def intro: input_handler.network)
qed

subsection \<open>The outputs\<close>

text \<open>
  A connection when a message is broadcast: the message's bytes in the format of the client are
  appended to its buffer if its settings ask for the message.
\<close>

definition handed :: "attachment \<Rightarrow> message \<Rightarrow> attachment" where
  "handed a m =
     (if subscribed m a
      then case client_bytes (out_settings (conn_output a)) m of
             Inr bs \<Rightarrow> a\<lparr>conn_output := fst (enqueue bs (conn_output a))\<rparr>
           | Inl e \<Rightarrow> a
      else a)"

definition out_of_bounds :: "message \<Rightarrow> bool" where
  "out_of_bounds m \<longleftrightarrow> m_type m = MODE_S_SHORT \<and> df m \<in> {17, 18} \<and> 56 \<le> msg_correctable_bit m"

lemma hub_broadcast_hands:
  assumes "hub_ok h" and "sound_message m"
  shows "(\<exists>h'. hub_broadcast env m h = Some (Inr h') \<and> hub_ok h' \<and> outs h' = map (\<lambda>a. handed a m) (outs h)) \<or>
    hub_broadcast env m h = Some (Inl Out_of_bounds) \<and> out_of_bounds m"
proof -
  have m: "wf_message m" using assms(2) by (simp add: sound_message_def)
  obtain r where r: "hub_broadcast env m h = Some r" using hub_broadcast_result [OF assms(1)] by blast
  note d = hub_broadcast_delivers [OF assms(1) m, of env, unfolded r option.inject]
  show ?thesis
  proof (cases r)
    case (Inl e)
    with hub_broadcast_fails [OF assms(1) m] r obtain s where "client_bytes s m = Inl e" by blast
    from client_bytes_out_of_bounds [OF this assms(2)] show ?thesis
      using r Inl by (simp add: out_of_bounds_def)
  next
    case (Inr g)
    have "length (outs g) = length (outs h)" using d Inr by auto
    moreover have "outs g ! i = handed (outs h ! i) m" if "i < length (outs h)" for i
      using d Inr that by (auto simp: handed_def split: if_splits)
    ultimately have "outs g = map (\<lambda>a. handed a m) (outs h)" by (intro nth_equalityI) simp_all
    then show ?thesis using hub_broadcast_ok [OF assms(1) m] r Inr by blast
  qed
qed

lemma pass_on_hands:
  assumes "hub_ok h" and "\<forall>m \<in> set ms. sound_message m"
  shows "(\<exists>h'. pass_on env (map Notify ms) h = Some (Inr h') \<and> outs h' = map (\<lambda>a. foldl handed a ms) (outs h)) \<or>
    pass_on env (map Notify ms) h = Some (Inl Out_of_bounds) \<and> (\<exists>m \<in> set ms. out_of_bounds m)"
  using assms
proof (induction ms arbitrary: h)
  case (Cons m ms)
  from hub_broadcast_hands [OF Cons.prems(1), of m "env (length ms)"] Cons.prems(2)
  consider g where "hub_broadcast (env (length ms)) m h = Some (Inr g)" "hub_ok g"
      "outs g = map (\<lambda>a. handed a m) (outs h)"
    | "hub_broadcast (env (length ms)) m h = Some (Inl Out_of_bounds)" "out_of_bounds m"
    by auto
  then show ?case
  proof cases
    case 1
    then show ?thesis using Cons.IH [OF 1(2)] Cons.prems(2) by (auto simp: comp_def)
  qed simp
qed simp

subsection \<open>Property\<close>

text \<open>
  C3: from the receiver to the clients. When a read of the running program's input returns whole
  Mode A/C and Mode S frames, and the input knows its receiver and is between messages, then it
  hands on the message of each frame, in order, and each open connection has the bytes of those
  messages its settings ask for appended to its buffer, in order and in its own format; the
  program then goes on. The only exception is the write out of bounds of error correction, on a
  short frame with DF17 or DF18.
\<close>

theorem frames_reach_clients:
  assumes "splitter_reachable rm m args S" and "between_messages (source S)"
    and "fs \<noteq> []" and "\<forall>fr \<in> set fs. data_frame fr" and "length (concat (map frame_bytes fs)) \<le> 4096"
  shows "\<exists>i. input_read ok (concat (map frame_bytes fs)) (source S) = Inr i \<and>
    (let ms = map (decoded (gps_clock (source S))) fs in
      input_calls i = input_calls (source S) @ map Notify ms \<and>
      (\<forall>env.
        (\<exists>h. pass_on env (map Notify ms) (wiring S) = Some (Inr h) \<and>
          outs h = map (\<lambda>a. foldl handed a ms) (outs (wiring S)) \<and>
          splitter_reachable rm m args (S\<lparr>source := i, wiring := h\<rparr>)) \<or>
        pass_on env (map Notify ms) (wiring S) = Some (Inl Out_of_bounds) \<and> (\<exists>msg \<in> set ms. out_of_bounds msg)))"
proof -
  obtain baud fixed where S: "splitter_ok baud fixed S" using splitter_reachable_ok [OF assms(1)] by blast
  let ?ms = "map (decoded (gps_clock (source S))) fs"
  obtain i where i: "input_read ok (concat (map frame_bytes fs)) (source S) = Inr i" "input_handler (source S) i"
    "input_calls i = input_calls (source S) @ map Notify ?ms"
    using input_reads_frames [OF S assms(2-5)] by blast
  have new: "drop (length (input_calls (source S))) (input_calls i) = map Notify ?ms" by (simp add: i(3))
  have "splitter_reachable rm m args (S\<lparr>source := i, wiring := h\<rparr>)"
    if "pass_on env (map Notify ?ms) (wiring S) = Some (Inr h)" for env h
    using splitter_reachable.step [OF assms(1) splitter_step.input [OF i(2)]] that unfolding new by blast
  moreover have "hub_ok (wiring S)" "\<forall>m \<in> set ?ms. sound_message m"
    using S assms(4) by (auto simp: splitter_ok_def decoded_sound)
  ultimately show ?thesis using i(1,3) pass_on_hands [of "wiring S" ?ms] unfolding Let_def by blast
qed

text \<open>
  A splitter on a Mode-S Beast at a fixed rate, to which a client connects before the receiver sends
  a frame.
\<close>

definition beast_args :: command_line where
  "beast_args = \<lparr>arg_help = False, arg_serial = Some ''/dev/beast'', arg_net = None,
     arg_status_file = None, arg_fixed_baud = 3000000, arg_listen = [''30104:R''], arg_connect = [],
     arg_force = Some ''B''\<rparr>"

definition beast_options :: options where
  "beast_options = \<lparr>opt_help = False, opt_serial = Some ''/dev/beast'', opt_net = None,
     opt_status_file = None, opt_fixed_baud = 3000000,
     opt_listen = [\<lparr>o_host = [], o_port = ''30104'', o_settings = settings_of_string ''R''\<rparr>],
     opt_connect = [], opt_force = settings_of_string ''B''\<rparr>"

lemma beast_accepted: "accepted backtrack_match (Some beast_args) beast_options"
proof -
  have "option_parts [] ''30104'' ''R''"
    by (simp add: option_parts_def no_colon_def decimal_def letter_def)
  then have "validate_listen backtrack_match ''30104:R'' =
      Some \<lparr>o_host = [], o_port = ''30104'', o_settings = settings_of_string ''R''\<rparr>"
    using backtrack.match_listen [of "[]" "''30104''" "''R''"] by (simp add: validate_listen_def option_text_def)
  moreover have "validate_force backtrack_match ''B'' = Some (settings_of_string ''B'')"
    using force_accepted [OF backtrack.regex_library_axioms, THEN conjunct1, of "''B''"]
    by (simp add: force_letter_def)
  ultimately show ?thesis
    by (simp add: accepted_def beast_args_def beast_options_def store_options_def validate_given_def)
qed

lemma beast_started:
  "\<exists>s. start_input True (notify_on (fresh 3000000 (settings_of_string ''B'') True default_filter)) = Inr (Serial s) \<and>
    between_messages (Serial s) \<and> \<not> receiving_gps_timestamps s"
proof -
  let ?c = "start_input True (notify_on (fresh 3000000 (settings_of_string ''B'') True default_filter))"
  have "case ?c of Inr (Serial s) \<Rightarrow> between_messages (Serial s) \<and> \<not> receiving_gps_timestamps s | _ \<Rightarrow> False"
    by code_simp
  then show ?thesis by (auto split: sum.splits input.splits)
qed

lemma beast_runs:
  "\<exists>s ls. main_function backtrack_match sample_machine (Some beast_args) =
      Running \<lparr>source = Serial s, wiring = new_hub, listening = ls\<rparr> \<and>
    between_messages (Serial s) \<and> \<not> receiving_gps_timestamps s"
proof -
  have "listen_all sample_machine [] (opt_listen beast_options) =
      Some [listener_start (new_listener (settings_of_string ''R''))]"
    by (simp add: sample_machine_def beast_options_def listen_on_def)
  moreover have "set_up beast_options = new_hub" by (simp add: set_up_def beast_options_def)
  moreover have "last (default_filter # requests new_hub) = default_filter" by (simp add: new_hub_def)
  moreover have "can_open sample_machine" by (simp add: sample_machine_def)
  ultimately show ?thesis
    using main_accepted [OF beast_accepted, of sample_machine] beast_started
    by (auto simp: beast_options_def)
qed

lemma give_filter_between:
  assumes "between_messages (Serial s)"
  shows "\<exists>t. give_filter (Serial s) f = Inr (Serial t) \<and> between_messages (Serial t) \<and>
    receiving_gps_timestamps t = receiving_gps_timestamps s"
proof -
  obtain t where t: "set_filter serial_virtuals f s = Inr t" using serial.set_filter_ends by blast
  then have "between_messages (Serial t) \<and> receiving_gps_timestamps t = receiving_gps_timestamps s"
    using assms
    by (auto simp: set_filter_def send_settings_message_def serial_virtuals_def serial_low_level_write_def Let_def
        ebind_Inr_iff between_messages_def split: if_splits)
  then show ?thesis using t by (simp add: give_filter_def)
qed

lemma give_filters_between:
  "between_messages (Serial s) \<Longrightarrow> \<exists>t. efold give_filter (Serial s) fs = Inr (Serial t) \<and>
    between_messages (Serial t) \<and> receiving_gps_timestamps t = receiving_gps_timestamps s"
proof (induction fs arbitrary: s)
  case (Cons f fs)
  from give_filter_between [OF Cons.prems, of f] obtain t where
    t: "give_filter (Serial s) f = Inr (Serial t)" "between_messages (Serial t)"
      "receiving_gps_timestamps t = receiving_gps_timestamps s" by blast
  show ?case using Cons.IH [OF t(2)] t by simp
qed simp

lemma beast_client:
  "\<exists>s ls. splitter_reachable backtrack_match sample_machine (Some beast_args)
      \<lparr>source = Serial s, wiring = one_output, listening = ls\<rparr> \<and>
    between_messages (Serial s) \<and> \<not> receiving_gps_timestamps s"
proof -
  obtain s ls where s: "main_function backtrack_match sample_machine (Some beast_args) =
      Running \<lparr>source = Serial s, wiring = new_hub, listening = ls\<rparr>" "between_messages (Serial s)"
      "\<not> receiving_gps_timestamps s" using beast_runs by blast
  let ?S = "\<lparr>source = Serial s, wiring = new_hub, listening = ls\<rparr>"
  have e: "hub_event new_hub one_output"
    by (rule hub_event.accept [where r = Accepted and peer = True and l = "new_listener (settings_of_string ''J'')"])
      (simp_all add: accept_handler_def add_output_def create_output_def new_listener_def new_hub_def set_filter_notifier_def
        new_distributor_def one_output_def)
  from give_filters_between [OF s(2), of "drop (length (requests new_hub)) (requests one_output)"]
  obtain t where g: "efold give_filter (Serial s) (drop (length (requests new_hub)) (requests one_output)) =
      Inr (Serial t)"
    and t: "between_messages (Serial t)" "\<not> receiving_gps_timestamps t"
    using s(3) by auto
  have r: "rewire one_output ?S = Inr \<lparr>source = Serial t, wiring = one_output, listening = ls\<rparr>"
    by (simp add: rewire_def g)
  have "splitter_step ?S \<lparr>source = Serial t, wiring = one_output, listening = ls\<rparr>"
    by (rule splitter_step.event [OF _ r]) (simp add: e)
  from splitter_reachable.step [OF splitter_reachable.start [OF s(1)] this] show ?thesis using t by blast
qed

text \<open>The frame arrives, and its bytes are in the buffer of the client.\<close>

theorem frames_reach_clients_witness:
  "\<exists>S i h. splitter_reachable backtrack_match sample_machine (Some beast_args) (S\<lparr>source := i, wiring := h\<rparr>) \<and>
    input_read True [0x1A, 0x31, 0, 0, 0, 0, 0, 0, 0, 0, 1] (source S) = Inr i \<and>
    outbuf (conn_output (outs (wiring S) ! 0)) = None \<and>
    outbuf (conn_output (outs h ! 0)) = Some [0x1A, 0x31, 0, 0, 0, 0, 0, 0, 0, 0, 1]"
proof -
  let ?bytes = "[0x1A, 0x31, 0, 0, 0, 0, 0, 0, 0, 0, 1] :: bytebuf"
  let ?fr = "(MODE_AC, 0 :: u64, 0 :: byte, [0, 1 :: byte])"
  let ?m = "decoded False ?fr" and ?a = "outs one_output ! 0"
  obtain s ls where s: "splitter_reachable backtrack_match sample_machine (Some beast_args)
      \<lparr>source = Serial s, wiring = one_output, listening = ls\<rparr>" (is "splitter_reachable _ _ _ ?S")
    "between_messages (Serial s)" "\<not> receiving_gps_timestamps s"
    using beast_client by blast
  have b: "concat (map frame_bytes [?fr]) = ?bytes" by code_simp
  have fr: "\<forall>fr \<in> set [?fr]. data_frame fr" by (simp add: data_frame_def)
  have clock: "gps_clock (Serial s) = False" using s(3) by (simp add: gps_clock_def)
  have m: "\<not> out_of_bounds ?m" by (simp add: out_of_bounds_def decoded_fields(2) data_frame_def)
  have n: "length (outs one_output) = 1"
    by (simp add: one_output_def attach_output_last [THEN conjunct1]) (simp add: new_hub_def)
  have h: "outbuf (conn_output ?a) = None" "outbuf (conn_output (handed ?a ?m)) = Some ?bytes" by code_simp+
  have "between_messages (source ?S)" "[?fr] \<noteq> []" "length (concat (map frame_bytes [?fr])) \<le> 4096"
    using s(2) unfolding b by simp_all
  from frames_reach_clients [OF s(1) this(1,2) fr this(3), of True, unfolded b]
  obtain i h where "input_read True ?bytes (source ?S) = Inr i" "outs h = map (\<lambda>a. foldl handed a [?m]) (outs one_output)"
    "splitter_reachable backtrack_match sample_machine (Some beast_args) (?S\<lparr>source := i, wiring := h\<rparr>)"
    using m by (auto simp: Let_def clock)
  then show ?thesis using h n by (intro exI [of _ ?S] exI [of _ i] exI [of _ h]) simp
qed

end
