(* ===== verification/Spec2Isabelle.thy ===== *)
theory Spec2Isabelle
  imports Distributor SocketOutput SerialInput NetInput StatusWriter DebugText Outputs SplitterMain EndToEnd
begin

text \<open>
  beast-splitter sits between one Mode-S Beast or Radarcape receiver and any number of clients. It
  reads the receiver's binary protocol from a serial port or over TCP, hands each message to the
  clients that want it in the format each of them asked for, and keeps the receiver configured for
  the most general set of messages wanted. This library models the whole program, one theory for
  each part, and proves what makes each part and their composition correct.

  The parts, in the order they build on each other:

    \<^item> \<open>Prelude\<close>: byte and word types, failures and the error monad (\<open>ebind\<close>, \<open>efold\<close>), ASCII
      codes; \<open>StdMap\<close>: \<open>std::map\<close> as its ordered list of entries.
    \<^item> \<open>Crc\<close> (crc.h, crc.cc): the generated table, the checksum loop, the residual and the tables of
      single-bit syndromes. Lemmas: the table computes polynomial division; the syndromes of
      single-bit errors are distinct, so the lookup finds exactly the bit.
    \<^item> \<open>ModesMessage\<close> (modes_message.h): messages with their mutable caches, and the accessors as
      functions that return the message with its caches filled. Lemmas: the caches refine uncached
      definitions; what error correction corrects, and where it writes out of bounds.
    \<^item> \<open>ModesFilter\<close> (modes_filter.h, modes_filter.cc): filters, their order, their combination
      and the test of a message. The locale \<open>filter_algebra\<close> is what the distributor needs of them.
    \<^item> \<open>Distributor\<close> (modes_filter.h, modes_filter.cc, \<open>FilterDistributor\<close>): the table of clients,
      its operations and the broadcast loop over notifiers that may change the table. The locales
      \<open>steady_notifiers\<close> and \<open>quiet_notifiers\<close> are the contract of the notifiers.
    \<^item> \<open>BeastSettings\<close> (beast_settings.h, beast_settings.cc): three-valued settings and their
      conversions from and to status bytes, strings, filters and command messages.
    \<^item> \<open>SocketOutput\<close> (beast_output.h, beast_output.cc): one client connection, its option commands,
      its formats, its buffer and the writes in progress.
    \<^item> \<open>BeastInput\<close> (beast_input.h, beast_input.cc): receiver detection, the settings protocol and the
      parser of the binary protocol, over a record of the virtual functions (\<open>virtuals\<close>); the locale
      \<open>input_virtuals\<close> is what the base class needs of them.
    \<^item> \<open>SerialInput\<close> and \<open>NetInput\<close> (beast_input_serial.h, beast_input_serial.cc, beast_input_net.h,
      beast_input_net.cc): the two subclasses as extensions of the record of the base class, with
      interpretations of its locale.
    \<^item> \<open>StatusWriter\<close> (status_writer.h, status_writer.cc): the status file and a reader for it.
    \<^item> \<open>DebugText\<close> (modes_message.h, modes_message.cc, modes_filter.cc): what the log prints of messages
      and filters.
    \<^item> \<open>Outputs\<close> (beast_output.h, beast_output.cc, \<open>SocketListener\<close>, \<open>SocketConnector\<close>): connections
      wired to the distributor; the record \<open>hub\<close> is the distributor with all that hangs on it.
    \<^item> \<open>Options\<close> and \<open>SplitterMain\<close> (splitter_main.cc): the validators of the options, \<open>realmain\<close>
      and \<open>main\<close>, and the running program: the record \<open>splitter\<close>.
    \<^item> \<open>EndToEnd\<close>: what the running program makes of the frames of its receiver, from the read handler
      of the input to the buffers of the outputs (\<open>frames_reach_clients\<close>).

  How they interact. A handler of the input may hand on messages: the base class appends them to the
  list \<open>calls\<close>, and \<open>pass_on\<close> broadcasts them to the clients of the distributor, which are outputs and
  the status writer (\<open>deliver_to\<close>). An event of an output or a connector may change the table of the
  distributor; each change appends the new combined filter to \<open>requests\<close>, and \<open>rewire\<close> gives it to
  the input, which may send new settings to the receiver. Those are the two step rules of
  \<open>splitter_step\<close>; \<open>main_function\<close> builds the state they start from.

  Conventions. A class is a record of its members, a member function a function from the old to the
  new state; handlers of the io service are functions of what the operation returned. A timer is a
  flag that says whether it is armed, an asynchronous operation a count or a list of those that are
  pending. Calls out of a component (writes, notifications) are lists of values in the order they
  are made. An \<open>assert\<close> that fails, a \<open>std::logic_error\<close>, a \<open>system_error\<close> and an access out of
  bounds are values of \<open>failure\<close>; the relations \<open>serial_fails\<close>, \<open>net_fails\<close>, \<open>hub_fails\<close> and
  \<open>splitter_fails\<close> say which handlers end the program with one. Integers have the width they have in the code; \<open>std::array<bool, 32>\<close> is a list whose
  length an invariant fixes.

  Bounds and loops. The rounds of the parser (\<open>parse_loop\<close>) end by a measure on the bytes left and the
  rank of the state. The broadcast loop is a partial function, as a notifier could add clients for
  ever: \<open>Distributor.broadcast_ends\<close> and \<open>hub_delivers\<close> prove that it returns. The reader of the status
  file takes a depth of 8, which is more than the file nests and has fields. Client handles are 32
  bits wide and not checked for reuse, so the steps that create one are limited to the first
  4294967295.

  The properties below and in the component theories: what the program keeps true while it runs
  (\<open>splitter_invariant\<close>, \<open>hub_delivers\<close>, the invariants of the inputs, of the outputs' buffers and of
  the distributor), that it goes on and how it can end (\<open>splitter_proceeds\<close>), what it starts with (\<open>main_outcomes\<close>,
  \<open>options_accepted\<close>), that the receiver's frames reach the clients (\<open>frames_reach_clients\<close>) and
  splitters can be chained (\<open>chained_messages\<close>), how the bytes of the receiver are parsed and where
  parsing can fail, what clients are sent and how their commands are read, which errors are
  corrected, how the baud rate is found and what the status file says.

  Not modelled: when and where log lines are written; the libraries: boost::asio, whose answers (what
  a read returns, whether a connection, a port or a name resolution succeeds) are arguments;
  boost::program_options, whose splitting of the command line into options is an argument of
  \<open>realmain\<close>; boost::regex, whose matching function is an argument of the validators with its
  documented behaviour as the locale \<open>regex_library\<close>; exceptions of closing a socket or a port and of
  cancelling a timer, and a handler that was already queued when its operation was cancelled; the
  clock; the temporary file the status file is
  renamed from; memory management.
\<close>

text \<open>
  Divergences found while modelling are stated where the code is: \<open>SerialInput.serial_position_aborts\<close>,
  \<open>SerialInput.serial_restart_reads_twice\<close>, \<open>SocketOutput.buffered_bytes_stall\<close>,
  \<open>ModesMessage.corrected_data_out_of_bounds_iff\<close>, \<open>BeastSettings.settings_of_filter_0_4_5_inverted\<close>,
  \<open>StatusWriter.status_message_reported\<close>, \<open>SplitterMain.splitter_proceeds\<close> and \<open>Options.options_accepted\<close>.
\<close>

subsection \<open>Chains of splitters\<close>

text \<open>
  What a splitter connected to another one with \<open>--net\<close> makes of a message the other has sent to it
  with the settings \<open>s\<close>: the data the first one sent, and its timestamp in the 48 bits of the
  format; \<open>gps\<close> is whether the second one believes the timestamps to be GPS ones.
\<close>

definition relayed :: "settings \<Rightarrow> bool \<Rightarrow> message \<Rightarrow> message \<Rightarrow> bool" where
  "relayed s gps m n \<longleftrightarrow>
     m_type n = m_type m \<and> client_data s m = Inr (m_data n) \<and> m_signal n = m_signal m \<and>
     m_timestamp n = take_bit 48 (output_timestamp s (m_timestamp_type m) (m_timestamp m)) \<and>
     m_timestamp_type n = (if gps then GPS else TWELVEMEG) \<and> sound_message n"

lemma client_data_length:
  assumes "wf_message m" and "m_type m \<noteq> STATUS" and "client_data s m = Inr d"
  shows "length d = message_size (m_type m)"
proof (cases "wants_fec s \<and> msg_crc_bad m \<and> msg_correctable m")
  case True
  then have "msg_corrected_data m = Inr d" using assms(2,3) by (simp add: client_data_def)
  then show ?thesis using msg_corrected_data_valid(1) [OF assms(1)] True by blast
next
  case False
  then have "d = m_data m"
    using assms(2,3) by (auto simp: client_data_def msg_corrected_data_def split: if_splits)
  then show ?thesis using assms(1) by (simp add: wf_message_def)
qed

definition ready :: "net_input \<Rightarrow> bool" where
  "ready t \<longleftrightarrow> parser t = READ_1A \<and> has_message_notifier t \<and> receiver_type t \<noteq> UNKNOWN_RECEIVER"

lemma net_relays:
  assumes "binary_format s \<noteq> OFF" and "wf_message m" and "m_type m \<in> {MODE_AC, MODE_S_SHORT, MODE_S_LONG}"
    and "client_bytes s m = Inr bs" and "ready t"
  shows "\<exists>n u. efold (byte_step net_virtuals) t bs = Inr u \<and> calls u = calls t @ [Notify n] \<and>
    relayed s (receiving_gps_timestamps t) m n \<and> ready u \<and>
    receiving_gps_timestamps u = receiving_gps_timestamps t"
proof -
  obtain d where d: "client_data s m = Inr d" using assms(4) by (auto simp: client_bytes_def ebind_Inr_iff)
  let ?ts = "output_timestamp s (m_timestamp_type m) (m_timestamp m)"
  have bs: "bs = beast_frame (m_type m) ?ts (m_signal m) d"
    using assms(1,4) d by (simp add: client_bytes_def encoding_def)
  have status: "m_type m \<noteq> STATUS" using assms(3) by auto
  have len: "length d = message_size (m_type m)" by (rule client_data_length [OF assms(2) status d])
  have "can_dispatch net_virtuals (saw_good_message net_virtuals
      (framed (m_type m) (timestamp_bytes ?ts @ [m_signal m]) d t))"
    using assms(5) by (simp add: net_virtuals_def base_can_dispatch_def base_saw_good_message_def framed_def ready_def)
  from net.fold_delivers [OF _ assms(3) len _ this] assms(5) obtain n u where
    n: "make_message (m_type m) (if receiving_gps_timestamps t then GPS else TWELVEMEG)
        (take_bit 48 ?ts) (m_signal m) d = Inr n"
    and u: "efold (byte_step net_virtuals) t (beast_frame (m_type m) ?ts (m_signal m) d) = Inr u"
      "calls u = calls t @ [Notify n]" "parser u = READ_1A" "is_connected u" "has_message_notifier u"
      "receiving_gps_timestamps u = receiving_gps_timestamps t"
    by (auto simp: ready_def)
  note ok = make_message_ok [OF n]
  have "unat (m_timestamp n) < 2 ^ 48" unfolding ok(5) using take_bit_nat_less_exp [of 48]
    by (simp only: unsigned_take_bit_eq)
  show ?thesis
    using u ok d assms(3) \<open>unat (m_timestamp n) < 2 ^ 48\<close>
    by (intro exI [of _ n] exI [of _ u])
      (auto simp: bs relayed_def ready_def is_connected_def sound_message_def)
qed

lemma net_relays_all:
  assumes "binary_format s \<noteq> OFF"
    and "\<forall>m \<in> set ms. wf_message m \<and> m_type m \<in> {MODE_AC, MODE_S_SHORT, MODE_S_LONG} \<and>
      client_bytes s m = Inr (bytes m)"
    and "ready t"
  shows "\<exists>ns u. efold (byte_step net_virtuals) t (concat (map bytes ms)) = Inr u \<and>
    calls u = calls t @ map Notify ns \<and> list_all2 (relayed s (receiving_gps_timestamps t)) ms ns"
  using assms(2,3)
proof (induction ms arbitrary: t)
  case (Cons m ms)
  from net_relays [OF assms(1), of m "bytes m" t] Cons.prems obtain n u where u:
    "efold (byte_step net_virtuals) t (bytes m) = Inr u" "calls u = calls t @ [Notify n]"
    "relayed s (receiving_gps_timestamps t) m n" "ready u"
    "receiving_gps_timestamps u = receiving_gps_timestamps t"
    by auto
  from Cons.IH [OF _ u(4)] Cons.prems(1) obtain ns w where
    "efold (byte_step net_virtuals) u (concat (map bytes ms)) = Inr w" "calls w = calls u @ map Notify ns"
    "list_all2 (relayed s (receiving_gps_timestamps u)) ms ns"
    by auto
  then show ?case
    using u by (intro exI [of _ "n # ns"] exI [of _ w]) (simp add: efold_append)
qed simp

text \<open>What an output's buffer holds after it has been given messages.\<close>

definition write_all :: "message list \<Rightarrow> socket_output \<Rightarrow> failure + socket_output" where
  "write_all ms out = efold (\<lambda>out m. ebind (write_output m out) (\<lambda>(out, cs). Inr out)) out ms"

lemma write_all_buffered:
  assumes "write_all ms out = Inr out'" and "socket_open out" and "\<forall>m \<in> set ms. wf_message m"
  shows "(\<forall>m \<in> set ms. client_bytes (out_settings out) m = Inr (projr (client_bytes (out_settings out) m))) \<and>
    buffered out' = buffered out @ concat (map (\<lambda>m. projr (client_bytes (out_settings out) m)) ms)"
  using assms
proof (induction ms arbitrary: out)
  case Nil
  then show ?case by (simp add: write_all_def)
next
  case (Cons m ms)
  have "write_output m out = ebind (client_bytes (out_settings out) m) (\<lambda>bs. Inr (enqueue bs out))"
    using Cons.prems by (intro write_output_enqueue) simp_all
  then obtain bs where bs: "client_bytes (out_settings out) m = Inr bs"
    "write_all ms (fst (enqueue bs out)) = Inr out'"
    using Cons.prems(1) by (auto simp: write_all_def ebind_Inr_iff)
  have "socket_open (fst (enqueue bs out))" "out_settings (fst (enqueue bs out)) = out_settings out"
    "buffered (fst (enqueue bs out)) = buffered out @ bs"
    using Cons.prems(2) by (simp_all add: enqueue_def buffered_def)
  then show ?case using Cons.IH [OF bs(2)] Cons.prems(3) bs(1) by simp
qed

text \<open>
  C2: splitters can be chained. When the bytes that writing any Mode A/C and Mode S messages has
  left in the empty buffer of an output with binary format arrive at the network input of another
  splitter that is between messages and knows its receiver, that input hands on one message for
  each, in order: with the type, data and signal level that were sent and the timestamp in the
  clock the client asked for.
\<close>

theorem chained_messages:
  assumes "write_all ms out = Inr out'" and "socket_open out" and "buffered out = []"
    and "binary_format (out_settings out) \<noteq> OFF"
    and "\<forall>m \<in> set ms. wf_message m \<and> m_type m \<in> {MODE_AC, MODE_S_SHORT, MODE_S_LONG}"
    and "net_ok fixed t" and "ready t"
  shows "\<exists>u ns. net_read_handler (Read_data (buffered out')) t = Inr u \<and>
    calls u = calls t @ map Notify ns \<and>
    list_all2 (relayed (out_settings out) (receiving_gps_timestamps t)) ms ns"
proof -
  let ?s = "out_settings out" and ?bytes = "\<lambda>m. projr (client_bytes (out_settings out) m)"
  have wf: "\<forall>m \<in> set ms. wf_message m" using assms(5) by blast
  note w = write_all_buffered [OF assms(1,2) wf]
  let ?t = "t\<lparr>net_reads := net_reads t - 1\<rparr>"
  have t: "parser_ok ?t" "ready ?t" using assms(6,7) by (simp_all add: net_ok_def parser_ok_def ready_def)
  have "\<forall>m \<in> set ms. wf_message m \<and> m_type m \<in> {MODE_AC, MODE_S_SHORT, MODE_S_LONG} \<and>
      client_bytes ?s m = Inr (?bytes m)"
    using assms(5) w by blast
  from net_relays_all [OF assms(4) this t(2)] obtain ns u where
    u: "efold (byte_step net_virtuals) ?t (buffered out') = Inr u"
    "calls u = calls ?t @ map Notify ns" "list_all2 (relayed ?s (receiving_gps_timestamps ?t)) ms ns"
    using w assms(3) by auto
  obtain v where v: "parse_input net_virtuals (buffered out') ?t = Inr v" "calls v = calls u"
    using net.parse_input_delivers [OF t(1) u(1)] by metis
  show ?thesis
    using u v by (intro exI [of _ "net_start_reading (net_check_framing_errors v)"] exI [of _ ns])
      (simp add: net_read_handler_def net_start_reading_def net_check_framing_errors_def Let_def)
qed

text \<open>A message with an escaped byte goes from one splitter to another.\<close>

theorem chained_messages_witness:
  "\<exists>out t u ns. write_all [projr (make_message MODE_AC TWELVEMEG 5 0x1A [0x12, 0x34])]
      (new_socket_output default_settings) = Inr out \<and>
    buffered out = [0x1A, 0x31, 0, 0, 0, 0, 0, 5, 0x1A, 0x1A, 0x12, 0x34] \<and>
    net_read_handler (Read_data (buffered out)) t = Inr u \<and>
    calls u = calls t @ map Notify ns \<and> length ns = 1"
proof -
  let ?m = "projr (make_message MODE_AC TWELVEMEG 5 0x1A [0x12, 0x34])"
  let ?out = "new_socket_output default_settings"
  let ?t = "(new_net_input default_settings default_filter)\<lparr>has_message_notifier := True,
    receiver_type := BEAST, parser := READ_1A, resolving := 1\<rparr>"
  have c: "client_bytes default_settings ?m = Inr [0x1A, 0x31, 0, 0, 0, 0, 0, 5, 0x1A, 0x1A, 0x12, 0x34]"
    by code_simp
  have m: "wf_message ?m" "m_type ?m = MODE_AC" by code_simp+
  have o: "socket_open ?out" "buffered ?out = []" "out_settings ?out = default_settings"
    by (simp_all add: new_socket_output_def buffered_def)
  have w: "write_all [?m] ?out = Inr (fst (enqueue [0x1A, 0x31, 0, 0, 0, 0, 0, 5, 0x1A, 0x1A, 0x12, 0x34] ?out))"
    using write_output_enqueue [OF o(1) m(1)] c o(3) by (simp add: write_all_def case_prod_beta)
  have t: "net_ok default_settings ?t" "ready ?t"
    by (simp_all add: net_ok_def parser_ok_def net_socket_ok_def net_busy_def ready_def new_net_input_def
        new_beast_input_def beast_input.defs net_input.defs)
  have b: "binary_format (out_settings ?out) \<noteq> OFF" unfolding o(3) by (simp add: default_settings_def)
  have ms: "\<forall>m \<in> set [?m]. wf_message m \<and> m_type m \<in> {MODE_AC, MODE_S_SHORT, MODE_S_LONG}" using m by simp
  from chained_messages [OF w o(1,2) b ms t] obtain u ns where
    u: "net_read_handler (Read_data (buffered
        (fst (enqueue [0x1A, 0x31, 0, 0, 0, 0, 0, 5, 0x1A, 0x1A, 0x12, 0x34] ?out)))) ?t = Inr u"
    "calls u = calls ?t @ map Notify ns"
    "list_all2 (relayed (out_settings ?out) (receiving_gps_timestamps ?t)) [?m] ns" by blast
  have "length ns = 1" using u(3) by (auto dest: list_all2_lengthD)
  moreover have "buffered (fst (enqueue [0x1A, 0x31, 0, 0, 0, 0, 0, 5, 0x1A, 0x1A, 0x12, 0x34] ?out)) =
      [0x1A, 0x31, 0, 0, 0, 0, 0, 5, 0x1A, 0x1A, 0x12, 0x34]"
    by (simp add: enqueue_def o(2)) (simp add: buffered_def)
  ultimately show ?thesis using u(1,2) w by blast
qed

end
